(* ===== verification/Prelude.thy ===== *)
theory Prelude
  imports Main "HOL-Library.Word" "HOL-Library.Multiset" "HOL-Library.Sublist"
begin

text \<open>
  The slice of the C runtime that the components share: results that carry a fault, byte
  buffers with checked reads and writes, C strings inside buffers, the character classes of the
  "C" locale, and the string and number routines of libc that the sources call
  (\<open>index\<close>, \<open>strstr\<close>, \<open>strncmp\<close>, \<open>atoi\<close>, decimal printing).

  A C string is a \<open>string\<close> without a NUL; a buffer is a \<open>string\<close> that may hold NULs and has
  a definite length, so that an access past its end is the value \<open>Inl BadAccess\<close> and not an
  unspecified byte. Text is bytes throughout: locale, Latin-1 and UTF-8 conversions are the
  identity.
\<close>

unbundle bit_operations_syntax

named_theorems res_simps
named_theorems buf_simps

section \<open>Results that carry a fault\<close>

text \<open>
  \<open>BadAccess\<close> is an access outside an object, \<open>NullDeref\<close> an access through a null pointer
  (both undefined behaviour in C), \<open>Throw k\<close> a Scheme exception with key \<open>k\<close>, which leaves
  the C frames by a non-local exit.
\<close>

datatype cerror = BadAccess | NullDeref | Throw string

type_synonym 'a res = "cerror + 'a"

definition bindR :: "'a res \<Rightarrow> ('a \<Rightarrow> 'b res) \<Rightarrow> 'b res" where
  "bindR r f = (case r of Inl e \<Rightarrow> Inl e | Inr x \<Rightarrow> f x)"

section \<open>Bytes and character classes\<close>

abbreviation NUL :: char where "NUL \<equiv> CHR 0x00"

abbreviation LF :: char where "LF \<equiv> CHR 0x0A"

abbreviation CR :: char where "CR \<equiv> CHR 0x0D"

abbreviation DQ :: char where "DQ \<equiv> CHR 0x22"

abbreviation CRLF :: string where "CRLF \<equiv> [CR, LF]"

definition code :: "char \<Rightarrow> int" where
  "code c = of_char c"

definition isupper :: "char \<Rightarrow> bool" where
  "isupper c \<longleftrightarrow> 65 \<le> code c \<and> code c \<le> 90"

definition islower :: "char \<Rightarrow> bool" where
  "islower c \<longleftrightarrow> 97 \<le> code c \<and> code c \<le> 122"

definition isalpha :: "char \<Rightarrow> bool" where
  "isalpha c \<longleftrightarrow> isupper c \<or> islower c"

definition isdigit :: "char \<Rightarrow> bool" where
  "isdigit c \<longleftrightarrow> 48 \<le> code c \<and> code c \<le> 57"

definition isxdigit :: "char \<Rightarrow> bool" where
  "isxdigit c \<longleftrightarrow> isdigit c \<or> 65 \<le> code c \<and> code c \<le> 70 \<or> 97 \<le> code c \<and> code c \<le> 102"

definition isspace :: "char \<Rightarrow> bool" where
  "isspace c \<longleftrightarrow> code c = 32 \<or> 9 \<le> code c \<and> code c \<le> 13"

definition toupper :: "char \<Rightarrow> char" where
  "toupper c = (if islower c then char_of (code c - 32) else c)"

definition tolower :: "char \<Rightarrow> char" where
  "tolower c = (if isupper c then char_of (code c + 32) else c)"

lemmas ctype_defs = code_def isupper_def islower_def isalpha_def isdigit_def isxdigit_def
  isspace_def toupper_def tolower_def

section \<open>Buffers\<close>

type_synonym buf = "char list"

definition rd :: "buf \<Rightarrow> nat \<Rightarrow> char res" where
  "rd b i = (if i < length b then Inr (b ! i) else Inl BadAccess)"

definition wr :: "buf \<Rightarrow> nat \<Rightarrow> char \<Rightarrow> buf res" where
  "wr b i c = (if i < length b then Inr (b[i := c]) else Inl BadAccess)"

text \<open>The C string that starts at an offset, and the statement that a given one does.\<close>

definition cstr :: "buf \<Rightarrow> nat \<Rightarrow> string" where
  "cstr b i = takeWhile (\<lambda>c. c \<noteq> NUL) (drop i b)"

definition str_at :: "buf \<Rightarrow> nat \<Rightarrow> string \<Rightarrow> bool" where
  "str_at b i s \<longleftrightarrow> NUL \<notin> set s \<and> prefix (s @ [NUL]) (drop i b)"

text \<open>\<open>index\<close> of libc on a buffer: the scan ends at the character, at the NUL, or at a fault.\<close>

function bindex :: "char \<Rightarrow> buf \<Rightarrow> nat \<Rightarrow> nat option res" where
  "bindex c b i =
     (if i < length b
      then if b ! i = c then Inr (Some i)
           else if b ! i = NUL then Inr None
           else bindex c b (Suc i)
      else Inl BadAccess)"
  by pat_completeness auto
termination by (relation "measure (\<lambda>(c, b, i). length b - i)") auto

declare bindex.simps [simp del]

section \<open>C strings\<close>

text \<open>\<open>index\<close>, \<open>strstr\<close>, \<open>strncmp\<close> (equality only) and \<open>downcase\<close>-style maps on whole strings.\<close>

fun index_of :: "char \<Rightarrow> string \<Rightarrow> nat option" where
  "index_of c [] = None"
| "index_of c (x # xs) = (if x = c then Some 0 else map_option Suc (index_of c xs))"

fun strstr :: "string \<Rightarrow> string \<Rightarrow> nat option" where
  "strstr [] needle = (if needle = [] then Some 0 else None)"
| "strstr (x # xs) needle =
     (if prefix needle (x # xs) then Some 0 else map_option Suc (strstr xs needle))"

definition strncmp_eq :: "string \<Rightarrow> string \<Rightarrow> nat \<Rightarrow> bool" where
  "strncmp_eq a b n \<longleftrightarrow> take n a = take n b"

section \<open>Decimal numbers\<close>

text \<open>
  \<open>atoi\<close> as glibc has it: \<open>strtol\<close> in base 10 (leading white space, one sign, digits, the
  result saturated to 64 bits), cast to a 32-bit \<open>int\<close>.
\<close>

fun digits_val :: "int \<Rightarrow> string \<Rightarrow> int" where
  "digits_val acc [] = acc"
| "digits_val acc (c # cs) = (if isdigit c then digits_val (10 * acc + (code c - 48)) cs else acc)"

definition strtol10 :: "string \<Rightarrow> int" where
  "strtol10 s =
     (let t = dropWhile isspace s;
          v = (case t of
                 [] \<Rightarrow> 0
               | c # u \<Rightarrow> (if c = CHR ''-'' then - digits_val 0 u
                          else if c = CHR ''+'' then digits_val 0 u
                          else digits_val 0 t))
      in max (- (2 ^ 63)) (min (2 ^ 63 - 1) v))"

definition atoi :: "string \<Rightarrow> int" where
  "atoi s = signed_take_bit 31 (strtol10 s)"

text \<open>Decimal printing, as \<open>%d\<close> and \<open>number->string\<close> in radix 10 do it.\<close>

fun dec_nat :: "nat \<Rightarrow> string" where
  "dec_nat n =
     (if n < 10 then [char_of (48 + n)] else dec_nat (n div 10) @ [char_of (48 + n mod 10)])"

declare dec_nat.simps [simp del]

definition dec :: "int \<Rightarrow> string" where
  "dec n = (if n < 0 then CHR ''-'' # dec_nat (nat (- n)) else dec_nat (nat n))"

section \<open>Lemmas on results\<close>

lemma bindR_Inl [simp, res_simps]: "bindR (Inl e) f = Inl e"
  by (simp add: bindR_def)

lemma bindR_Inr [simp, res_simps]: "bindR (Inr x) f = f x"
  by (simp add: bindR_def)

lemma bindR_eq_Inr [res_simps]: "bindR r f = Inr y \<longleftrightarrow> (\<exists>x. r = Inr x \<and> f x = Inr y)"
  by (cases r) auto

lemma bindR_eq_Inl [res_simps]:
  "bindR r f = Inl e \<longleftrightarrow> r = Inl e \<or> (\<exists>x. r = Inr x \<and> f x = Inl e)"
  by (cases r) auto

lemma bindR_assoc: "bindR (bindR r f) g = bindR r (\<lambda>x. bindR (f x) g)"
  by (cases r) auto

lemma bindR_cong [fundef_cong]:
  "r = r' \<Longrightarrow> (\<And>x. r' = Inr x \<Longrightarrow> f x = f' x) \<Longrightarrow> bindR r f = bindR r' f'"
  by (cases r') auto

section \<open>Lemmas on buffers and strings in them\<close>

lemma rd_ok [simp, buf_simps]: "i < length b \<Longrightarrow> rd b i = Inr (b ! i)"
  by (simp add: rd_def)

lemma rd_bad [simp, buf_simps]: "length b \<le> i \<Longrightarrow> rd b i = Inl BadAccess"
  by (simp add: rd_def)

lemma wr_ok [simp, buf_simps]: "i < length b \<Longrightarrow> wr b i c = Inr (b[i := c])"
  by (simp add: wr_def)

lemma wr_bad [simp, buf_simps]: "length b \<le> i \<Longrightarrow> wr b i c = Inl BadAccess"
  by (simp add: wr_def)

lemma wr_length [res_simps]: "wr b i c = Inr b' \<Longrightarrow> length b' = length b"
  by (auto simp: wr_def split: if_splits)

lemma drop_eq_ConsD:
  assumes "drop i b = x # xs"
  shows "i < length b" "b ! i = x" "drop (Suc i) b = xs"
proof -
  show len: "i < length b" using assms by (cases "i < length b") auto
  have "drop i b = b ! i # drop (Suc i) b" using len by (simp add: Cons_nth_drop_Suc)
  then show "b ! i = x" "drop (Suc i) b = xs" using assms by auto
qed

lemma rd_drop: "drop i b = x # xs \<Longrightarrow> rd b i = Inr x"
  using drop_eq_ConsD [of i b x xs] by simp

lemma str_at_drop: "str_at b i s \<longleftrightarrow> NUL \<notin> set s \<and> (\<exists>post. drop i b = s @ NUL # post)"
  by (auto simp: str_at_def prefix_def)

lemma cstr_str_at: "str_at b i s \<Longrightarrow> cstr b i = s"
  by (auto simp: str_at_drop cstr_def takeWhile_append2 takeWhile_tail)

lemma bindex_drop:
  "drop i b = s @ NUL # post \<Longrightarrow> NUL \<notin> set s \<Longrightarrow> c \<noteq> NUL \<Longrightarrow>
   bindex c b i = Inr (map_option ((+) i) (index_of c s))"
proof (induction s arbitrary: i)
  case Nil
  then have "i < length b" "b ! i = NUL" by (auto dest: drop_eq_ConsD)
  then show ?case using Nil.prems by (simp add: bindex.simps [of c b i])
next
  case (Cons x s)
  from Cons.prems have d: "drop i b = x # (s @ NUL # post)" by simp
  note x = drop_eq_ConsD [OF d]
  from Cons.prems have "bindex c b (Suc i) = Inr (map_option ((+) (Suc i)) (index_of c s))"
    by (intro Cons.IH) (use x in auto)
  then show ?case
    using x Cons.prems
    by (auto simp: bindex.simps [of c b i] option.map_comp comp_def intro: option.map_cong)
qed

lemma bindex_bounds: "bindex c b i = Inr (Some j) \<Longrightarrow> i \<le> j \<and> j < length b"
proof (induction c b i rule: bindex.induct)
  case (1 c b i)
  then show ?case by (subst (asm) bindex.simps) (auto split: if_splits)
qed

lemma bindex_line:
  "c \<notin> set s \<Longrightarrow> NUL \<notin> set s \<Longrightarrow>
   bindex c (pre @ s @ c # post) (length pre) = Inr (Some (length pre + length s))"
proof (induction s arbitrary: pre)
  case Nil
  then show ?case by (subst bindex.simps) simp
next
  case (Cons x s)
  then show ?case using Cons.IH [of "pre @ [x]"] by (subst bindex.simps) auto
qed

lemma index_of_None: "index_of c s = None \<longleftrightarrow> c \<notin> set s"
  by (induction s) auto

lemma index_of_takeWhile:
  "c \<in> set s \<Longrightarrow> index_of c s = Some (length (takeWhile (\<lambda>x. x \<noteq> c) s))"
  by (induction s) auto

lemma index_of_Some:
  "index_of c s = Some n \<Longrightarrow> n < length s \<and> s ! n = c \<and> take n s = takeWhile (\<lambda>x. x \<noteq> c) s"
  by (induction s arbitrary: n) (auto split: if_splits)

lemma split_at_first:
  "c \<in> set s \<Longrightarrow>
   s = takeWhile (\<lambda>x. x \<noteq> c) s @ c # tl (dropWhile (\<lambda>x. x \<noteq> c) s)"
  by (induction s) auto

lemma takeWhile_stop: "\<not> P c \<Longrightarrow> takeWhile P (s @ c # t) = takeWhile P s"
  by (induction s) auto

lemma takeWhile_no: "c \<notin> set s \<Longrightarrow> takeWhile (\<lambda>x. x \<noteq> c) s = s"
  by (induction s) auto

lemma dropWhile_no: "c \<notin> set s \<Longrightarrow> dropWhile (\<lambda>x. x \<noteq> c) (s @ t) = dropWhile (\<lambda>x. x \<noteq> c) t"
  by (induction s) auto

lemma dropWhile_all: "c \<notin> set s \<Longrightarrow> dropWhile (\<lambda>x. x \<noteq> c) s = []"
  by (induction s) auto

lemma strncmp_eq_prefix: "strncmp_eq a b (length a) \<longleftrightarrow> prefix a b"
  by (auto simp: strncmp_eq_def prefix_def) (metis append_take_drop_id)

lemma strstr_Some:
  "strstr hay needle = Some i \<Longrightarrow> i \<le> length hay \<and> prefix needle (drop i hay)"
  by (induction hay needle arbitrary: i rule: strstr.induct) (auto split: if_splits)

lemma strstr_least:
  "strstr hay needle = Some i \<Longrightarrow> j < i \<Longrightarrow> \<not> prefix needle (drop j hay)"
proof (induction hay needle arbitrary: i j rule: strstr.induct)
  case (2 x xs needle)
  then show ?case by (cases j) (auto split: if_splits)
qed (auto split: if_splits)

lemma strstr_None: "strstr hay needle = None \<longleftrightarrow> \<not> sublist needle hay"
  by (induction hay needle rule: strstr.induct) (auto simp: sublist_Cons_right)

section \<open>Lemmas on numbers\<close>

lemma code_char_of_int: "0 \<le> n \<Longrightarrow> n < 256 \<Longrightarrow> code (char_of n) = n"
  by (simp add: code_def)

lemma code_char_of_nat: "n < 256 \<Longrightarrow> code (char_of n) = int n"
proof -
  assume "n < 256"
  then have "of_char (char_of n) = n" by simp
  then show ?thesis unfolding code_def by (metis of_nat_of_char)
qed

lemma code_range: "0 \<le> code c" "code c < 256"
  unfolding code_def
proof -
  have "(of_char c :: int) = int (of_char c)" by (metis of_nat_of_char)
  then show "(0::int) \<le> of_char c" by simp
  have "(of_char c :: nat) < 256" by simp
  then show "of_char c < (256::int)" by (metis of_nat_less_numeral_iff of_nat_of_char)
qed

lemma code_inject [simp]: "code c = code d \<longleftrightarrow> c = d"
  by (simp add: code_def)

lemma code_NUL [simp]: "code NUL = 0"
  by (simp add: code_def)

lemma isdigit_dec [simp]: "n < 10 \<Longrightarrow> isdigit (char_of (48 + n :: nat))"
  by (simp add: isdigit_def code_char_of_nat)

lemma digits_val_append:
  "\<forall>c \<in> set xs. isdigit c \<Longrightarrow> digits_val acc (xs @ ys) = digits_val (digits_val acc xs) ys"
  by (induction xs arbitrary: acc) auto

lemma dec_nat_digits: "\<forall>c \<in> set (dec_nat n). isdigit c"
proof (induction n rule: dec_nat.induct)
  case (1 n)
  then show ?case by (subst dec_nat.simps) auto
qed

lemma dec_nat_not_Nil [simp]: "dec_nat n \<noteq> []"
  by (subst dec_nat.simps) simp

lemma digits_val_dec_nat: "digits_val 0 (dec_nat n) = int n"
proof (induction n rule: dec_nat.induct)
  case (1 n)
  show ?case
  proof (cases "n < 10")
    case True
    then show ?thesis by (subst dec_nat.simps) (simp add: code_char_of_nat)
  next
    case False
    then have "digits_val 0 (dec_nat n) =
        digits_val (digits_val 0 (dec_nat (n div 10))) [char_of (48 + n mod 10)]"
      by (subst dec_nat.simps) (simp add: digits_val_append [OF dec_nat_digits])
    also have "\<dots> = 10 * int (n div 10) + int (n mod 10)"
      using False 1 by (simp add: code_char_of_nat)
    also have "\<dots> = int n" by presburger
    finally show ?thesis .
  qed
qed

lemma isdigit_not_space: "isdigit c \<Longrightarrow> \<not> isspace c"
  by (auto simp: isdigit_def isspace_def)

lemma isdigit_not_sign: "isdigit c \<Longrightarrow> c \<noteq> CHR ''-'' \<and> c \<noteq> CHR ''+''"
  by (auto simp: isdigit_def code_def)

lemma dec_nat_Cons:
  obtains c u where "dec_nat n = c # u" "isdigit c"
  using dec_nat_digits [of n] dec_nat_not_Nil [of n] by (cases "dec_nat n") auto

lemma strtol10_dec:
  assumes "- (2 ^ 63) \<le> n" "n < 2 ^ 63"
  shows "strtol10 (dec n) = n"
proof (cases "n < 0")
  case True
  have "\<not> isspace (CHR ''-'')" by (simp add: isspace_def code_def)
  then show ?thesis using True assms by (simp add: strtol10_def dec_def digits_val_dec_nat)
next
  case False
  obtain c u where cu: "dec_nat (nat n) = c # u" "isdigit c" by (rule dec_nat_Cons)
  have "digits_val 0 (c # u) = n" using False digits_val_dec_nat [of "nat n"] cu by simp
  then show ?thesis
    using False assms cu isdigit_not_space [OF cu(2)] isdigit_not_sign [OF cu(2)]
    by (simp add: strtol10_def dec_def del: digits_val.simps)
qed

lemma atoi_dec:
  assumes "- (2 ^ 31) \<le> n" "n < 2 ^ 31"
  shows "atoi (dec n) = n"
proof -
  have "strtol10 (dec n) = n" using assms by (intro strtol10_dec) auto
  moreover have "signed_take_bit 31 n = n"
    using assms by (simp add: signed_take_bit_int_eq_self)
  ultimately show ?thesis by (simp add: atoi_def)
qed

lemma atoi_range: "- (2 ^ 31) \<le> atoi s" "atoi s < 2 ^ 31"
  unfolding atoi_def
  by (rule signed_take_bit_int_greater_eq_minus_exp, rule signed_take_bit_int_less_exp)

lemma toupper_NUL [simp]: "toupper c = NUL \<longleftrightarrow> c = NUL"
proof
  assume *: "toupper c = NUL"
  show "c = NUL"
  proof (cases "islower c")
    case True
    then have "code (toupper c) = code c - 32"
      by (simp add: toupper_def code_char_of_int islower_def)
    with * True show ?thesis by (simp add: islower_def)
  qed (use * in \<open>simp add: toupper_def\<close>)
qed (simp add: toupper_def islower_def)

lemma tolower_NUL [simp]: "tolower c = NUL \<longleftrightarrow> c = NUL"
proof
  assume *: "tolower c = NUL"
  show "c = NUL"
  proof (cases "isupper c")
    case True
    then have "code (tolower c) = code c + 32"
      by (simp add: tolower_def code_char_of_int isupper_def)
    with * True show ?thesis by (simp add: isupper_def)
  qed (use * in \<open>simp add: tolower_def\<close>)
qed (simp add: tolower_def isupper_def)

lemma toupper_islower: "\<not> islower (toupper c)"
  by (cases "islower c") (auto simp: toupper_def islower_def code_char_of_int)

lemma toupper_idem [simp]: "toupper (toupper c) = toupper c"
  using toupper_islower [of c] by (simp add: toupper_def [of "toupper c"])

lemma tolower_isupper: "\<not> isupper (tolower c)"
  by (cases "isupper c") (auto simp: tolower_def isupper_def code_char_of_int)

lemma tolower_idem [simp]: "tolower (tolower c) = tolower c"
  using tolower_isupper [of c] by (simp add: tolower_def [of "tolower c"])

lemma NUL_dec: "NUL \<notin> set (dec n)"
proof -
  have "NUL \<notin> set (dec_nat k)" for k using dec_nat_digits [of k] by (auto simp: isdigit_def)
  then show ?thesis by (simp add: dec_def)
qed

end
