(* ===== verification/Frames.thy ===== *)
theory Frames
  imports Prelude
begin

text \<open>
  The request frames of \<open>main.c\<close>: \<open>RFRAME\<close>, the free pool and the request queue, both singly
  linked through the same \<open>next\<close> field, with \<open>get_frame\<close>, \<open>release_frame\<close>,
  \<open>enqueue_frame\<close>, the dequeue of \<open>dispatcher\<close>, and \<open>clear_queues\<close>. The heap of frames is a
  list indexed by address; a freed cell is \<open>None\<close>; every pointer access is checked. Address 0
  is the static \<open>one_frame\<close> of the single-threaded mode. The locale \<open>frame_manager\<close> is the
  contract the server relies on: a queue, a pool and a set of owned frames that never overlap.
\<close>

section \<open>State\<close>

record rframe =
  fr_sock :: int
  fr_ipaddr :: string
  fr_rport :: int
  fr_count :: nat
  fr_next :: "nat option"

type_synonym fheap = "rframe option list"

record frames =
  heap :: fheap
  req_pool :: "nat option"
  req_queue :: "nat option"
  req_tail :: "nat option"
  threading :: bool

definition one_frame :: nat where
  "one_frame = 0"

definition zero_frame :: rframe where
  "zero_frame = \<lparr>fr_sock = 0, fr_ipaddr = [], fr_rport = 0, fr_count = 0, fr_next = None\<rparr>"

definition init_frames :: "bool \<Rightarrow> frames" where
  "init_frames thr =
     \<lparr>heap = [Some zero_frame], req_pool = None, req_queue = None, req_tail = None, threading = thr\<rparr>"

definition deref :: "fheap \<Rightarrow> nat \<Rightarrow> rframe res" where
  "deref h a =
     (if a < length h then case h ! a of None \<Rightarrow> Inl BadAccess | Some f \<Rightarrow> Inr f else Inl BadAccess)"

section \<open>Operations\<close>

text \<open>\<open>junk\<close> is the content of a cell that \<open>malloc\<close> returns.\<close>

definition get_frame :: "rframe \<Rightarrow> frames \<Rightarrow> (nat \<times> frames) res" where
  "get_frame junk s =
     (if \<not> threading s then Inr (one_frame, s)
      else case req_pool s of
             None \<Rightarrow> Inr (length (heap s), s\<lparr>heap := heap s @ [Some junk]\<rparr>)
           | Some a \<Rightarrow> bindR (deref (heap s) a) (\<lambda>f. Inr (a, s\<lparr>req_pool := fr_next f\<rparr>)))"

definition release_frame :: "frames \<Rightarrow> nat \<Rightarrow> frames res" where
  "release_frame s a =
     (if \<not> threading s then Inr s
      else bindR (deref (heap s) a) (\<lambda>f.
        Inr (s\<lparr>heap := (heap s)[a := Some (f\<lparr>fr_next := req_pool s\<rparr>)], req_pool := Some a\<rparr>)))"

text \<open>\<open>enqueue_frame\<close> also returns \<open>need_sig\<close>: whether every dispatcher is signalled.\<close>

definition enqueue_frame :: "frames \<Rightarrow> nat \<Rightarrow> (frames \<times> bool) res" where
  "enqueue_frame s a =
     bindR (deref (heap s) a) (\<lambda>f.
       let h1 = (heap s)[a := Some (f\<lparr>fr_next := None\<rparr>)];
           need_sig = (req_queue s = None)
       in if need_sig
          then Inr (s\<lparr>heap := h1, req_queue := Some a, req_tail := Some a\<rparr>, need_sig)
          else case req_tail s of
                 None \<Rightarrow> Inl NullDeref
               | Some t \<Rightarrow> bindR (deref h1 t) (\<lambda>g.
                   Inr (s\<lparr>heap := h1[t := Some (g\<lparr>fr_next := Some a\<rparr>)], req_tail := Some a\<rparr>, need_sig)))"

definition dequeue_frame :: "frames \<Rightarrow> (nat option \<times> frames) res" where
  "dequeue_frame s =
     (case req_queue s of
        None \<Rightarrow> Inr (None, s)
      | Some a \<Rightarrow> bindR (deref (heap s) a) (\<lambda>f. Inr (Some a, s\<lparr>req_queue := fr_next f\<rparr>)))"

function free_chain :: "fheap \<Rightarrow> nat option \<Rightarrow> fheap res" where
  "free_chain h None = Inr h"
| "free_chain h (Some a) = bindR (deref h a) (\<lambda>f. free_chain (h[a := None]) (fr_next f))"
  by pat_completeness auto

lemma free_cell_shrinks:
  "deref h a = Inr f \<Longrightarrow>
   length (filter (\<lambda>x. x \<noteq> None) (h[a := None])) < length (filter (\<lambda>x. x \<noteq> None) h)"
proof -
  assume "deref h a = Inr f"
  then have a: "a < length h" "h ! a = Some f" by (auto simp: deref_def split: if_splits option.splits)
  have "h = take a h @ h ! a # drop (Suc a) h" using a(1) by (simp add: id_take_nth_drop)
  then have "filter (\<lambda>x. x \<noteq> None) h =
      filter (\<lambda>x. x \<noteq> None) (take a h) @ h ! a # filter (\<lambda>x. x \<noteq> None) (drop (Suc a) h)"
    using a(2) by (metis (mono_tags, lifting) filter.simps(2) filter_append option.distinct(1))
  then show ?thesis using a(1) by (simp add: upd_conv_take_nth_drop)
qed

termination free_chain
  by (relation "measure (\<lambda>(h, p). length (filter (\<lambda>x. x \<noteq> None) h))") (auto dest: free_cell_shrinks)

definition clear_queues :: "frames \<Rightarrow> frames res" where
  "clear_queues s =
     bindR (free_chain (heap s) (req_queue s)) (\<lambda>h.
     bindR (free_chain h (req_pool s)) (\<lambda>h'.
       Inr (s\<lparr>heap := h', req_queue := None, req_pool := None\<rparr>)))"

section \<open>Chains\<close>

text \<open>\<open>chain h p as\<close>: following \<open>next\<close> from \<open>p\<close> visits exactly the live cells \<open>as\<close>.\<close>

fun chain :: "fheap \<Rightarrow> nat option \<Rightarrow> nat list \<Rightarrow> bool" where
  "chain h p [] \<longleftrightarrow> p = None"
| "chain h p (a # as) \<longleftrightarrow>
     p = Some a \<and> (case deref h a of Inl _ \<Rightarrow> False | Inr f \<Rightarrow> chain h (fr_next f) as)"

definition live :: "fheap \<Rightarrow> nat \<Rightarrow> bool" where
  "live h a \<longleftrightarrow> a < length h \<and> h ! a \<noteq> None"

text \<open>
  The view of a state as a queue, a pool and a set of frames owned by running code: the two
  chains and the owned set are disjoint, all their frames are live, the static frame is in none
  of them, and the tail pointer is the last frame of a non-empty queue.
\<close>

definition view :: "frames \<Rightarrow> nat list \<Rightarrow> nat list \<Rightarrow> nat set \<Rightarrow> bool" where
  "view s qs ps own \<longleftrightarrow>
     threading s \<and> chain (heap s) (req_queue s) qs \<and> chain (heap s) (req_pool s) ps \<and>
     distinct (qs @ ps) \<and> own \<inter> set (qs @ ps) = {} \<and> (\<forall>a \<in> own. live (heap s) a) \<and>
     live (heap s) one_frame \<and> one_frame \<notin> own \<union> set (qs @ ps) \<and>
     (qs \<noteq> [] \<longrightarrow> req_tail s = Some (last qs))"

lemma deref_live: "live h a \<Longrightarrow> \<exists>f. deref h a = Inr f \<and> h ! a = Some f \<and> a < length h"
  by (auto simp: live_def deref_def)

lemma deref_Inr: "deref h a = Inr f \<longleftrightarrow> a < length h \<and> h ! a = Some f"
  by (auto simp: deref_def split: option.splits)

lemma deref_update [simp]:
  "deref (h[a := Some f]) b = (if a = b \<and> a < length h then Inr f else deref h b)"
  by (auto simp: deref_def nth_list_update)

lemma deref_append: "a < length h \<Longrightarrow> deref (h @ k) a = deref h a"
  by (simp add: deref_def nth_append)

lemma live_update [simp]: "live (h[a := Some f]) b \<longleftrightarrow> live h b \<or> (a = b \<and> a < length h)"
  by (cases "a = b") (auto simp: live_def)

lemma live_append [simp]: "live (h @ [Some f]) a \<longleftrightarrow> live h a \<or> a = length h"
  by (auto simp: live_def nth_append)

lemma chain_live: "chain h p as \<Longrightarrow> a \<in> set as \<Longrightarrow> live h a"
  by (induction h p as rule: chain.induct) (auto simp: live_def deref_Inr split: sum.splits)

lemma chain_update [simp]: "a \<notin> set as \<Longrightarrow> chain (h[a := x]) p as = chain h p as"
  by (induction as arbitrary: p) (auto simp: deref_def nth_list_update split: sum.splits)

lemma chain_Cons:
  "chain h p (a # as) \<longleftrightarrow>
     p = Some a \<and> (\<exists>f. a < length h \<and> h ! a = Some f \<and> chain h (fr_next f) as)"
  by (auto simp: deref_def split: option.splits)

lemma chain_append_heap: "chain h p as \<Longrightarrow> chain (h @ k) p as"
  by (induction as arbitrary: p) (auto simp: chain_Cons nth_append simp del: chain.simps(2))

lemma chain_snoc:
  assumes "chain h p (as @ [t])" "t \<notin> set as" "a \<notin> set (as @ [t])" "deref h t = Inr g" "live h a"
  shows "chain ((h[a := Some (f\<lparr>fr_next := None\<rparr>)])[t := Some (g\<lparr>fr_next := Some a\<rparr>)]) p (as @ [t, a])"
  using assms
proof (induction as arbitrary: p)
  case Nil
  then show ?case by (auto simp: deref_Inr live_def)
next
  case (Cons b as)
  then show ?case by (auto split: sum.splits)
qed

section \<open>The contract\<close>

locale frame_manager =
  fixes get :: "'s \<Rightarrow> ('a \<times> 's) res"
    and put :: "'s \<Rightarrow> 'a \<Rightarrow> 's res"
    and enq :: "'s \<Rightarrow> 'a \<Rightarrow> ('s \<times> bool) res"
    and deq :: "'s \<Rightarrow> ('a option \<times> 's) res"
    and repr :: "'s \<Rightarrow> 'a list \<Rightarrow> 'a list \<Rightarrow> 'a set \<Rightarrow> bool"
  assumes disjoint: "repr s qs ps own \<Longrightarrow> distinct (qs @ ps) \<and> own \<inter> set (qs @ ps) = {}"
    and get_ok: "repr s qs ps own \<Longrightarrow>
      \<exists>a s'. get s = Inr (a, s') \<and> a \<notin> own \<union> set qs \<and> (ps \<noteq> [] \<longrightarrow> a = hd ps) \<and>
        repr s' qs (tl ps) (insert a own)"
    and put_ok: "repr s qs ps own \<Longrightarrow> a \<in> own \<Longrightarrow>
      \<exists>s'. put s a = Inr s' \<and> repr s' qs (a # ps) (own - {a})"
    and enq_ok: "repr s qs ps own \<Longrightarrow> a \<in> own \<Longrightarrow>
      \<exists>s'. enq s a = Inr (s', qs = []) \<and> repr s' (qs @ [a]) ps (own - {a})"
    and deq_empty: "repr s [] ps own \<Longrightarrow> deq s = Inr (None, s)"
    and deq_ok: "repr s (a # qs) ps own \<Longrightarrow>
      \<exists>s'. deq s = Inr (Some a, s') \<and> repr s' qs ps (insert a own)"
begin

text \<open>First in, first out: frames enqueued in order come out in that order.\<close>

fun enq_all :: "'s \<Rightarrow> 'a list \<Rightarrow> 's res" where
  "enq_all s [] = Inr s"
| "enq_all s (a # as) = bindR (enq s a) (\<lambda>r. enq_all (fst r) as)"

fun deq_all :: "nat \<Rightarrow> 's \<Rightarrow> ('a option list \<times> 's) res" where
  "deq_all 0 s = Inr ([], s)"
| "deq_all (Suc n) s = bindR (deq s) (\<lambda>(a, s'). bindR (deq_all n s') (\<lambda>(as, s''). Inr (a # as, s'')))"

lemma enq_all_ok:
  "repr s qs ps own \<Longrightarrow> set as \<subseteq> own \<Longrightarrow> distinct as \<Longrightarrow>
   \<exists>s'. enq_all s as = Inr s' \<and> repr s' (qs @ as) ps (own - set as)"
proof (induction as arbitrary: s qs own)
  case (Cons a as)
  then obtain s1 where s1: "enq s a = Inr (s1, qs = [])" "repr s1 (qs @ [a]) ps (own - {a})"
    using enq_ok [of s qs ps own a] by auto
  from Cons.IH [OF s1(2)] Cons.prems obtain s' where
    "enq_all s1 as = Inr s'" "repr s' ((qs @ [a]) @ as) ps (own - {a} - set as)" by auto
  moreover have "own - {a} - set as = own - set (a # as)" by auto
  ultimately show ?case using s1(1) by auto
qed auto

lemma deq_all_ok:
  "repr s (as @ qs) ps own \<Longrightarrow>
   \<exists>s'. deq_all (length as) s = Inr (map Some as, s') \<and> repr s' qs ps (own \<union> set as)"
proof (induction as arbitrary: s own)
  case (Cons a as)
  then obtain s1 where s1: "deq s = Inr (Some a, s1)" "repr s1 (as @ qs) ps (insert a own)"
    using deq_ok [of s a "as @ qs" ps own] by auto
  from Cons.IH [OF s1(2)] show ?case using s1(1) by auto
qed auto

lemma fifo:
  assumes "repr s [] ps own" "set as \<subseteq> own" "distinct as"
  shows "\<exists>s1 s2. enq_all s as = Inr s1 \<and> deq_all (length as) s1 = Inr (map Some as, s2) \<and>
    repr s2 [] ps own"
proof -
  obtain s1 where s1: "enq_all s as = Inr s1" "repr s1 as ps (own - set as)"
    using enq_all_ok [OF assms] by auto
  have "own - set as \<union> set as = own" using assms(2) by auto
  then show ?thesis using deq_all_ok [of s1 as "[]" ps "own - set as"] s1 by auto
qed

end

section \<open>The frame operations meet it\<close>

lemma view_get:
  assumes "view s qs ps own"
  shows "\<exists>a s'. get_frame junk s = Inr (a, s') \<and> a \<notin> own \<union> set qs \<and> (ps \<noteq> [] \<longrightarrow> a = hd ps) \<and>
    view s' qs (tl ps) (insert a own)"
proof (cases ps)
  case Nil
  have "\<not> live (heap s) (length (heap s))" by (simp add: live_def)
  then have "length (heap s) \<notin> own \<union> set qs" "one_frame \<noteq> length (heap s)"
    using assms chain_live [of "heap s" "req_queue s" qs] by (auto simp: view_def)
  then show ?thesis using assms Nil by (auto simp: view_def get_frame_def chain_append_heap)
next
  case (Cons a ps')
  then show ?thesis
    using assms chain_live [of "heap s" "req_pool s" ps]
    by (auto simp: view_def get_frame_def split: sum.splits)
qed

lemma view_release:
  assumes "view s qs ps own" "a \<in> own"
  shows "\<exists>s'. release_frame s a = Inr s' \<and> view s' qs (a # ps) (own - {a})"
proof -
  obtain f where "deref (heap s) a = Inr f" "a < length (heap s)"
    using assms deref_live [of "heap s" a] by (auto simp: view_def)
  moreover have "a \<notin> set qs" "a \<notin> set ps" using assms by (auto simp: view_def)
  ultimately show ?thesis using assms by (auto simp: view_def release_frame_def)
qed

lemma view_enqueue:
  assumes "view s qs ps own" "a \<in> own"
  shows "\<exists>s'. enqueue_frame s a = Inr (s', qs = []) \<and> view s' (qs @ [a]) ps (own - {a})"
proof -
  obtain f where f: "deref (heap s) a = Inr f" "a < length (heap s)"
    using assms deref_live [of "heap s" a] by (auto simp: view_def)
  have a: "a \<notin> set qs" "a \<notin> set ps" using assms by (auto simp: view_def)
  show ?thesis
  proof (cases qs rule: rev_cases)
    case Nil
    then show ?thesis using assms f a by (auto simp: view_def enqueue_frame_def)
  next
    case (snoc as t)
    then obtain g where g: "deref (heap s) t = Inr g" "t < length (heap s)"
      using assms chain_live [of "heap s" "req_queue s" qs t] deref_live [of "heap s" t]
      by (auto simp: view_def)
    have ne: "t \<noteq> a" "a \<notin> set as" "t \<notin> set as" "t \<notin> set ps" "a \<notin> set ps"
      using assms snoc by (auto simp: view_def)
    have "chain ((heap s)[a := Some (f\<lparr>fr_next := None\<rparr>), t := Some (g\<lparr>fr_next := Some a\<rparr>)])
        (req_queue s) (as @ [t, a])"
      by (rule chain_snoc) (use assms snoc g ne in \<open>auto simp: view_def\<close>)
    moreover have "req_queue s \<noteq> None" using assms snoc by (cases as) (auto simp: view_def)
    ultimately show ?thesis
      using assms f g ne snoc by (auto simp: view_def enqueue_frame_def Let_def)
  qed
qed

lemma view_dequeue:
  assumes "view s (a # qs) ps own"
  shows "\<exists>s'. dequeue_frame s = Inr (Some a, s') \<and> view s' qs ps (insert a own)"
  using assms chain_live [of "heap s" "req_queue s" "a # qs"]
  by (auto simp: view_def dequeue_frame_def split: sum.splits)

interpretation fm: frame_manager "get_frame junk" release_frame enqueue_frame dequeue_frame view
  for junk :: rframe
proof
  show "distinct (qs @ ps) \<and> own \<inter> set (qs @ ps) = {}" if "view s qs ps own" for s qs ps own
    using that by (simp add: view_def)
  show "dequeue_frame s = Inr (None, s)" if "view s [] ps own" for s ps own
    using that by (simp add: view_def dequeue_frame_def)
qed (rule view_get view_release view_enqueue view_dequeue; assumption)+

lemma free_chain_ok:
  "chain h p as \<Longrightarrow> distinct as \<Longrightarrow> free_chain h p = Inr (fold (\<lambda>a h. h[a := None]) as h)"
proof (induction as arbitrary: h p)
  case (Cons a as)
  then obtain f where f: "p = Some a" "deref h a = Inr f" "chain h (fr_next f) as"
    by (auto split: sum.splits)
  then have "chain (h[a := None]) (fr_next f) as" using Cons.prems by simp
  then show ?case using Cons f by simp
qed simp

lemma fold_free_nth:
  "a < length h \<Longrightarrow> fold (\<lambda>a h. h[a := None]) as h ! a = (if a \<in> set as then None else h ! a)"
  by (induction as arbitrary: h) (auto simp: nth_list_update)

lemma chain_fold_free: "set as \<inter> set bs = {} \<Longrightarrow> chain (fold (\<lambda>a h. h[a := None]) as h) p bs = chain h p bs"
  by (induction as arbitrary: h) auto

lemma length_fold_free [simp]: "length (fold (\<lambda>a h. h[a := None]) as h) = length h"
  by (induction as arbitrary: h) auto

section \<open>Properties\<close>

text \<open>
  C19: the four frame operations on the pointer structure implement the abstract queue, pool and
  owned set: in every state with a view, \<open>get_frame\<close> hands out a frame that nobody holds,
  \<open>release_frame\<close> pushes an owned frame on the pool, \<open>enqueue_frame\<close> appends an owned frame to
  the queue and reports whether it was empty, and the dequeue of the dispatcher removes the
  oldest frame; none of them faults and each result again has a view.
\<close>

theorem frame_operations_refine:
  assumes "view s qs ps own"
  shows "(\<exists>a s'. get_frame junk s = Inr (a, s') \<and> a \<notin> own \<union> set qs \<and> view s' qs (tl ps) (insert a own)) \<and>
    (\<forall>a \<in> own. \<exists>s'. release_frame s a = Inr s' \<and> view s' qs (a # ps) (own - {a})) \<and>
    (\<forall>a \<in> own. \<exists>s'. enqueue_frame s a = Inr (s', qs = []) \<and> view s' (qs @ [a]) ps (own - {a})) \<and>
    (\<exists>s'. dequeue_frame s = Inr (if qs = [] then None else Some (hd qs), s') \<and>
       view s' (tl qs) ps (own \<union> set (take 1 qs)))"
proof (intro conjI ballI)
  show "\<exists>s'. dequeue_frame s = Inr (if qs = [] then None else Some (hd qs), s') \<and>
      view s' (tl qs) ps (own \<union> set (take 1 qs))"
    using assms fm.deq_empty fm.deq_ok by (cases qs) force+
qed (use assms fm.get_ok [OF assms, of junk] fm.put_ok fm.enq_ok in auto)

theorem frame_operations_refine_witness:
  "\<exists>s. view s [1] [] {2} \<and>
     (\<exists>s'. enqueue_frame s 2 = Inr (s', False) \<and> view s' [1, 2] [] {}) \<and>
     (\<exists>s'. dequeue_frame s = Inr (Some 1, s') \<and> view s' [] [] {2, 1})"
proof -
  let ?s = "\<lparr>heap = [Some zero_frame, Some zero_frame, Some zero_frame], req_pool = None,
    req_queue = Some 1, req_tail = Some 1, threading = True\<rparr>"
  have "view ?s [1] [] {2}"
    by (simp add: view_def live_def deref_def zero_frame_def one_frame_def)
  from frame_operations_refine [OF this] this show ?thesis by (fastforce simp: insert_commute)
qed

text \<open>
  \<open>clear_queues\<close>, run at shutdown on any state with a view, ends, frees every queued and
  every pooled frame exactly once (a second free or a use after free would be a fault), leaves
  all other frames alone and empties both lists.
\<close>

theorem clear_queues_frees_exactly:
  assumes "view s qs ps own"
  shows "\<exists>s'. clear_queues s = Inr s' \<and> req_queue s' = None \<and> req_pool s' = None \<and>
    (\<forall>a < length (heap s). heap s' ! a = (if a \<in> set qs \<union> set ps then None else heap s ! a))"
proof -
  let ?free = "\<lambda>as h. fold (\<lambda>a h. h[a := None]) as h"
  have v: "chain (heap s) (req_queue s) qs" "chain (heap s) (req_pool s) ps" "distinct qs" "distinct ps"
    "set qs \<inter> set ps = {}"
    using assms by (auto simp: view_def)
  have "free_chain (heap s) (req_queue s) = Inr (?free qs (heap s))"
    by (rule free_chain_ok [OF v(1,3)])
  moreover have "free_chain (?free qs (heap s)) (req_pool s) = Inr (?free ps (?free qs (heap s)))"
    by (rule free_chain_ok) (use v in \<open>auto simp: chain_fold_free\<close>)
  ultimately show ?thesis by (auto simp: clear_queues_def fold_free_nth)
qed

theorem clear_queues_frees_exactly_witness:
  "\<exists>s s'. view s [1] [2] {} \<and> clear_queues s = Inr s' \<and> req_queue s' = None \<and> heap s' ! 2 = None"
proof -
  let ?s = "\<lparr>heap = [Some zero_frame, Some zero_frame, Some zero_frame], req_pool = Some 2,
    req_queue = Some 1, req_tail = Some 1, threading = True\<rparr>"
  have v: "view ?s [1] [2] {}"
    by (simp add: view_def live_def deref_def zero_frame_def one_frame_def)
  from clear_queues_frees_exactly [OF v] obtain s' where
    "clear_queues ?s = Inr s'" "req_queue s' = None" "heap s' ! 2 = None" by auto
  with v show ?thesis by blast
qed

end
