(* ===== verification/Scm.thy ===== *)
theory Scm
  imports Complex_Main Prelude
begin

text \<open>
  The Guile values (\<open>SCM\<close>) that cross the C code, and the accessors the sources use on them.
  A C type test (\<open>scm_is_string\<close> and the like) is a constructor test; \<open>SCM_CAR\<close> and
  \<open>SCM_CDR\<close> are unchecked macros, so on a non-pair they are \<open>BadAccess\<close>; the conversion to a C
  string raises an exception on a non-string and on a string with an embedded NUL.
  Symbols are interned, so \<open>eq?\<close> on a symbol key is equality of its name. An association list
  whose keys are symbols is a HOL list of pairs, newest pair first.
\<close>

section \<open>Values\<close>

text \<open>An IEEE double: the rational it denotes, an infinity with its sign, or not a number.\<close>

datatype real64 = Fin rat | Inf bool | NaN

datatype scm =
    SEol
  | SUnspec
  | SBool bool
  | SInt int
  | SReal real64
  | SStr string
  | SSym string
  | SCons scm scm
  | SProc nat
  | SSmob string nat

type_synonym alist = "(string \<times> scm) list"

section \<open>Accessors\<close>

fun scm_car :: "scm \<Rightarrow> scm res" where
  "scm_car (SCons a d) = Inr a"
| "scm_car _ = Inl BadAccess"

fun scm_cdr :: "scm \<Rightarrow> scm res" where
  "scm_cdr (SCons a d) = Inr d"
| "scm_cdr _ = Inl BadAccess"

definition wrong_type :: cerror where
  "wrong_type = Throw ''wrong-type-arg''"

definition misc_error :: cerror where
  "misc_error = Throw ''misc-error''"

fun scm_to_cstring :: "scm \<Rightarrow> string res" where
  "scm_to_cstring (SStr s) = (if NUL \<in> set s then Inl misc_error else Inr s)"
| "scm_to_cstring _ = Inl wrong_type"

fun scm_of_list :: "scm list \<Rightarrow> scm" where
  "scm_of_list [] = SEol"
| "scm_of_list (x # xs) = SCons x (scm_of_list xs)"

fun list_of_scm :: "scm \<Rightarrow> scm list option" where
  "list_of_scm SEol = Some []"
| "list_of_scm (SCons a d) = map_option ((#) a) (list_of_scm d)"
| "list_of_scm _ = None"

definition scm_of_alist :: "alist \<Rightarrow> scm" where
  "scm_of_alist al = scm_of_list (map (\<lambda>(k, v). SCons (SSym k) v) al)"

definition acons :: "string \<Rightarrow> scm \<Rightarrow> alist \<Rightarrow> alist" where
  "acons k v al = (k, v) # al"

definition assq_ref :: "alist \<Rightarrow> string \<Rightarrow> scm" where
  "assq_ref al k = (case map_of al k of None \<Rightarrow> SBool False | Some v \<Rightarrow> v)"

text \<open>
  \<open>assq-ref\<close> on a value that is an association list as a Scheme list: elements that are not
  pairs are passed over, and the walk ends at the first non-pair tail.
\<close>

fun scm_assq_ref :: "scm \<Rightarrow> string \<Rightarrow> scm" where
  "scm_assq_ref (SCons (SCons k v) d) key = (if k = SSym key then v else scm_assq_ref d key)"
| "scm_assq_ref (SCons _ d) key = scm_assq_ref d key"
| "scm_assq_ref _ key = SBool False"

text \<open>\<open>scm_to_int\<close> on an exact integer, and \<open>scm_list_p\<close>.\<close>

definition out_of_range :: cerror where
  "out_of_range = Throw ''out-of-range''"

definition scm_to_int :: "int \<Rightarrow> int res" where
  "scm_to_int n = (if - (2 ^ 31) \<le> n \<and> n < 2 ^ 31 then Inr n else Inl out_of_range)"

fun is_list :: "scm \<Rightarrow> bool" where
  "is_list SEol = True"
| "is_list (SCons a d) = is_list d"
| "is_list _ = False"

section \<open>Lemmas\<close>

lemma is_list_scm_of_list [simp]: "is_list (scm_of_list xs)"
  by (induction xs) auto

lemma scm_assq_ref_alist: "scm_assq_ref (scm_of_alist al) k = assq_ref al k"
  by (induction al) (auto simp: scm_of_alist_def assq_ref_def)

lemma list_of_scm_of_list [simp]: "list_of_scm (scm_of_list xs) = Some xs"
  by (induction xs) auto

lemma list_of_scm_Some: "list_of_scm v = Some xs \<Longrightarrow> v = scm_of_list xs"
  by (induction v arbitrary: xs rule: list_of_scm.induct) auto

lemma scm_of_list_inject [simp]: "scm_of_list xs = scm_of_list ys \<longleftrightarrow> xs = ys"
  by (metis list_of_scm_of_list option.inject)

lemma assq_ref_Nil [simp]: "assq_ref [] k = SBool False"
  by (simp add: assq_ref_def)

lemma assq_ref_acons [simp]:
  "assq_ref (acons k v al) k' = (if k = k' then v else assq_ref al k')"
  by (simp add: assq_ref_def acons_def)

lemma scm_to_cstring_Inr: "scm_to_cstring v = Inr s \<longleftrightarrow> v = SStr s \<and> NUL \<notin> set s"
  by (cases v) auto

lemma scm_car_Inr: "scm_car v = Inr a \<longleftrightarrow> (\<exists>d. v = SCons a d)"
  by (cases v) auto

lemma scm_cdr_Inr: "scm_cdr v = Inr d \<longleftrightarrow> (\<exists>a. v = SCons a d)"
  by (cases v) auto

lemmas scm_inverts = scm_to_cstring_Inr scm_car_Inr scm_cdr_Inr

end
