(* ===== verification/Query.thy ===== *)
theory Query
  imports Scm
begin

text \<open>
  The query-string decoder of \<open>main.c\<close>: \<open>decode_hex\<close>, \<open>decode_query\<close> and \<open>parse_query\<close>. All
  three work in place on a NUL-terminated buffer through raw pointers, and so does the model:
  pointers are offsets into a \<^typ>\<open>buf\<close>, every read and write is checked. The reference
  decoder \<open>url_decode\<close> and the reference parser \<open>query_pairs\<close> are functions of the string
  alone; the theorems say when the in-place code computes them, and what it does when an escape
  is cut short.
\<close>

section \<open>The code\<close>

text \<open>The value of one digit and of a pair of digits, with the C arithmetic on \<open>int\<close>.\<close>

definition hexval :: "char \<Rightarrow> int" where
  "hexval c = (if isalpha c then code (toupper c) - 65 + 10 else code c - 48)"

definition hexchar :: "char \<Rightarrow> char \<Rightarrow> char" where
  "hexchar c0 c1 = char_of (push_bit 4 (hexval c0) OR hexval c1)"

definition decode_hex :: "buf \<Rightarrow> nat \<Rightarrow> char res" where
  "decode_hex b i = bindR (rd b i) (\<lambda>c0. bindR (rd b (Suc i)) (\<lambda>c1. Inr (hexchar c0 c1)))"

text \<open>The loop of \<open>decode_query\<close> at the pointers \<open>get\<close> and \<open>put\<close>.\<close>

function decode_loop :: "buf \<Rightarrow> nat \<Rightarrow> nat \<Rightarrow> buf res" where
  "decode_loop b get put =
     bindR (rd b get) (\<lambda>c.
       if c = NUL then wr b put NUL
       else if c = CHR ''+'' then bindR (wr b put (CHR '' '')) (\<lambda>b'. decode_loop b' (get + 1) (put + 1))
       else bindR (if c = CHR ''%'' then bindR (rd b (get + 1)) (\<lambda>d. Inr (isxdigit d)) else Inr False)
         (\<lambda>esc.
           if esc then bindR (decode_hex b (get + 1)) (\<lambda>x.
             bindR (wr b put x) (\<lambda>b'. decode_loop b' (get + 3) (put + 1)))
           else bindR (wr b put c) (\<lambda>b'. decode_loop b' (get + 1) (put + 1))))"
  by pat_completeness auto
termination
  by (relation "measure (\<lambda>(b, get, put). length b - get)")
     (auto simp: rd_def dest: wr_length split: if_splits)

declare decode_loop.simps [simp del]

definition decode_query :: "buf \<Rightarrow> nat \<Rightarrow> buf res" where
  "decode_query b i = decode_loop b i i"

lemma decode_loop_length: "decode_loop b get put = Inr b' \<Longrightarrow> length b' = length b"
proof (induction "length b - get" arbitrary: b get put rule: less_induct)
  case less
  have get: "get < length b"
    using less.prems by (subst (asm) decode_loop.simps) (auto simp: bindR_eq_Inr rd_def split: if_splits)
  have IH: "decode_loop c g p = Inr b' \<Longrightarrow> length c = length b \<Longrightarrow> get < g \<Longrightarrow> length b' = length b"
    for c g p using less.hyps [of c g p] get by simp
  from less.prems show ?case
    by (subst (asm) decode_loop.simps)
       (auto simp: bindR_eq_Inr dest!: wr_length dest: IH split: if_splits)
qed

text \<open>
  One turn of the loop of \<open>parse_query\<close> on a segment that is already cut off: cut it at its
  first equals sign, decode the value in place, cons the pair. The loop itself cuts the segment
  at the next ampersand and goes on behind it.
\<close>

definition parse_segment :: "buf \<Rightarrow> nat \<Rightarrow> alist \<Rightarrow> (alist \<times> buf) res" where
  "parse_segment b mark lst =
     bindR (bindex (CHR ''='') b mark) (\<lambda>eq.
       case eq of
         None \<Rightarrow> Inr (lst, b)
       | Some k \<Rightarrow> bindR (decode_query (b[k := NUL]) (Suc k)) (\<lambda>b2.
           Inr (acons (cstr b2 mark) (SStr (cstr b2 (Suc k))) lst, b2)))"

lemma parse_segment_length: "parse_segment b mark lst = Inr (lst', b') \<Longrightarrow> length b' = length b"
  by (auto simp: parse_segment_def decode_query_def bindR_eq_Inr dest!: decode_loop_length
           split: option.splits)

function parse_loop :: "buf \<Rightarrow> nat \<Rightarrow> alist \<Rightarrow> (alist \<times> buf) res" where
  "parse_loop b mark lst =
     bindR (bindex (CHR ''&'') b mark) (\<lambda>nx.
       case nx of
         None \<Rightarrow> parse_segment b mark lst
       | Some j \<Rightarrow> bindR (parse_segment (b[j := NUL]) mark lst) (\<lambda>r.
           parse_loop (snd r) (Suc j) (fst r)))"
  by pat_completeness auto
termination
  by (relation "measure (\<lambda>(b, mark, lst). length b - mark)")
     (auto dest!: bindex_bounds parse_segment_length)

declare parse_loop.simps [simp del]

definition parse_query :: "buf \<Rightarrow> (alist \<times> buf) res" where
  "parse_query b = parse_loop b 0 []"

text \<open>
  The accessors an application uses on a parsed query: \<open>query_value\<close>, \<open>query_value_number\<close>, with
  \<open>atof\<close> of the C library as a parameter, and \<open>query_value_boolean\<close>. A value that is not a string (an uploaded file) raises.
\<close>

definition query_value :: "alist \<Rightarrow> string \<Rightarrow> scm" where
  "query_value request key =
     (let query = assq_ref request ''query''
      in if query = SBool False then SBool False else scm_assq_ref query key)"

definition query_value_number :: "(string \<Rightarrow> real64) \<Rightarrow> alist \<Rightarrow> string \<Rightarrow> scm res" where
  "query_value_number atof request key =
     (let v = query_value request key
      in if v = SBool False then Inr (SInt 0)
         else bindR (scm_to_cstring v) (\<lambda>buf.
           Inr (if index_of (CHR ''.'') buf \<noteq> None then SReal (atof buf) else SInt (atoi buf))))"

definition truthy :: "string \<Rightarrow> bool" where
  "truthy buf =
     (case buf of
        [] \<Rightarrow> atoi buf \<noteq> 0
      | c # _ \<Rightarrow> if c = CHR ''y'' then True
                else if c = CHR ''Y'' then True
                else if c = CHR ''t'' then True
                else if c = CHR ''T'' then True
                else atoi buf \<noteq> 0)"

definition query_value_boolean :: "alist \<Rightarrow> string \<Rightarrow> scm res" where
  "query_value_boolean request key =
     (let v = query_value request key
      in if v = SBool False then Inr (SBool False)
         else bindR (scm_to_cstring v) (\<lambda>buf. Inr (SBool (truthy buf))))"

section \<open>The reference decoder\<close>

text \<open>
  \<open>escapes_complete\<close>: after a percent sign and a hexadecimal digit there is one more character.
\<close>

fun url_decode :: "string \<Rightarrow> string" where
  "url_decode [] = []"
| "url_decode (c # s) =
     (if c = CHR ''+'' then CHR '' '' # url_decode s
      else if c = CHR ''%'' then
        (case s of
           d # e # t \<Rightarrow> if isxdigit d then hexchar d e # url_decode t else c # url_decode s
         | _ \<Rightarrow> c # url_decode s)
      else c # url_decode s)"

fun escapes_complete :: "string \<Rightarrow> bool" where
  "escapes_complete [] = True"
| "escapes_complete (c # s) =
     (if c = CHR ''%'' then
        (case s of
           [] \<Rightarrow> True
         | [d] \<Rightarrow> \<not> isxdigit d
         | d # e # t \<Rightarrow> if isxdigit d then escapes_complete t else escapes_complete s)
      else escapes_complete s)"

function segments :: "char \<Rightarrow> string \<Rightarrow> string list" where
  "segments c s =
     takeWhile (\<lambda>x. x \<noteq> c) s #
       (case dropWhile (\<lambda>x. x \<noteq> c) s of [] \<Rightarrow> [] | _ # t \<Rightarrow> segments c t)"
  by pat_completeness auto
termination
  by (relation "measure (\<lambda>(c, s). length s)")
     (auto dest!: arg_cong [of _ _ length], metis Suc_le_lessD length_dropWhile_le)

declare segments.simps [simp del]

definition segment_value :: "string \<Rightarrow> string" where
  "segment_value s = tl (dropWhile (\<lambda>x. x \<noteq> CHR ''='') s)"

definition segment_pair :: "string \<Rightarrow> alist" where
  "segment_pair s =
     (if CHR ''='' \<in> set s
      then [(takeWhile (\<lambda>x. x \<noteq> CHR ''='') s,
             SStr (takeWhile (\<lambda>x. x \<noteq> NUL) (url_decode (segment_value s))))]
      else [])"

definition query_pairs :: "string \<Rightarrow> alist" where
  "query_pairs q = concat (map segment_pair (segments (CHR ''&'') q))"

definition well_escaped :: "string \<Rightarrow> bool" where
  "well_escaped q \<longleftrightarrow>
     NUL \<notin> set q \<and> list_all (\<lambda>s. escapes_complete (segment_value s)) (segments (CHR ''&'') q)"

section \<open>The in-place decoder computes the reference decoder\<close>

lemma decode_loop_NUL:
  "drop get b = NUL # post \<Longrightarrow> put \<le> get \<Longrightarrow>
   decode_loop b get put = Inr (take put b @ NUL # drop (Suc put) b)"
  using drop_eq_ConsD [of get b NUL post]
  by (subst decode_loop.simps) (simp add: upd_conv_take_nth_drop)

lemma decode_loop_write:
  assumes "put < get" "put < length b"
    and "\<And>b'. drop get b' = t \<Longrightarrow> Suc put \<le> get \<Longrightarrow>
      decode_loop b' get (Suc put) = Inr (take (Suc put) b' @ r @ drop (Suc put + length r) b')"
    and "drop get b = t"
  shows "decode_loop (b[put := x]) get (Suc put) =
      Inr (take put b @ (x # r) @ drop (put + length (x # r)) b)"
proof -
  have "drop get (b[put := x]) = t" using assms by simp
  moreover have "take (Suc put) (b[put := x]) = take put b @ [x]"
    using assms(2) by (simp add: take_Suc_conv_app_nth)
  ultimately show ?thesis using assms(1,3) by simp
qed

text \<open>One round of the loop: a plus sign, an escape, and any other character.\<close>

lemma decode_loop_plus:
  "drop get b = CHR ''+'' # t \<Longrightarrow> put \<le> get \<Longrightarrow> decode_loop b get put = decode_loop (b[put := CHR '' '']) (Suc get) (Suc put)"
  using drop_eq_ConsD [of get b "CHR ''+''" t] by (subst decode_loop.simps) simp

lemma decode_loop_escape:
  assumes "drop get b = CHR ''%'' # d # e # t" "isxdigit d" "put \<le> get"
  shows "decode_loop b get put = decode_loop (b[put := hexchar d e]) (get + 3) (Suc put)"
proof -
  note c = drop_eq_ConsD [OF assms(1)]
  note c1 = drop_eq_ConsD [OF c(3)]
  have "rd b (Suc get) = Inr d" "rd b (Suc (Suc get)) = Inr e" using rd_drop [OF c(3)] rd_drop [OF c1(3)] by simp_all
  then show ?thesis using c assms(2,3) by (subst decode_loop.simps) (simp add: decode_hex_def)
qed

lemma decode_loop_plain:
  assumes "drop get b = c # d # t" "c \<noteq> NUL" "c \<noteq> CHR ''+''" "c = CHR ''%'' \<longrightarrow> \<not> isxdigit d" "put \<le> get"
  shows "decode_loop b get put = decode_loop (b[put := c]) (Suc get) (Suc put)"
proof -
  note c = drop_eq_ConsD [OF assms(1)]
  have "rd b (Suc get) = Inr d" using rd_drop [OF c(3)] by simp
  then show ?thesis using c assms(2-5) by (subst decode_loop.simps) auto
qed

lemma url_decode_step:
  obtains (plus) "c = CHR ''+''" "url_decode (c # s) = CHR '' '' # url_decode s" "escapes_complete (c # s) = escapes_complete s"
  | (escape) d e t where "c = CHR ''%''" "s = d # e # t" "isxdigit d" "url_decode (c # s) = hexchar d e # url_decode t"
      "escapes_complete (c # s) = escapes_complete t"
  | (cut) d where "c = CHR ''%''" "s = [d]" "isxdigit d" "\<not> escapes_complete (c # s)"
  | (plain) "c \<noteq> CHR ''+''" "c = CHR ''%'' \<longrightarrow> (\<forall>d t. s = d # t \<longrightarrow> \<not> isxdigit d)" "url_decode (c # s) = c # url_decode s"
      "escapes_complete (c # s) = escapes_complete s"
proof (cases "c = CHR ''%''")
  case True
  consider "s = []" | d where "s = [d]" | d e t where "s = d # e # t" by (metis list.exhaust)
  then show thesis
  proof cases
    case 1
    then show thesis using True by (intro plain) auto
  next
    case (2 d)
    then show thesis using True by (cases "isxdigit d") (rule cut, auto, rule plain, auto)
  next
    case (3 d e t)
    show thesis
    proof (cases "isxdigit d")
      case xd: True
      then show thesis using True 3 by (intro escape [of d e t]) auto
    next
      case False
      then show thesis using True 3 by (intro plain) auto
    qed
  qed
next
  case False
  then show thesis using plus plain by (cases "c = CHR ''+''") auto
qed

lemma decode_loop_correct:
  assumes "drop get b = s @ NUL # post" "NUL \<notin> set s" "escapes_complete s" "put \<le> get"
  shows "decode_loop b get put =
    Inr (take put b @ (url_decode s @ [NUL]) @ drop (put + length (url_decode s @ [NUL])) b)"
  using assms
proof (induction "length s" arbitrary: s b get put rule: less_induct)
  case less
  have written: "decode_loop (b[put := x]) get' (Suc put) =
      Inr (take put b @ (x # url_decode u @ [NUL]) @ drop (put + length (x # url_decode u @ [NUL])) b)"
    if "drop get' b = u @ NUL # post" "get < get'" "NUL \<notin> set u" "escapes_complete u" "length u < length s" "put < length b" for x get' u
  proof (rule decode_loop_write [where t = "u @ NUL # post"])
    fix b' assume "drop get' b' = u @ NUL # post" "Suc put \<le> get'"
    then show "decode_loop b' get' (Suc put) =
        Inr (take (Suc put) b' @ (url_decode u @ [NUL]) @ drop (Suc put + length (url_decode u @ [NUL])) b')"
      using less.hyps [of u] that(3,4,5) by blast
  qed (use that less.prems in auto)
  show ?case
  proof (cases s)
    case Nil
    then show ?thesis using less.prems by (simp add: decode_loop_NUL)
  next
    case (Cons c s')
    then have d: "drop get b = c # (s' @ NUL # post)" "c \<noteq> NUL" using less.prems by auto
    note c = drop_eq_ConsD [OF d(1)]
    have put: "put < length b" using c less.prems by simp
    show ?thesis
    proof (cases rule: url_decode_step [of c s'])
      case plus
      then show ?thesis using written [OF c(3)] less.prems Cons d(1) put by (simp add: decode_loop_plus)
    next
      case (escape d e t)
      have "drop (get + 3) b = t @ NUL # post" using c(3) escape(2) drop_eq_ConsD(3) by (metis append_Cons numeral_3_eq_3 add_Suc_right add_0_right)
      then show ?thesis using written [of "get + 3" t "hexchar d e"] less.prems Cons d(1) put escape by (simp add: decode_loop_escape)
    next
      case (cut d)
      then show ?thesis using less.prems Cons by simp
    next
      case plain
      obtain e u where e: "s' @ NUL # post = e # u" by (cases s') auto
      then have "c = CHR ''%'' \<longrightarrow> \<not> isxdigit e" using plain(2) by (cases s') (auto simp: isxdigit_def isdigit_def)
      then have "decode_loop b get put = decode_loop (b[put := c]) (Suc get) (Suc put)"
        using decode_loop_plain [of get b c e u] d e plain(1) less.prems by simp
      then show ?thesis using written [OF c(3), of c] less.prems Cons put plain by simp
    qed
  qed
qed

lemma length_url_decode: "length (url_decode s) \<le> length s"
proof (induction "length s" arbitrary: s rule: less_induct)
  case less
  have "length (url_decode t) \<le> length t" if "length t < length s" for t
    using less.hyps that by blast
  note IH = this
  show ?case
  proof (cases s)
    case (Cons c u)
    show ?thesis
    proof (cases "\<exists>d e t. u = d # e # t \<and> isxdigit d \<and> c = CHR ''%''")
      case True
      then obtain d e t where "u = d # e # t" "isxdigit d" "c = CHR ''%''" by blast
      then show ?thesis using Cons IH [of t] by simp
    next
      case False
      then have "\<exists>x. url_decode s = x # url_decode u"
        unfolding Cons url_decode.simps(2) [of c u]
        using False by (auto simp del: url_decode.simps split: list.splits)
      then show ?thesis using Cons IH [of u] by auto
    qed
  qed simp
qed

lemma decode_query_correct:
  assumes "drop i b = s @ NUL # post" "NUL \<notin> set s" "escapes_complete s"
  obtains b' where "decode_query b i = Inr b'"
    and "take i b' = take i b"
    and "cstr b' i = takeWhile (\<lambda>x. x \<noteq> NUL) (url_decode s)"
    and "drop (i + length s + 1) b' = post"
proof
  let ?r = "url_decode s @ [NUL]"
  let ?b = "take i b @ ?r @ drop (i + length ?r) b"
  have i: "i \<le> length b" using assms(1) by (cases "i \<le> length b") auto
  have *: "drop (i + length s + 1) b = post" using arg_cong [OF assms(1), of "drop (length s + 1)"]
    by (simp add: add.commute)
  show "decode_query b i = Inr ?b"
    unfolding decode_query_def by (rule decode_loop_correct [OF assms]) simp
  show "take i ?b = take i b" using i by simp
  show "cstr ?b i = takeWhile (\<lambda>x. x \<noteq> NUL) (url_decode s)"
    using i by (simp add: cstr_def takeWhile_stop)
  obtain d where "length s = length (url_decode s) + d"
    using length_url_decode [of s] le_Suc_ex by blast
  then show "drop (i + length s + 1) ?b = post" using i * by (simp add: add_ac)
qed

lemma segment_value_props:
  "CHR ''='' \<in> set s \<Longrightarrow> s = takeWhile (\<lambda>x. x \<noteq> CHR ''='') s @ CHR ''='' # segment_value s"
  using split_at_first [of "CHR ''=''" s] by (simp add: segment_value_def)

lemma parse_segment_correct:
  assumes d: "drop mark b = s @ NUL # post" and nul: "NUL \<notin> set s"
    and esc: "escapes_complete (segment_value s)"
  obtains b' where "parse_segment b mark lst = Inr (segment_pair s @ lst, b')"
    and "drop (mark + length s + 1) b' = post"
proof (cases "CHR ''='' \<in> set s")
  case False
  then have "bindex (CHR ''='') b mark = Inr None"
    using bindex_drop [OF d nul, of "CHR ''=''"] by (simp add: index_of_None [THEN iffD2])
  moreover have "drop (mark + length s + 1) b = post"
    using arg_cong [OF d, of "drop (length s + 1)"] by (simp add: add.commute)
  ultimately show thesis using that False by (simp add: parse_segment_def segment_pair_def)
next
  case True
  define key where "key = takeWhile (\<lambda>x. x \<noteq> CHR ''='') s"
  define v where "v = segment_value s"
  define k where "k = mark + length key"
  have s: "s = key @ CHR ''='' # v" unfolding key_def v_def by (rule segment_value_props [OF True])
  have nul': "NUL \<notin> set key" "NUL \<notin> set v" using nul s by auto
  have ix: "bindex (CHR ''='') b mark = Inr (Some k)"
    using bindex_drop [OF d nul, of "CHR ''=''"] index_of_takeWhile [OF True]
    by (simp add: k_def key_def)
  have mark: "mark \<le> length b" using d by (cases "mark \<le> length b") auto
  have split: "b = take mark b @ key @ CHR ''='' # v @ NUL # post"
    using d s by (metis append.assoc append_Cons append_take_drop_id)
  have b1: "b[k := NUL] = (take mark b @ key @ [NUL]) @ v @ NUL # post"
    by (subst split) (simp add: k_def mark list_update_append)
  have len: "length (take mark b @ key @ [NUL]) = Suc k" using mark by (simp add: k_def)
  have dk: "drop (Suc k) (b[k := NUL]) = v @ NUL # post" by (simp add: b1 flip: len)
  obtain b2 where b2: "decode_query (b[k := NUL]) (Suc k) = Inr b2"
    "take (Suc k) b2 = take (Suc k) (b[k := NUL])"
    "cstr b2 (Suc k) = takeWhile (\<lambda>x. x \<noteq> NUL) (url_decode v)"
    "drop (Suc k + length v + 1) b2 = post"
    by (rule decode_query_correct [OF dk nul'(2)]) (use esc in \<open>simp add: v_def\<close>)
  have "b2 = (take mark b @ key @ [NUL]) @ drop (Suc k) b2"
    using b2(2) by (metis append_eq_conv_conj append_take_drop_id b1 len)
  then have "drop mark b2 = key @ NUL # drop (Suc k) b2"
    using mark by (metis append.assoc append_Cons append_Nil append_eq_conv_conj length_take min.absorb2)
  then have "cstr b2 mark = key" using nul'(1) by (intro cstr_str_at) (auto simp: str_at_drop)
  then have "parse_segment b mark lst = Inr (segment_pair s @ lst, b2)"
    using ix b2 True by (simp add: parse_segment_def segment_pair_def acons_def key_def v_def)
  moreover have "drop (mark + length s + 1) b2 = post" using b2(4) by (simp add: s k_def add_ac)
  ultimately show thesis by (rule that)
qed

lemma segments_no: "c \<notin> set s \<Longrightarrow> segments c s = [s]"
  by (subst segments.simps) (simp add: takeWhile_no dropWhile_all)

lemma segments_cut: "c \<notin> set s \<Longrightarrow> segments c (s @ c # t) = s # segments c t"
  by (subst segments.simps) (simp add: takeWhile_stop takeWhile_no dropWhile_no)

lemma parse_loop_correct:
  assumes "drop mark b = q @ NUL # post" "well_escaped q"
  shows "\<exists>b'. parse_loop b mark lst = Inr (rev (query_pairs q) @ lst, b')"
  using assms
proof (induction "length q" arbitrary: q b mark lst rule: less_induct)
  case less
  let ?amp = "CHR ''&''"
  note d = less.prems(1)
  have nul: "NUL \<notin> set q" using less.prems(2) by (simp add: well_escaped_def)
  have ix: "bindex ?amp b mark = Inr (map_option ((+) mark) (index_of ?amp q))"
    by (rule bindex_drop [OF d nul]) simp
  show ?case
  proof (cases "?amp \<in> set q")
    case False
    then have "escapes_complete (segment_value q)"
      using less.prems(2) by (simp add: well_escaped_def segments_no)
    then obtain b' where "parse_segment b mark lst = Inr (segment_pair q @ lst, b')"
      using parse_segment_correct [OF d nul] by blast
    moreover have "rev (segment_pair q) = segment_pair q" by (simp add: segment_pair_def)
    ultimately show ?thesis
      using False ix by (subst parse_loop.simps) (simp add: index_of_None [THEN iffD2] query_pairs_def segments_no)
  next
    case True
    define s where "s = takeWhile (\<lambda>x. x \<noteq> ?amp) q"
    define t where "t = tl (dropWhile (\<lambda>x. x \<noteq> ?amp) q)"
    have q: "q = s @ ?amp # t" unfolding s_def t_def by (rule split_at_first [OF True])
    have s: "?amp \<notin> set s" by (auto simp: s_def dest: set_takeWhileD)
    have w: "escapes_complete (segment_value s)" "well_escaped t" "NUL \<notin> set s"
      using less.prems(2) s by (auto simp: well_escaped_def q segments_cut)
    have mark: "mark \<le> length b" using d by (cases "mark \<le> length b") auto
    have split: "b = take mark b @ s @ ?amp # t @ NUL # post"
      using d q by (metis append.assoc append_Cons append_take_drop_id)
    have d1: "drop mark (b[mark + length s := NUL]) = s @ NUL # (t @ NUL # post)"
      by (subst split) (simp add: list_update_append mark)
    obtain b2 where b2: "parse_segment (b[mark + length s := NUL]) mark lst = Inr (segment_pair s @ lst, b2)"
      "drop (mark + length s + 1) b2 = t @ NUL # post"
      using parse_segment_correct [OF d1 w(3,1)] by blast
    obtain b3 where b3: "parse_loop b2 (Suc (mark + length s)) (segment_pair s @ lst) =
        Inr (rev (query_pairs t) @ segment_pair s @ lst, b3)"
      using less.hyps [OF _ _ w(2)] b2(2) q by fastforce
    have "rev (segment_pair s) = segment_pair s" by (simp add: segment_pair_def)
    then show ?thesis
      using ix b2(1) b3 index_of_takeWhile [OF True]
      by (subst parse_loop.simps)
         (simp add: query_pairs_def q segments_cut s takeWhile_stop takeWhile_no)
  qed
qed

section \<open>Truncated escapes\<close>

lemma parse_query_pairs:
  "well_escaped q \<Longrightarrow> \<exists>b'. parse_query (q @ NUL # post) = Inr (rev (query_pairs q), b')"
  unfolding parse_query_def using parse_loop_correct [of 0 "q @ NUL # post" q post "[]"]
  by simp

lemma decode_loop_truncated:
  assumes "drop get b = s @ [NUL]" "NUL \<notin> set s" "\<not> escapes_complete s" "put \<le> get"
  shows "decode_loop b get put = Inl BadAccess"
  using assms
proof (induction "length s" arbitrary: s b get put rule: less_induct)
  case less
  have later: "decode_loop (b[put := x]) get' (Suc put) = Inl BadAccess"
    if "drop get' b = u @ [NUL]" "get < get'" "NUL \<notin> set u" "\<not> escapes_complete u" "length u < length s" for x get' u
    using less.hyps [of u get' "b[put := x]" "Suc put"] that less.prems(4) by simp
  obtain c s' where s: "s = c # s'" using less.prems by (cases s) auto
  then have d: "drop get b = c # (s' @ [NUL])" "c \<noteq> NUL" using less.prems by auto
  note c = drop_eq_ConsD [OF d(1)]
  show ?case
  proof (cases rule: url_decode_step [of c s'])
    case plus
    then show ?thesis using later [OF c(3)] less.prems s d(1) by (simp add: decode_loop_plus)
  next
    case (escape d e t)
    have "drop (get + 3) b = t @ [NUL]"
      using c(3) escape(2) drop_eq_ConsD(3) by (metis append_Cons numeral_3_eq_3 add_Suc_right add_0_right)
    then show ?thesis using later [of "get + 3" t] less.prems s d(1) escape by (simp add: decode_loop_escape)
  next
    case (cut x)
    have "length (drop get b) = 3" using d(1) cut(2) by (simp del: length_drop)
    then have l: "length b = get + 3" using c(1) by simp
    then show ?thesis
      using decode_loop_escape [of get b x NUL "[]" put] d(1) cut less.prems(4) by (simp add: decode_loop.simps [of _ "get + 3"])
  next
    case plain
    obtain e u where e: "s' @ [NUL] = e # u" by (cases s') auto
    then have "c = CHR ''%'' \<longrightarrow> \<not> isxdigit e" using plain(2) by (cases s') (auto simp: isxdigit_def isdigit_def)
    then have "decode_loop b get put = decode_loop (b[put := c]) (Suc get) (Suc put)"
      using decode_loop_plain [of get b c e u] d e plain(1) less.prems by simp
    then show ?thesis using later [OF c(3)] less.prems s plain(4) by simp
  qed
qed

section \<open>Percent encoding\<close>

text \<open>The table \<open>hex\<close> of \<open>main.c\<close> and the encoder that writes every byte as an escape.\<close>

definition hex_table :: string where
  "hex_table = ''0123456789abcdef''"

definition percent_encode :: "string \<Rightarrow> string" where
  "percent_encode s =
     concat (map (\<lambda>c. [CHR ''%'', hex_table ! (of_char c div 16), hex_table ! (of_char c mod 16)]) s)"

lemma hexval_table: "n < 16 \<Longrightarrow> hexval (hex_table ! n) = int n"
proof -
  have "list_all (\<lambda>n. hexval (hex_table ! n) = int n) [0..<16]" by code_simp
  then show "n < 16 \<Longrightarrow> ?thesis" by (simp add: list_all_iff)
qed

lemma hexchar_table:
  assumes "n < 256"
  shows "hexchar (hex_table ! (n div 16)) (hex_table ! (n mod 16)) = char_of n"
proof -
  have "n div 16 < 16" using assms by (simp add: less_mult_imp_div_less)
  then have "hexchar (hex_table ! (n div 16)) (hex_table ! (n mod 16)) =
      char_of (push_bit 4 (int (n div 16)) OR int (n mod 16))"
    by (simp add: hexchar_def hexval_table del: of_nat_mod of_nat_div)
  also have "push_bit 4 (int (n div 16)) OR int (n mod 16) = concat_bit 4 (int n) (int n div 16)"
    by (simp add: concat_bit_def take_bit_eq_mod zmod_int zdiv_int or.commute)
  also have "\<dots> = int n" by (simp add: concat_bit_eq take_bit_eq_mod push_bit_eq_mult)
  also have "char_of (int n) = char_of n" by (simp add: char_of_def bit_simps)
  finally show ?thesis .
qed

lemma hex_table_digits: "n < 16 \<Longrightarrow> isxdigit (hex_table ! n) \<and> hex_table ! n \<noteq> NUL"
proof -
  have "list_all (\<lambda>n. isxdigit (hex_table ! n) \<and> hex_table ! n \<noteq> NUL) [0..<16]" by code_simp
  then show "n < 16 \<Longrightarrow> ?thesis" by (simp add: list_all_iff)
qed

lemma byte_nibble: "(of_char c :: nat) div 16 < 16"
  by (simp add: less_mult_imp_div_less)

lemma url_decode_escape: "isxdigit d \<Longrightarrow> url_decode (CHR ''%'' # d # e # t) = hexchar d e # url_decode t"
  by simp

lemma escapes_complete_escape:
  "isxdigit d \<Longrightarrow> escapes_complete (CHR ''%'' # d # e # t) = escapes_complete t"
  by simp

lemmas escape_simps = url_decode_escape escapes_complete_escape hexchar_table hex_table_digits byte_nibble

lemma url_decode_percent_encode: "url_decode (percent_encode s) = s"
  by (induction s)
     (simp_all add: percent_encode_def escape_simps del: url_decode.simps(2))

lemma escapes_complete_percent_encode: "escapes_complete (percent_encode s)"
  by (induction s) (simp_all add: percent_encode_def escape_simps del: escapes_complete.simps(2))

lemma NUL_percent_encode: "NUL \<notin> set (percent_encode s)"
  by (induction s) (auto simp: percent_encode_def hex_table_digits byte_nibble dest: sym)

lemma query_number_of_dec:
  assumes "query_value request key = SStr (dec n)" "- (2 ^ 31) \<le> n" "n < 2 ^ 31"
  shows "query_value_number atof request key = Inr (SInt n)"
proof -
  have "CHR ''.'' \<notin> set (dec_nat k)" for k using dec_nat_digits [of k] by (auto simp: isdigit_def code_def)
  then have "index_of (CHR ''.'') (dec n) = None" by (simp add: index_of_None dec_def)
  then show ?thesis using assms by (simp add: query_value_number_def NUL_dec atoi_dec)
qed

section \<open>Properties\<close>

text \<open>
  C16: on every query string without NUL whose escapes are complete, \<open>parse_query\<close> stays inside
  its buffer, whatever lies behind it, and returns the key/value pairs of the reference parser
  (segments between ampersands, key before the first equals sign, decoded value after it,
  segments without an equals sign dropped), in reverse order of appearance.
\<close>

theorem parse_query_correct:
  assumes "well_escaped q"
  shows "\<exists>b'. parse_query (q @ NUL # post) = Inr (rev (query_pairs q), b')"
  using assms by (rule parse_query_pairs)

theorem parse_query_correct_witness:
  "well_escaped ''a=1&junk&b=x%41+y'' \<and>
   (\<exists>b'. parse_query (''a=1&junk&b=x%41+y'' @ [NUL]) =
      Inr ([(''b'', SStr ''xA y''), (''a'', SStr ''1'')], b'))"
proof -
  have w: "well_escaped ''a=1&junk&b=x%41+y''" by code_simp
  moreover have "rev (query_pairs ''a=1&junk&b=x%41+y'') = [(''b'', SStr ''xA y''), (''a'', SStr ''1'')]"
    by code_simp
  ultimately show ?thesis using parse_query_correct [OF w, of "[]"] by simp
qed

text \<open>
  C36: \<open>decode_query\<close> on a buffer that ends at the terminator of its string stays in bounds if
  and only if no escape is cut short: a value that ends in a percent sign and one hexadecimal
  digit makes \<open>get\<close> jump over the terminator, and the loop reads past the buffer.
\<close>

theorem decode_query_bounds_iff:
  assumes "NUL \<notin> set s"
  shows "decode_query (s @ [NUL]) 0 = Inl BadAccess \<longleftrightarrow> \<not> escapes_complete s"
proof (cases "escapes_complete s")
  case True
  then show ?thesis
    using decode_loop_correct [of 0 "s @ [NUL]" s "[]" 0] assms by (simp add: decode_query_def)
next
  case False
  then show ?thesis
    using decode_loop_truncated [of 0 "s @ [NUL]" s 0] assms by (simp add: decode_query_def)
qed

theorem decode_query_bounds_iff_witness:
  "decode_query (''x%4'' @ [NUL]) 0 = Inl BadAccess \<and> decode_query (''x%40'' @ [NUL]) 0 \<noteq> Inl BadAccess"
proof -
  have e: "\<not> escapes_complete ''x%4''" "escapes_complete ''x%40''" by code_simp+
  show ?thesis
    using decode_query_bounds_iff [of "''x%4''"] decode_query_bounds_iff [of "''x%40''"] e by simp
qed

text \<open>
  a truncated escape also runs on into the bytes behind the terminator. When another
  segment lies there, the decoded value swallows it: the value is the decoded fragment, the byte
  computed from the digit and the NUL, and then the whole next segment decoded.
\<close>

theorem truncated_escape_swallows_next:
  assumes "isxdigit d" "NUL \<notin> set t" "escapes_complete t"
  shows "\<exists>b'. decode_query ([CHR ''%'', d, NUL] @ t @ NUL # post) 0 = Inr b' \<and>
    cstr b' 0 = takeWhile (\<lambda>x. x \<noteq> NUL) (hexchar d NUL # url_decode t)"
proof -
  let ?b = "[CHR ''%'', d, NUL] @ t @ NUL # post"
  have "decode_query ?b 0 = decode_loop (?b[0 := hexchar d NUL]) 3 1"
    unfolding decode_query_def using assms(1)
    by (subst decode_loop.simps) (simp add: decode_hex_def)
  moreover have "decode_loop (?b[0 := hexchar d NUL]) 3 1 =
      Inr ([hexchar d NUL] @ (url_decode t @ [NUL]) @ drop (1 + length (url_decode t @ [NUL])) ?b)"
    using decode_loop_correct [of 3 "?b[0 := hexchar d NUL]" t post 1] assms
    by (simp add: numeral_3_eq_3)
  ultimately show ?thesis by (auto simp: cstr_def takeWhile_stop)
qed

theorem truncated_escape_swallows_next_witness:
  "\<exists>b'. decode_query ([CHR ''%'', CHR ''4'', NUL] @ ''b=2'' @ NUL # []) 0 = Inr b' \<and>
     cstr b' 0 = CHR 0xD0 # ''b=2''"
proof -
  have e: "isxdigit (CHR ''4'')" "escapes_complete ''b=2''" by code_simp+
  have "takeWhile (\<lambda>x. x \<noteq> NUL) (hexchar (CHR ''4'') NUL # url_decode ''b=2'') = CHR 0xD0 # ''b=2''"
    by code_simp
  then show ?thesis
    using truncated_escape_swallows_next [OF e(1) _ e(2), of "[]"] by simp
qed

text \<open>
  decoding inverts percent encoding: for every NUL-free byte string, encoded with the hex
  table of the server, \<open>decode_query\<close> leaves exactly that string at the start of the buffer.
\<close>

theorem decode_query_inverts_percent_encode:
  assumes "NUL \<notin> set s"
  shows "\<exists>b'. decode_query (percent_encode s @ NUL # post) 0 = Inr b' \<and> cstr b' 0 = s"
proof -
  obtain b' where "decode_query (percent_encode s @ NUL # post) 0 = Inr b'"
    "cstr b' 0 = takeWhile (\<lambda>x. x \<noteq> NUL) (url_decode (percent_encode s))"
    by (rule decode_query_correct [of 0 "percent_encode s @ NUL # post" "percent_encode s" post])
       (auto simp: NUL_percent_encode escapes_complete_percent_encode)
  then show ?thesis using assms by (auto simp: url_decode_percent_encode takeWhile_no)
qed

theorem decode_query_inverts_percent_encode_witness:
  "\<exists>b'. decode_query (percent_encode ''a&=b'' @ NUL # []) 0 = Inr b' \<and> cstr b' 0 = ''a&=b''"
  using decode_query_inverts_percent_encode [of "''a&=b''" "[]"] by simp

text \<open>
  a key that occurs more than once in a well-escaped query has, through \<open>query_value\<close> on
  the parsed query, the value of its last occurrence, and a missing key gives \<open>#f\<close>.
\<close>

theorem query_value_last_occurrence:
  assumes "parse_query (q @ NUL # post) = Inr (pairs, b')" "well_escaped q"
  shows "query_value (acons ''query'' (scm_of_alist pairs) request) key =
    assq_ref (rev (query_pairs q)) key"
proof -
  have "pairs = rev (query_pairs q)"
    using parse_loop_correct [of 0 "q @ NUL # post" q post "[]"] assms by (simp add: parse_query_def)
  moreover have "scm_of_alist al \<noteq> SBool False" for al
    by (cases al) (auto simp: scm_of_alist_def)
  ultimately show ?thesis by (simp add: query_value_def scm_assq_ref_alist)
qed

theorem query_value_last_occurrence_witness:
  "\<exists>pairs b'. parse_query (''k=1&k=2'' @ [NUL]) = Inr (pairs, b') \<and>
     query_value (acons ''query'' (scm_of_alist pairs) []) ''k'' = SStr ''2''"
proof -
  have w: "well_escaped ''k=1&k=2''" by code_simp
  obtain b' where p: "parse_query (''k=1&k=2'' @ [NUL]) = Inr (rev (query_pairs ''k=1&k=2''), b')"
    using parse_loop_correct [of 0 "''k=1&k=2'' @ [NUL]" "''k=1&k=2''" "[]" "[]"] w
    by (auto simp: parse_query_def)
  have "assq_ref (rev (query_pairs ''k=1&k=2'')) ''k'' = SStr ''2''" by code_simp
  then show ?thesis using query_value_last_occurrence [OF p w] p by auto
qed

end
