(* ===== verification/Request.thy ===== *)
theory Request
  imports Query
begin

text \<open>
  Reading an HTTP request (\<open>main.c\<close>): \<open>mygetline\<close>, \<open>start_request\<close>, the header loop of
  \<open>process_request\<close>, \<open>get_in\<close> and \<open>request_length\<close>. A connection is the list of events that
  \<open>read\<close> will meet: runs of bytes and errors, then end of file for ever. The theorems are
  about the byte stream the events carry, so they hold for every way the network cuts it up.
\<close>

section \<open>Connections\<close>

datatype inev = Bytes string | ReadErr

datatype rdres = RData string | REof | RErr

fun sys_read :: "nat \<Rightarrow> inev list \<Rightarrow> rdres \<times> inev list" where
  "sys_read k [] = (REof, [])"
| "sys_read k (ReadErr # es) = (RErr, es)"
| "sys_read k (Bytes [] # es) = sys_read k es"
| "sys_read k (Bytes (c # cs) # es) =
     (RData (take k (c # cs)), (if length cs < k then es else Bytes (drop k (c # cs)) # es))"

text \<open>The bytes that arrive before the first error.\<close>

fun stream :: "inev list \<Rightarrow> string" where
  "stream [] = []"
| "stream (ReadErr # es) = []"
| "stream (Bytes s # es) = s @ stream es"

text \<open>A bound on the work left in a connection, for termination proofs.\<close>

fun pending :: "inev list \<Rightarrow> nat" where
  "pending [] = 0"
| "pending (ReadErr # es) = Suc (pending es)"
| "pending (Bytes s # es) = Suc (length s) + pending es"

section \<open>Lines\<close>

datatype getline =
    GETLINE_OK string
  | GETLINE_PEER_CLOSED
  | GETLINE_READ_ERR
  | GETLINE_TOO_LONG

text \<open>
  \<open>mygetline len es acc\<close>: the loop with \<open>acc\<close> in \<open>buf\<close> and \<open>i = length acc\<close>. A line feed
  at \<open>i = 0\<close> makes the code read \<open>buf[-1]\<close>.
\<close>

function mygetline :: "nat \<Rightarrow> inev list \<Rightarrow> string \<Rightarrow> (getline \<times> inev list) res" where
  "mygetline len es acc =
     (if length acc \<ge> len then Inr (GETLINE_TOO_LONG, es)
      else case sys_read 1 es of
             (REof, es') \<Rightarrow> Inr (GETLINE_PEER_CLOSED, es')
           | (RErr, es') \<Rightarrow> Inr (GETLINE_READ_ERR, es')
           | (RData s, es') \<Rightarrow>
               let c = hd s in
               if c = LF then
                 (if acc = [] then Inl BadAccess
                  else if last acc = CR then Inr (GETLINE_OK (cstr (butlast acc) 0), es')
                  else Inr (GETLINE_OK (cstr acc 0), es'))
               else mygetline len es' (acc @ [c]))"
  by pat_completeness auto
termination by (relation "measure (\<lambda>(len, es, acc). len - length acc)") auto

declare mygetline.simps [simp del]

section \<open>The request line and the headers\<close>

text \<open>
  \<open>start_request\<close>: \<open>index\<close> returns a null pointer when there is no blank, and the code uses the
  result without a test.
\<close>

definition start_request :: "string \<Rightarrow> alist res" where
  "start_request line =
     (let meth = (if take 1 line = ''P'' then SSym ''post'' else SSym ''get'');
          request = acons ''method'' meth []
      in case index_of (CHR '' '') line of
           None \<Rightarrow> Inl NullDeref
         | Some i \<Rightarrow>
             let mark = drop (Suc i) line in
             (case index_of (CHR '' '') mark of
                None \<Rightarrow> Inl NullDeref
              | Some j \<Rightarrow>
                  let url = take j mark;
                      request = acons ''url'' (SStr url) request;
                      (upath, qstring) =
                        (case index_of (CHR ''?'') url of
                           Some k \<Rightarrow> (take k url, drop (Suc k) url)
                         | None \<Rightarrow> (url, []))
                  in Inr (acons ''query-string'' (SStr qstring)
                       (acons ''url-path'' (SStr upath) request))))"

definition downcase :: "string \<Rightarrow> string" where
  "downcase s = map tolower s"

definition add_header :: "string \<Rightarrow> alist \<Rightarrow> alist" where
  "add_header line request =
     (case index_of (CHR '':'') line of
        None \<Rightarrow> request
      | Some k \<Rightarrow>
          acons (downcase (take k line)) (SStr (dropWhile isspace (drop (Suc k) line))) request)"

definition BUF_SIZE :: nat where
  "BUF_SIZE = 4096"

text \<open>
  The loop that builds the request: \<open>ConnClosed\<close> is the early return of \<open>process_request\<close>;
  otherwise the request so far and the connection behind the line that ended it.
\<close>

datatype built = ConnClosed | Built alist "inev list"

lemma sys_read_pending:
  "sys_read k es = (RData s, es') \<Longrightarrow> 0 < k \<Longrightarrow> pending es' < pending es"
  by (induction k es rule: sys_read.induct) auto

lemma mygetline_pending:
  "mygetline len es acc = Inr (GETLINE_OK line, es') \<Longrightarrow> pending es' < pending es"
proof (induction len es acc rule: mygetline.induct)
  case (1 len es acc)
  show ?case
  proof (cases "sys_read 1 es")
    case (Pair r es1)
    show ?thesis
    proof (cases r)
      case (RData s)
      then have p: "pending es1 < pending es" using sys_read_pending [of 1 es s es1] Pair by simp
      show ?thesis
      proof (cases "length acc < len \<and> hd s \<noteq> LF")
        case True
        then have "mygetline len es1 (acc @ [hd s]) = Inr (GETLINE_OK line, es')"
          using "1.prems" Pair RData by (subst (asm) mygetline.simps) (simp add: Let_def)
        then show ?thesis using "1.IH" [OF _ Pair [symmetric] RData refl] True p by fastforce
      next
        case False
        then show ?thesis
          using "1.prems" Pair RData p
          by (subst (asm) mygetline.simps) (auto simp: Let_def split: if_splits)
      qed
    qed (use "1.prems" Pair in \<open>subst (asm) mygetline.simps, auto split: if_splits\<close>)+
  qed
qed

function build_request :: "inev list \<Rightarrow> alist \<Rightarrow> built res" where
  "build_request es request =
     bindR (mygetline BUF_SIZE es []) (\<lambda>r.
       case r of
         (GETLINE_PEER_CLOSED, es') \<Rightarrow> Inr ConnClosed
       | (GETLINE_READ_ERR, es') \<Rightarrow> Inr ConnClosed
       | (GETLINE_TOO_LONG, es') \<Rightarrow> Inr (Built request es')
       | (GETLINE_OK line, es') \<Rightarrow>
           if line = [] then Inr (Built request es')
           else if request = [] then bindR (start_request line) (build_request es')
           else build_request es' (add_header line request))"
  by pat_completeness auto
termination
  by (relation "measure (\<lambda>(es, request). pending es)") (auto dest: mygetline_pending)

declare build_request.simps [simp del]

section \<open>The query string of a request, and its length\<close>

definition get_in :: "alist \<Rightarrow> scm res" where
  "get_in request =
     (let qstring = assq_ref request ''query-string''
      in if qstring = SBool False then Inr (SBool False)
         else bindR (scm_to_cstring qstring) (\<lambda>s.
           bindR (parse_query (s @ [NUL])) (\<lambda>r. Inr (scm_of_alist (fst r)))))"

definition request_length :: "alist \<Rightarrow> int res" where
  "request_length request =
     (let clength = assq_ref request ''content-length''
      in if clength = SBool False then Inr 0
         else bindR (scm_to_cstring clength) (\<lambda>len. Inr (atoi len)))"

lemma request_length_dec:
  "assq_ref request ''content-length'' = SStr (dec n) \<Longrightarrow> - (2 ^ 31) \<le> n \<Longrightarrow> n < 2 ^ 31 \<Longrightarrow>
   request_length request = Inr n"
  by (simp add: request_length_def NUL_dec atoi_dec)

section \<open>Lines of the stream\<close>

definition strip_cr :: "string \<Rightarrow> string" where
  "strip_cr l = (if l \<noteq> [] \<and> last l = CR then butlast l else l)"

lemma sys_read_stream:
  assumes "stream es = c # cs"
  shows "\<exists>es'. sys_read 1 es = (RData [c], es') \<and> stream es' = cs"
  using assms
proof (induction "1 :: nat" es rule: sys_read.induct)
  case (4 d ds es)
  then show ?case by (cases ds) auto
qed auto

lemma mygetline_line:
  assumes "stream es = l @ LF # rest" "LF \<notin> set l" "acc @ l \<noteq> []" "length (acc @ l) < len"
  shows "\<exists>es'. mygetline len es acc = Inr (GETLINE_OK (cstr (strip_cr (acc @ l)) 0), es') \<and>
    stream es' = rest"
  using assms
proof (induction l arbitrary: es acc)
  case Nil
  then obtain es' where "sys_read 1 es = (RData [LF], es')" "stream es' = rest"
    using sys_read_stream [of es LF rest] by auto
  then show ?case using Nil by (subst mygetline.simps) (auto simp: strip_cr_def)
next
  case (Cons c l)
  then obtain es' where es': "sys_read 1 es = (RData [c], es')" "stream es' = l @ LF # rest"
    using sys_read_stream [of es c "l @ LF # rest"] by auto
  then have "\<exists>es''. mygetline len es' (acc @ [c]) = Inr (GETLINE_OK (cstr (strip_cr (acc @ c # l)) 0), es'') \<and>
    stream es'' = rest"
    using Cons.IH [of es' "acc @ [c]"] Cons.prems by simp
  then show ?case using Cons.prems es' by (subst mygetline.simps) auto
qed

lemma strip_cr_CR: "strip_cr (l @ [CR]) = l"
  by (simp add: strip_cr_def)

lemma cstr_0: "NUL \<notin> set s \<Longrightarrow> cstr s 0 = s"
  by (simp add: cstr_def takeWhile_no)

text \<open>A line ended by CR LF, as HTTP has it.\<close>

lemma mygetline_crlf:
  assumes "stream es = l @ CRLF @ rest" "LF \<notin> set l" "NUL \<notin> set l" "Suc (length l) < len"
  obtains es' where "mygetline len es [] = Inr (GETLINE_OK l, es')" "stream es' = rest"
  using mygetline_line [of es "l @ [CR]" rest "[]" len] assms
  by (auto simp: strip_cr_CR cstr_0)

lemma mygetline_too_long:
  assumes "length (acc @ l) = len" "LF \<notin> set l" "stream es = l @ rest"
  shows "\<exists>es'. mygetline len es acc = Inr (GETLINE_TOO_LONG, es') \<and> stream es' = rest"
  using assms
proof (induction l arbitrary: es acc)
  case Nil
  then show ?case by (subst mygetline.simps) auto
next
  case (Cons c l)
  then obtain es' where es': "sys_read 1 es = (RData [c], es')" "stream es' = l @ rest"
    using sys_read_stream [of es c "l @ rest"] by auto
  then have "\<exists>es''. mygetline len es' (acc @ [c]) = Inr (GETLINE_TOO_LONG, es'') \<and> stream es'' = rest"
    using Cons.IH [of "acc @ [c]" es'] Cons.prems by simp
  then show ?case using Cons.prems es' by (subst mygetline.simps) auto
qed

section \<open>Well-formed requests\<close>

definition clean :: "string \<Rightarrow> bool" where
  "clean s \<longleftrightarrow> LF \<notin> set s \<and> NUL \<notin> set s"

definition request_line :: "string \<Rightarrow> string \<Rightarrow> string \<Rightarrow> string" where
  "request_line meth target version = meth @ '' '' @ target @ '' '' @ version"

definition header_line :: "string \<times> string \<Rightarrow> string" where
  "header_line h = fst h @ '': '' @ snd h"

definition render_headers :: "(string \<times> string) list \<Rightarrow> string" where
  "render_headers hs = concat (map (\<lambda>h. header_line h @ CRLF) hs)"

definition ok_request_line :: "string \<Rightarrow> string \<Rightarrow> string \<Rightarrow> bool" where
  "ok_request_line meth target version \<longleftrightarrow>
     CHR '' '' \<notin> set meth \<and> CHR '' '' \<notin> set target \<and> clean meth \<and> clean target \<and> clean version \<and>
     length (request_line meth target version) + 1 < BUF_SIZE"

definition ok_header :: "string \<times> string \<Rightarrow> bool" where
  "ok_header h \<longleftrightarrow>
     CHR '':'' \<notin> set (fst h) \<and> clean (fst h) \<and> clean (snd h) \<and>
     (snd h = [] \<or> \<not> isspace (hd (snd h))) \<and> length (header_line h) + 1 < BUF_SIZE"

text \<open>What the request line contributes: method, url, path and query string.\<close>

definition line_fields :: "string \<Rightarrow> string \<Rightarrow> alist" where
  "line_fields meth target =
     [(''query-string'', SStr (tl (dropWhile (\<lambda>c. c \<noteq> CHR ''?'') target))),
      (''url-path'', SStr (takeWhile (\<lambda>c. c \<noteq> CHR ''?'') target)),
      (''url'', SStr target),
      (''method'', if take 1 meth = ''P'' then SSym ''post'' else SSym ''get'')]"

definition header_fields :: "(string \<times> string) list \<Rightarrow> alist" where
  "header_fields hs = rev (map (\<lambda>h. (downcase (fst h), SStr (snd h))) hs)"

lemma index_of_cut: "c \<notin> set s \<Longrightarrow> index_of c (s @ c # t) = Some (length s)"
  by (induction s) auto

lemma drop_Suc_takeWhile:
  "c \<in> set s \<Longrightarrow> drop (Suc (length (takeWhile (\<lambda>x. x \<noteq> c) s))) s = tl (dropWhile (\<lambda>x. x \<noteq> c) s)"
  by (metis drop_Suc dropWhile_eq_drop tl_drop)

lemma start_request_line:
  assumes "CHR '' '' \<notin> set meth" "CHR '' '' \<notin> set target"
  shows "start_request (request_line meth target version) = Inr (line_fields meth target)"
proof -
  have take1: "take 1 (request_line meth target version) = ''P'' \<longleftrightarrow> take 1 meth = ''P''"
    by (cases meth) (auto simp: request_line_def)
  have i: "index_of (CHR '' '') (request_line meth target version) = Some (length meth)"
    "drop (Suc (length meth)) (request_line meth target version) = target @ CHR '' '' # version"
    using assms(1) by (simp_all add: request_line_def index_of_cut)
  have j: "index_of (CHR '' '') (target @ CHR '' '' # version) = Some (length target)"
    by (rule index_of_cut [OF assms(2)])
  show ?thesis
  proof (cases "CHR ''?'' \<in> set target")
    case True
    then have "take (length (takeWhile (\<lambda>c. c \<noteq> CHR ''?'') target)) target =
        takeWhile (\<lambda>c. c \<noteq> CHR ''?'') target"
      by (metis append_eq_conv_conj takeWhile_dropWhile_id)
    then show ?thesis
      using i j take1 index_of_takeWhile [OF True] drop_Suc_takeWhile [OF True]
      by (simp add: start_request_def line_fields_def acons_def)
  next
    case False
    then show ?thesis
      using i j take1 index_of_None [of "CHR ''?''" target]
      by (simp add: start_request_def line_fields_def acons_def takeWhile_no dropWhile_all)
  qed
qed

lemma add_header_line:
  assumes "ok_header h"
  shows "add_header (header_line h) request = (downcase (fst h), SStr (snd h)) # request"
proof -
  have "isspace (CHR '' '')" by (simp add: isspace_def code_def)
  moreover have "dropWhile isspace (snd h) = snd h"
    using assms by (cases "snd h") (auto simp: ok_header_def)
  ultimately show ?thesis
    using assms index_of_cut [of "CHR '':''" "fst h" "CHR '' '' # snd h"]
    by (simp add: add_header_def header_line_def acons_def ok_header_def)
qed

lemma build_headers:
  assumes "stream es = render_headers hs @ CRLF @ body" "\<forall>h \<in> set hs. ok_header h" "request \<noteq> []"
  shows "\<exists>es'. build_request es request = Inr (Built (header_fields hs @ request) es') \<and>
    stream es' = body"
  using assms
proof (induction hs arbitrary: es request)
  case Nil
  obtain es' where "mygetline BUF_SIZE es [] = Inr (GETLINE_OK [], es')" "stream es' = body"
    by (rule mygetline_crlf [of es "[]" body BUF_SIZE])
       (use Nil in \<open>auto simp: render_headers_def BUF_SIZE_def\<close>)
  then show ?case by (subst build_request.simps) (simp add: header_fields_def)
next
  case (Cons h hs)
  let ?l = "header_line h"
  obtain es1 where es1: "mygetline BUF_SIZE es [] = Inr (GETLINE_OK ?l, es1)"
    "stream es1 = render_headers hs @ CRLF @ body"
    by (rule mygetline_crlf [of es ?l "render_headers hs @ CRLF @ body" BUF_SIZE])
       (use Cons.prems in \<open>auto simp: render_headers_def ok_header_def clean_def header_line_def\<close>)
  have "\<exists>es'. build_request es1 ((downcase (fst h), SStr (snd h)) # request) =
      Inr (Built (header_fields hs @ (downcase (fst h), SStr (snd h)) # request) es') \<and> stream es' = body"
    by (rule Cons.IH [OF es1(2)]) (use Cons.prems in auto)
  moreover have "?l \<noteq> []" by (simp add: header_line_def)
  ultimately show ?case
    using es1(1) Cons.prems by (subst build_request.simps) (simp add: add_header_line header_fields_def)
qed

lemma start_request_null_iff:
  "start_request line = Inl NullDeref \<longleftrightarrow> length (filter (\<lambda>c. c = CHR '' '') line) < 2"
proof (cases "CHR '' '' \<in> set line")
  case False
  then have "filter (\<lambda>c. c = CHR '' '') line = []" by (auto simp: filter_empty_conv)
  then show ?thesis using False by (simp add: start_request_def index_of_None [THEN iffD2])
next
  case True
  define u where "u = takeWhile (\<lambda>c. c \<noteq> CHR '' '') line"
  define v where "v = tl (dropWhile (\<lambda>c. c \<noteq> CHR '' '') line)"
  have line: "line = u @ CHR '' '' # v" unfolding u_def v_def by (rule split_at_first [OF True])
  have u: "CHR '' '' \<notin> set u" by (auto simp: u_def dest: set_takeWhileD)
  then have fu: "filter (\<lambda>c. c = CHR '' '') u = []" by (auto simp: filter_empty_conv)
  have ix: "index_of (CHR '' '') line = Some (length u)" using u by (simp add: line index_of_cut)
  show ?thesis
  proof (cases "index_of (CHR '' '') v")
    case None
    then have "filter (\<lambda>c. c = CHR '' '') v = []" by (auto simp: index_of_None filter_empty_conv)
    then show ?thesis using None ix fu by (simp add: start_request_def line)
  next
    case (Some j)
    then have "filter (\<lambda>c. c = CHR '' '') v \<noteq> []"
      using index_of_None [of "CHR '' ''" v] by (auto simp: filter_empty_conv)
    then have "2 \<le> length (filter (\<lambda>c. c = CHR '' '') line)" using fu by (simp add: line Suc_le_eq)
    moreover have "start_request line \<noteq> Inl NullDeref"
      using Some ix by (simp add: start_request_def line case_prod_unfold Let_def)
    ultimately show ?thesis by simp
  qed
qed

lemma mygetline_OK_length:
  "mygetline len es acc = Inr (GETLINE_OK line, es') \<Longrightarrow> length line < len"
proof (induction "len - length acc" arbitrary: es acc rule: less_induct)
  case less
  have short: "length (cstr b 0) \<le> length b" for b by (simp add: cstr_def length_takeWhile_le)
  have ih: "length line < len"
    if "mygetline len es1 acc' = Inr (GETLINE_OK line, es')" "length acc < len" "length acc < length acc'"
    for es1 acc'
    by (rule less.hyps [OF _ that(1)]) (use that(2,3) in auto)
  from less.prems show ?case
    using short [of acc] short [of "butlast acc"]
    by (subst (asm) mygetline.simps)
       (auto simp: Let_def split: if_splits prod.splits rdres.splits intro: ih)
qed

lemma build_request_complete:
  assumes "stream es = request_line meth target version @ CRLF @ render_headers hs @ CRLF @ body"
    and "ok_request_line meth target version" and "\<forall>h \<in> set hs. ok_header h"
  shows "\<exists>es'. build_request es [] = Inr (Built (header_fields hs @ line_fields meth target) es') \<and>
    stream es' = body"
proof -
  let ?l = "request_line meth target version"
  obtain es1 where es1: "mygetline BUF_SIZE es [] = Inr (GETLINE_OK ?l, es1)"
    "stream es1 = render_headers hs @ CRLF @ body"
    by (rule mygetline_crlf [of es ?l "render_headers hs @ CRLF @ body" BUF_SIZE])
       (use assms(1,2) in \<open>auto simp: ok_request_line_def clean_def request_line_def\<close>)
  have "start_request ?l = Inr (line_fields meth target)"
    by (rule start_request_line) (use assms(2) in \<open>auto simp: ok_request_line_def\<close>)
  moreover have "?l \<noteq> []" by (simp add: request_line_def)
  ultimately show ?thesis
    using es1(1) build_headers [OF es1(2) assms(3), of "line_fields meth target"]
    by (subst build_request.simps) (simp add: line_fields_def)
qed

section \<open>Properties\<close>

text \<open>
  C17: a well-formed request is read completely and exactly, however the bytes are cut into
  reads: request line and headers end up in the request's association list (method, url, path and
  query string first, then each header under its lower-case name, later headers in front), and
  the connection is left at the first byte of the body.
\<close>

theorem build_request_reads_request:
  assumes "stream es = request_line meth target version @ CRLF @ render_headers hs @ CRLF @ body"
    and "ok_request_line meth target version" and "\<forall>h \<in> set hs. ok_header h"
  shows "\<exists>es'. build_request es [] = Inr (Built (header_fields hs @ line_fields meth target) es') \<and>
    stream es' = body"
  using assms by (rule build_request_complete)

theorem build_request_reads_request_witness:
  "\<exists>es'. build_request [Bytes (''GET /a?x=1 HTTP/1.1'' @ [CR]), Bytes ([LF] @ ''Host: h'' @ CRLF @ CRLF @ ''rest'')] [] =
     Inr (Built [(''host'', SStr ''h''), (''query-string'', SStr ''x=1''), (''url-path'', SStr ''/a''),
        (''url'', SStr ''/a?x=1''), (''method'', SSym ''get'')] es') \<and> stream es' = ''rest''"
proof -
  let ?es = "[Bytes (''GET /a?x=1 HTTP/1.1'' @ [CR]), Bytes ([LF] @ ''Host: h'' @ CRLF @ CRLF @ ''rest'')]"
  have "stream ?es = request_line ''GET'' ''/a?x=1'' ''HTTP/1.1'' @ CRLF @ render_headers [(''Host'', ''h'')] @ CRLF @ ''rest''"
    by (simp add: request_line_def render_headers_def header_line_def)
  moreover have "ok_request_line ''GET'' ''/a?x=1'' ''HTTP/1.1''"
    by (simp add: ok_request_line_def clean_def request_line_def BUF_SIZE_def)
  moreover have "\<forall>h \<in> set [(''Host'', ''h'')]. ok_header h"
    by (simp add: ok_header_def clean_def header_line_def BUF_SIZE_def isspace_def code_def)
  moreover have "header_fields [(''Host'', ''h'')] @ line_fields ''GET'' ''/a?x=1'' =
      [(''host'', SStr ''h''), (''query-string'', SStr ''x=1''), (''url-path'', SStr ''/a''),
        (''url'', SStr ''/a?x=1''), (''method'', SSym ''get'')]"
    by code_simp
  ultimately show ?thesis
    using build_request_reads_request [of ?es "''GET''" "''/a?x=1''" "''HTTP/1.1''" "[(''Host'', ''h'')]" "''rest''"]
    by simp
qed

text \<open>
  a connection whose first line is not empty and has fewer than two blanks crashes the
  server while the request is read, before any handler is chosen.
\<close>

theorem malformed_first_line_faults:
  assumes "stream es = l @ CRLF @ rest" "l \<noteq> []" "clean l" "length l + 1 < BUF_SIZE"
    and "length (filter (\<lambda>c. c = CHR '' '') l) < 2"
  shows "build_request es [] = Inl NullDeref"
proof -
  have null: "start_request l = Inl NullDeref" using assms(5) by (simp add: start_request_null_iff)
  obtain es1 where "mygetline BUF_SIZE es [] = Inr (GETLINE_OK l, es1)"
    by (rule mygetline_crlf [of es l rest BUF_SIZE]) (use assms in \<open>auto simp: clean_def\<close>)
  then show ?thesis using null assms(2) by (subst build_request.simps) simp
qed

theorem malformed_first_line_faults_witness:
  "build_request [Bytes (''GET /'' @ CRLF)] [] = Inl NullDeref"
  using malformed_first_line_faults [of "[Bytes (''GET /'' @ CRLF)]" "''GET /''" "[]"]
  by (simp add: clean_def BUF_SIZE_def)

text \<open>
  \<open>mygetline\<close> reads at most \<open>len\<close> bytes and stops: when the next \<open>len\<close> bytes hold no line
  feed it reports a line that is too long and has consumed exactly these bytes, and every line
  it does return is shorter than \<open>len\<close>, so the stores stay inside the caller's buffer.
\<close>

theorem mygetline_bounded:
  assumes "stream es = l @ rest" "length l = len" "LF \<notin> set l"
  shows "(\<exists>es'. mygetline len es [] = Inr (GETLINE_TOO_LONG, es') \<and> stream es' = rest) \<and>
    (\<forall>es2 line es'. mygetline len es2 [] = Inr (GETLINE_OK line, es') \<longrightarrow> length line < len)"
  using mygetline_too_long [of "[]" l len es rest] assms mygetline_OK_length by auto

theorem mygetline_bounded_witness:
  "\<exists>es'. mygetline 4 [Bytes ''abc'', Bytes ''defg''] [] = Inr (GETLINE_TOO_LONG, es') \<and> stream es' = ''efg''"
  using mygetline_bounded [of "[Bytes ''abc'', Bytes ''defg'']" "''abcd''" "''efg''" 4] by simp

text \<open>
  a line that consists of a lone line feed (no carriage return) makes \<open>mygetline\<close> read
  before the start of its buffer, wherever the line stands in the request.
\<close>

theorem lone_line_feed_faults:
  assumes "stream es = LF # rest" "0 < len"
  shows "mygetline len es [] = Inl BadAccess"
  using sys_read_stream [OF assms(1)] assms(2) by (subst mygetline.simps) auto

theorem lone_line_feed_faults_witness: "mygetline BUF_SIZE [Bytes [LF]] [] = Inl BadAccess"
  using lone_line_feed_faults [of "[Bytes [LF]]" "[]" BUF_SIZE] by (simp add: BUF_SIZE_def)

end
