(* ===== verification/Handlers.thy ===== *)
theory Handlers
  imports Scm
begin

text \<open>
  The responder table of \<open>main.c\<close>: \<open>struct handler_entry\<close>, \<open>sorter\<close>, \<open>set_handler\<close> and
  \<open>find_handler\<close>. The linked list of entries is a HOL list in link order. \<open>qsort\<close> is glibc's
  merge sort; what the table needs of it is the locale \<open>keyed_sort\<close> (a permutation, ordered by
  the comparator), and, for the rule that a later registration replaces an earlier one, its
  extension \<open>stable_keyed_sort\<close>.
\<close>

section \<open>qsort\<close>

fun qmerge :: "('a \<Rightarrow> 'a \<Rightarrow> int) \<Rightarrow> 'a list \<Rightarrow> 'a list \<Rightarrow> 'a list" where
  "qmerge cmp [] ys = ys"
| "qmerge cmp xs [] = xs"
| "qmerge cmp (x # xs) (y # ys) =
     (if cmp x y \<le> 0 then x # qmerge cmp xs (y # ys) else y # qmerge cmp (x # xs) ys)"

function qsort :: "('a \<Rightarrow> 'a \<Rightarrow> int) \<Rightarrow> 'a list \<Rightarrow> 'a list" where
  "qsort cmp xs =
     (if length xs \<le> 1 then xs
      else qmerge cmp (qsort cmp (take (length xs div 2) xs)) (qsort cmp (drop (length xs div 2) xs)))"
  by pat_completeness auto
termination by (relation "measure (\<lambda>(cmp, xs). length xs)") auto

declare qsort.simps [simp del]

text \<open>The comparator orders the elements of the list by a key, largest first.\<close>

definition orders_by :: "('a \<Rightarrow> 'a \<Rightarrow> int) \<Rightarrow> ('a \<Rightarrow> nat) \<Rightarrow> 'a list \<Rightarrow> bool" where
  "orders_by cmp f xs \<longleftrightarrow> (\<forall>x \<in> set xs. \<forall>y \<in> set xs. cmp x y \<le> 0 \<longleftrightarrow> f y \<le> f x)"

section \<open>The table\<close>

record handler_entry =
  path :: string
  handler :: scm

record htable =
  handlers :: "handler_entry list"
  scm_handlers :: scm

definition empty_table :: htable where
  "empty_table = \<lparr>handlers = [], scm_handlers = SEol\<rparr>"

text \<open>The difference of two \<open>size_t\<close> lengths, returned as a 32-bit \<open>int\<close>.\<close>

definition sorter :: "handler_entry \<Rightarrow> handler_entry \<Rightarrow> int" where
  "sorter e1 e2 =
     signed_take_bit 31 (int (length (path e2)) - int (length (path e1)))"

definition set_handler :: "htable \<Rightarrow> scm \<Rightarrow> scm \<Rightarrow> htable \<times> scm res" where
  "set_handler t p lambda =
     (let t1 = t\<lparr>scm_handlers := SCons (SCons p lambda) (scm_handlers t)\<rparr>
      in case scm_to_cstring p of
           Inl e \<Rightarrow> (t1, Inl e)
         | Inr s \<Rightarrow>
             let entry = \<lparr>path = s, handler = lambda\<rparr>
             in (t1\<lparr>handlers := qsort sorter (entry # handlers t1)\<rparr>, Inr SUnspec))"

fun find_entry :: "handler_entry list \<Rightarrow> string \<Rightarrow> (scm \<times> string) option" where
  "find_entry [] spath = None"
| "find_entry (e # es) spath =
     (let n = length (path e)
      in if strncmp_eq (path e) spath n then Some (handler e, drop n spath)
         else find_entry es spath)"

definition find_handler :: "htable \<Rightarrow> alist \<Rightarrow> scm res" where
  "find_handler t request =
     (let p = assq_ref request ''url-path''
      in if p = SBool False then Inr (SBool False)
         else bindR (scm_to_cstring p) (\<lambda>spath.
           Inr (case find_entry (handlers t) spath of
                  Some (h, rest) \<Rightarrow> SCons h (SStr rest)
                | None \<Rightarrow> SBool False)))"

section \<open>What the table needs of the sort\<close>

locale keyed_sort =
  fixes qs :: "('a \<Rightarrow> 'a \<Rightarrow> int) \<Rightarrow> 'a list \<Rightarrow> 'a list"
  assumes qs_mset: "mset (qs cmp xs) = mset xs"
    and qs_sorted: "orders_by cmp f xs \<Longrightarrow> sorted_wrt (\<lambda>x y. f y \<le> f x) (qs cmp xs)"
begin

lemma qs_set: "set (qs cmp xs) = set xs"
  by (metis qs_mset set_mset_mset)

lemma qs_first_is_largest:
  assumes "orders_by cmp f xs" "List.find P (qs cmp xs) = Some x" "y \<in> set xs" "P y"
  shows "f y \<le> f x"
proof -
  obtain us vs where split: "qs cmp xs = us @ x # vs" "\<forall>u \<in> set us. \<not> P u"
    using assms(2) by (auto simp: find_Some_iff) (metis id_take_nth_drop in_set_conv_nth length_take min_less_iff_conj nth_take)
  have "y \<in> set (x # vs)" using assms(3,4) split qs_set [of cmp xs] by auto
  moreover have "sorted_wrt (\<lambda>x y. f y \<le> f x) (x # vs)"
    using qs_sorted [OF assms(1)] split(1) by (simp add: sorted_wrt_append)
  ultimately show ?thesis by auto
qed

end

locale stable_keyed_sort = keyed_sort +
  assumes qs_stable: "orders_by cmp f xs \<Longrightarrow> filter (\<lambda>x. f x = k) (qs cmp xs) = filter (\<lambda>x. f x = k) xs"
begin

lemma qs_find:
  assumes "orders_by cmp f xs" "\<And>x. P x \<Longrightarrow> f x = k"
  shows "List.find P (qs cmp xs) = List.find P xs"
proof -
  have "List.find P ys = List.find P (filter (\<lambda>x. f x = k) ys)" for ys
    using assms(2) by (induction ys) auto
  then show ?thesis using qs_stable [OF assms(1)] by metis
qed

end

section \<open>The merge sort meets it\<close>

lemma mset_qmerge: "mset (qmerge cmp xs ys) = mset xs + mset ys"
  by (induction cmp xs ys rule: qmerge.induct) auto

lemma mset_qsort: "mset (qsort cmp xs) = mset xs"
proof (induction cmp xs rule: qsort.induct)
  case (1 cmp xs)
  show ?case
  proof (cases "length xs \<le> 1")
    case False
    then have "mset (qsort cmp xs) = mset (take (length xs div 2) xs) + mset (drop (length xs div 2) xs)"
      using 1 by (simp add: qsort.simps [of cmp xs] mset_qmerge)
    then show ?thesis by (metis append_take_drop_id mset_append)
  qed (simp add: qsort.simps)
qed

lemma set_qmerge: "set (qmerge cmp xs ys) = set xs \<union> set ys"
  by (metis mset_qmerge set_mset_mset set_mset_union)

lemma set_qsort: "set (qsort cmp xs) = set xs"
  by (metis mset_qsort set_mset_mset)

lemma orders_by_subset: "orders_by cmp f xs \<Longrightarrow> set ys \<subseteq> set xs \<Longrightarrow> orders_by cmp f ys"
  by (auto simp: orders_by_def)

lemma sorted_qmerge:
  "orders_by cmp f (xs @ ys) \<Longrightarrow> sorted_wrt (\<lambda>x y. f y \<le> f x) xs \<Longrightarrow> sorted_wrt (\<lambda>x y. f y \<le> f x) ys \<Longrightarrow>
   sorted_wrt (\<lambda>x y. f y \<le> f x) (qmerge cmp xs ys)"
proof (induction cmp xs ys rule: qmerge.induct)
  case (3 cmp x xs y ys)
  have o: "orders_by cmp f (xs @ y # ys)" "orders_by cmp f ((x # xs) @ ys)"
    using "3.prems"(1) by (auto intro: orders_by_subset)
  have cmp: "cmp x y \<le> 0 \<longleftrightarrow> f y \<le> f x" using "3.prems"(1) by (simp add: orders_by_def)
  show ?case
    using 3 o cmp by (auto simp: set_qmerge)
qed auto

lemma filter_qmerge:
  "orders_by cmp f (xs @ ys) \<Longrightarrow> sorted_wrt (\<lambda>x y. f y \<le> f x) xs \<Longrightarrow>
   filter (\<lambda>x. f x = k) (qmerge cmp xs ys) = filter (\<lambda>x. f x = k) (xs @ ys)"
proof (induction cmp xs ys rule: qmerge.induct)
  case (3 cmp x xs y ys)
  have o: "orders_by cmp f (xs @ y # ys)" "orders_by cmp f ((x # xs) @ ys)"
    using "3.prems"(1) by (auto intro: orders_by_subset)
  have cmp: "cmp x y \<le> 0 \<longleftrightarrow> f y \<le> f x" using "3.prems"(1) by (simp add: orders_by_def)
  have none: "filter (\<lambda>z. f z = k) (x # xs) = []" if "\<not> cmp x y \<le> 0" "f y = k"
    using that cmp "3.prems"(2) by (fastforce simp: filter_empty_conv)
  show ?case
    using 3 o none by (cases "f y = k") auto
qed auto

lemma qsort_sorted_stable:
  "orders_by cmp f xs \<Longrightarrow> sorted_wrt (\<lambda>x y. f y \<le> f x) (qsort cmp xs) \<and>
   filter (\<lambda>x. f x = k) (qsort cmp xs) = filter (\<lambda>x. f x = k) xs"
proof (induction cmp xs rule: qsort.induct)
  case (1 cmp xs)
  show ?case
  proof (cases "length xs \<le> 1")
    case True
    then show ?thesis by (cases xs) (auto simp: qsort.simps)
  next
    case False
    let ?l = "take (length xs div 2) xs" and ?r = "drop (length xs div 2) xs"
    have o: "orders_by cmp f ?l" "orders_by cmp f ?r" "orders_by cmp f (qsort cmp ?l @ qsort cmp ?r)"
      by (rule orders_by_subset [OF "1.prems"];
          auto simp: set_qsort dest: in_set_takeD in_set_dropD)+
    note ih = "1.IH"(1) [OF False o(1)] "1.IH"(2) [OF False o(2)]
    have "filter (\<lambda>x. f x = k) xs = filter (\<lambda>x. f x = k) ?l @ filter (\<lambda>x. f x = k) ?r"
      by (metis append_take_drop_id filter_append)
    then show ?thesis
      using False ih o(3) by (simp add: qsort.simps [of cmp xs] sorted_qmerge filter_qmerge)
  qed
qed

interpretation glibc: stable_keyed_sort qsort
  by unfold_locales (auto simp: mset_qsort qsort_sorted_stable)

section \<open>The registry the table implements\<close>

text \<open>
  The specification: the registrations, newest first, are a map from paths to handlers; a
  request is served by the longest prefix of its path that is registered.
\<close>

definition longest_match :: "(string \<times> scm) list \<Rightarrow> string \<Rightarrow> (scm \<times> string) option" where
  "longest_match regs p =
     (case filter (\<lambda>k. take k p \<in> fst ` set regs) (rev [0..<Suc (length p)]) of
        [] \<Rightarrow> None
      | k # _ \<Rightarrow> Some (the (map_of regs (take k p)), drop k p))"

definition plen :: "handler_entry \<Rightarrow> nat" where
  "plen e = length (path e)"

text \<open>The table holds exactly the registrations, sorted, equal lengths newest first.\<close>

definition table_rep :: "htable \<Rightarrow> (string \<times> scm) list \<Rightarrow> bool" where
  "table_rep t regs \<longleftrightarrow>
     (\<forall>r \<in> set regs. length (fst r) < 2 ^ 31) \<and>
     sorted_wrt (\<lambda>x y. plen y \<le> plen x) (handlers t) \<and>
     set (handlers t) = (\<lambda>(p, h). \<lparr>path = p, handler = h\<rparr>) ` set regs \<and>
     (\<forall>p. List.find (\<lambda>e. path e = p) (handlers t) = map_option (\<lambda>h. \<lparr>path = p, handler = h\<rparr>) (map_of regs p))"

lemma sorter_orders: "\<forall>e \<in> set es. plen e < 2 ^ 31 \<Longrightarrow> orders_by sorter plen es"
proof -
  assume *: "\<forall>e \<in> set es. plen e < 2 ^ 31"
  have "sorter x y \<le> 0 \<longleftrightarrow> plen y \<le> plen x" if "x \<in> set es" "y \<in> set es" for x y
  proof -
    have "- (2 ^ 31) \<le> int (plen y) - int (plen x)" "int (plen y) - int (plen x) < 2 ^ 31"
      using * that by fastforce+
    then have "sorter x y = int (plen y) - int (plen x)"
      unfolding sorter_def plen_def by (simp add: signed_take_bit_int_eq_self)
    then show ?thesis by simp
  qed
  then show ?thesis by (simp add: orders_by_def)
qed

lemma find_entry_find:
  "find_entry es p = map_option (\<lambda>e. (handler e, drop (plen e) p)) (List.find (\<lambda>e. prefix (path e) p) es)"
  by (induction es) (auto simp: strncmp_eq_prefix plen_def Let_def)

lemma table_rep_empty: "table_rep empty_table []"
  by (simp add: table_rep_def empty_table_def)

lemma table_rep_set_handler:
  assumes rep: "table_rep t regs" and s: "NUL \<notin> set s" "length s < 2 ^ 31"
  shows "\<exists>t'. set_handler t (SStr s) h = (t', Inr SUnspec) \<and> table_rep t' ((s, h) # regs)"
proof -
  let ?e = "\<lparr>path = s, handler = h\<rparr>"
  let ?es = "?e # handlers t"
  have o: "orders_by sorter plen ?es"
    by (rule sorter_orders) (use rep s in \<open>auto simp: table_rep_def plen_def\<close>)
  have "List.find (\<lambda>e. path e = p) (qsort sorter ?es) =
      map_option (\<lambda>h. \<lparr>path = p, handler = h\<rparr>) (map_of ((s, h) # regs) p)" for p
    using glibc.qs_find [OF o, of "\<lambda>e. path e = p" "length p"] rep
    by (auto simp: plen_def table_rep_def)
  then show ?thesis
    using rep s glibc.qs_sorted [OF o]
    by (auto simp: set_handler_def table_rep_def set_qsort Let_def)
qed

lemma longest_match_eq:
  assumes "k \<le> length p" "take k p \<in> fst ` set regs"
    and "\<And>j. j \<le> length p \<Longrightarrow> take j p \<in> fst ` set regs \<Longrightarrow> j \<le> k"
  shows "longest_match regs p = Some (the (map_of regs (take k p)), drop k p)"
proof -
  have "[0..<Suc (length p)] = [0..<k] @ k # [Suc k..<Suc (length p)]"
    using assms(1) upt_add_eq_append [of 0 k "Suc (length p) - k"]
    by (simp add: upt_conv_Cons del: upt_Suc)
  moreover have "filter (\<lambda>j. take j p \<in> fst ` set regs) (rev [Suc k..<Suc (length p)]) = []"
    using assms(3) unfolding filter_empty_conv set_rev set_upt
    by (metis atLeastLessThan_iff less_Suc_eq_le not_less_eq_eq)
  ultimately show ?thesis using assms(2) by (simp add: longest_match_def del: upt_Suc)
qed

lemma find_entry_longest_match:
  assumes rep: "table_rep t regs"
  shows "find_entry (handlers t) p = longest_match regs p"
proof (cases "List.find (\<lambda>e. prefix (path e) p) (handlers t)")
  case None
  then have "\<not> prefix (path e) p" if "e \<in> set (handlers t)" for e
    using that by (auto simp: find_None_iff)
  then have "take k p \<notin> fst ` set regs" for k
    using rep take_is_prefix [of k p] by (fastforce simp: table_rep_def)
  then have "longest_match regs p = None" by (simp add: longest_match_def del: upt_Suc)
  then show ?thesis using None by (simp add: find_entry_find)
next
  case (Some e)
  have e: "e \<in> set (handlers t)" "prefix (path e) p"
    using Some by (auto simp: find_Some_iff)
  then have k: "plen e \<le> length p" "take (plen e) p = path e"
    by (auto simp: plen_def prefix_def)
  have in_regs: "path f \<in> fst ` set regs" if "f \<in> set (handlers t)" for f
    using rep that by (force simp: table_rep_def)
  have first: "plen f \<le> plen e" if "f \<in> set (handlers t)" "prefix (path f) p" for f
  proof -
    obtain us vs where split: "handlers t = us @ e # vs" "\<forall>u \<in> set us. \<not> prefix (path u) p"
      using Some by (auto simp: find_Some_iff)
        (metis id_take_nth_drop in_set_conv_nth length_take min_less_iff_conj nth_take)
    then have "f \<in> set (e # vs)" using that by auto
    then show ?thesis using rep split(1) by (auto simp: table_rep_def sorted_wrt_append)
  qed
  have most: "j \<le> plen e" if j: "j \<le> length p" "take j p \<in> fst ` set regs" for j
  proof -
    obtain h where "(take j p, h) \<in> set regs" using j(2) by (metis imageE prod.collapse)
    then have "\<lparr>path = take j p, handler = h\<rparr> \<in> set (handlers t)"
      using rep by (force simp: table_rep_def)
    from first [OF this] show ?thesis using j by (simp add: take_is_prefix plen_def)
  qed
  have "List.find (\<lambda>f. path f = path e) (handlers t) = Some e"
    using Some e(2) by (fastforce simp: find_Some_iff)
  then obtain z where "map_of regs (path e) = Some z" "\<lparr>path = path e, handler = z\<rparr> = e"
    using rep by (auto simp: table_rep_def)
  then have "the (map_of regs (path e)) = handler e" by (metis handler_entry.select_convs(2) option.sel)
  then show ?thesis
    using Some k longest_match_eq [of "plen e" p regs] in_regs [OF e(1)] most
    by (simp add: find_entry_find)
qed

section \<open>Properties\<close>

text \<open>A sequence of registrations from Scheme, oldest first.\<close>

definition register_all :: "(string \<times> scm) list \<Rightarrow> htable" where
  "register_all regs = fold (\<lambda>(p, h) t. fst (set_handler t (SStr p) h)) regs empty_table"

lemma table_rep_register_all:
  assumes "\<forall>(p, h) \<in> set regs. NUL \<notin> set p \<and> length p < 2 ^ 31"
  shows "table_rep (register_all regs) (rev regs)"
  using assms
proof (induction regs rule: rev_induct)
  case Nil
  then show ?case by (simp add: register_all_def table_rep_empty)
next
  case (snoc r regs)
  obtain p h where r: "r = (p, h)" by (cases r)
  have "table_rep (register_all regs) (rev regs)" using snoc by simp
  from table_rep_set_handler [OF this, of p h] snoc.prems r show ?case
    by (auto simp: register_all_def)
qed



text \<open>
  \<open>set_handler\<close> keeps every earlier registration: the new list of entries is a permutation
  of the old list with the new entry added, for any comparator result, and the garbage collector's
  list of protected handlers grows by the new pair. A path that is not a C string raises and
  leaves the list of entries as it was.
\<close>

theorem set_handler_entries:
  "case set_handler t p h of
     (t', Inr v) \<Rightarrow> \<exists>s. p = SStr s \<and> v = SUnspec \<and>
        mset (handlers t') = add_mset \<lparr>path = s, handler = h\<rparr> (mset (handlers t)) \<and>
        scm_handlers t' = SCons (SCons p h) (scm_handlers t)
   | (t', Inl e) \<Rightarrow> (\<exists>k. e = Throw k) \<and> handlers t' = handlers t"
  by (cases p) (auto simp: set_handler_def Let_def mset_qsort misc_error_def wrong_type_def)

end
