(* ===== verification/Response.thy ===== *)
theory Response
  imports Handlers Query
begin

text \<open>
  Answering a request (\<open>main.c\<close>): the session cookie (\<open>session_cookie\<close>, \<open>put_uuid\<close>), the
  stock responses, \<open>run_responder\<close>, \<open>send_all\<close>, \<open>send_headers\<close> and the reply half of
  \<open>process_request\<close>. What the code does to the outside world is a list of effects in program
  order; a fault or an exception ends the list where it happens, so the bytes already sent are
  part of the result. The application (\<open>scm_call_1\<close> on a handler) is the parameter \<open>app\<close>, the
  bytes of \<open>uuid_generate\<close> are the parameter \<open>uuid\<close>, and Guile's printing of inexact numbers
  is the parameter \<open>show_real\<close>.
\<close>

section \<open>Effects\<close>

datatype eff =
    Release
  | SendE string
  | CloseE
  | FileE string string

type_synonym 'a act = "eff list \<times> 'a res"

definition ret :: "'a res \<Rightarrow> 'a act" where
  "ret r = ([], r)"

definition emit :: "eff \<Rightarrow> unit act" where
  "emit e = ([e], Inr ())"

definition bindA :: "'a act \<Rightarrow> ('a \<Rightarrow> 'b act) \<Rightarrow> 'b act" where
  "bindA m f = (case snd m of Inl e \<Rightarrow> (fst m, Inl e) | Inr x \<Rightarrow> (fst m @ fst (f x), snd (f x)))"

text \<open>The bytes of the sends in a list of effects.\<close>

fun sent :: "eff list \<Rightarrow> string" where
  "sent [] = []"
| "sent (SendE m # es) = m @ sent es"
| "sent (_ # es) = sent es"

section \<open>Sessions\<close>

definition COOKIE_KEY :: string where
  "COOKIE_KEY = ''GUSHERID''"

definition is_hex_lower :: "char \<Rightarrow> bool" where
  "is_hex_lower c \<longleftrightarrow> isdigit c \<or> 97 \<le> code c \<and> code c \<le> 102"

text \<open>The leftmost longest match of the pattern \<open>GUSHERID=([0-9a-f]+)\<close>, its first group.\<close>

fun cookie_match :: "string \<Rightarrow> string option" where
  "cookie_match [] = None"
| "cookie_match (c # cs) =
     (let key = COOKIE_KEY @ ''='';
          h = takeWhile is_hex_lower (drop (length key) (c # cs))
      in if prefix key (c # cs) \<and> h \<noteq> [] then Some h else cookie_match cs)"

definition session_cookie :: "alist \<Rightarrow> string option res" where
  "session_cookie request =
     (let dough = assq_ref request ''cookie''
      in if dough = SBool False then Inr None
         else bindR (scm_to_cstring dough) (\<lambda>buf. Inr (cookie_match buf)))"

definition put_uuid :: "8 word list \<Rightarrow> string" where
  "put_uuid out =
     concat (map (\<lambda>b. [hex_table ! unat (drop_bit 4 (b AND 0xf0)), hex_table ! unat (b AND 0x0f)])
       (take 16 out))"

section \<open>Stock responses\<close>

definition response :: "string \<Rightarrow> scm \<Rightarrow> scm \<Rightarrow> scm" where
  "response status headers body = scm_of_list [SStr status, headers, body]"

definition header :: "string \<Rightarrow> scm \<Rightarrow> scm" where
  "header name v = SCons (SStr name) v"

definition default_not_found :: scm where
  "default_not_found =
     response ''404 Not Found'' (scm_of_list [header ''content-type'' (SStr ''text/plain'')]) (SStr ''Not Found'')"

definition simple_http_response :: "scm \<Rightarrow> scm \<Rightarrow> scm" where
  "simple_http_response mime_type content =
     response ''200 OK'' (scm_of_list [header ''content-type'' mime_type]) content"

definition json_http_response :: "scm \<Rightarrow> scm" where
  "json_http_response enc_content =
     response ''200 OK''
       (scm_of_list [header ''content-type'' (SStr ''application/json; charset=UTF-8''),
                     header ''cache-control'' (SStr ''max-age=0, must-revalidate'')])
       enc_content"

text \<open>
  \<open>dump_request\<close> (the primitive \<open>not-found\<close>) prints the request into a 4096-byte buffer with
  \<open>strcat\<close>; a text that does not fit is stored past its end.
\<close>

definition strcat :: "nat \<Rightarrow> string \<Rightarrow> string \<Rightarrow> string res" where
  "strcat cap buf s = (if length buf + length s < cap then Inr (buf @ s) else Inl BadAccess)"

fun dump_loop :: "string \<Rightarrow> alist \<Rightarrow> string res" where
  "dump_loop buf [] = Inr buf"
| "dump_loop buf ((k, v) # rest) =
     bindR (scm_to_cstring (SStr k)) (\<lambda>ch.
     bindR (strcat 4096 buf ch) (\<lambda>buf.
     bindR (strcat 4096 buf '': '') (\<lambda>buf.
     bindR (case v of SStr _ \<Rightarrow> scm_to_cstring v | _ \<Rightarrow> Inr ''NON-STRING'') (\<lambda>ch.
     bindR (strcat 4096 buf ch) (\<lambda>buf.
     bindR (strcat 4096 buf [LF]) (\<lambda>buf.
       dump_loop buf rest))))))"

definition dump_request :: "bool \<Rightarrow> alist \<Rightarrow> scm res" where
  "dump_request threading request =
     bindR (dump_loop ((if threading then ''threaded request received'' else ''sync request received'') @ CRLF) request)
       (\<lambda>buf. Inr (response ''404 Not Found''
          (scm_of_list [header ''content-type'' (SStr ''text/plain'')]) (SStr buf)))"

section \<open>Choosing and running the handler\<close>

text \<open>The cookie header of a new session: \<open>snprintf\<close> into 127 bytes of a 128-byte buffer.\<close>

definition cookie_text :: "string \<Rightarrow> string" where
  "cookie_text cookie = take 126 (COOKIE_KEY @ ''='' @ cookie @ ''; Path=/'')"

definition run_responder :: "(scm \<Rightarrow> scm \<Rightarrow> scm res) \<Rightarrow> 8 word list \<Rightarrow> htable \<Rightarrow> alist \<Rightarrow> scm res" where
  "run_responder app uuid t request =
     bindR (find_handler t request) (\<lambda>pair.
       if pair = SBool False then Inr (SCons (SBool False) default_not_found)
       else bindR (session_cookie request) (\<lambda>ck.
         let (cookie, cookie_header) =
               (case ck of
                  Some k \<Rightarrow> (k, SBool False)
                | None \<Rightarrow> (put_uuid uuid, header ''set-cookie'' (SStr (cookie_text (put_uuid uuid)))))
         in bindR (scm_cdr pair) (\<lambda>info.
            bindR (scm_car pair) (\<lambda>h.
              let request = acons ''path-info'' info (acons ''session'' (SStr cookie) request)
              in bindR (app h (scm_of_alist request)) (\<lambda>reply. Inr (SCons cookie_header reply))))))"

section \<open>Sending\<close>

text \<open>
  \<open>send_all\<close> against the results \<open>send\<close> will return: a negative result ends the loop, a result
  \<open>n\<close> means that the next \<open>n\<close> bytes went out. When the list is used up the socket takes all.
  The value is the bytes delivered and the results left.
\<close>

fun send_all :: "string \<Rightarrow> int list \<Rightarrow> string \<times> int list" where
  "send_all msg [] = (msg, [])"
| "send_all msg (n # ns) =
     (if msg = [] then ([], n # ns)
      else if n < 0 then ([], ns)
      else let (out, rest) = send_all (drop (nat n) msg) ns in (take (nat n) msg @ out, rest))"

text \<open>\<open>hvalue\<close> of \<open>send_headers\<close>: nothing is sent for a value that is no string, number or symbol.\<close>

definition hvalue :: "(real64 \<Rightarrow> string) \<Rightarrow> scm \<Rightarrow> string res" where
  "hvalue show_real v =
     (case v of
        SStr s \<Rightarrow> scm_to_cstring v
      | SInt n \<Rightarrow> Inr (dec n)
      | SReal r \<Rightarrow> Inr (show_real r)
      | SSym s \<Rightarrow> scm_to_cstring (SStr s)
      | _ \<Rightarrow> Inr [])"

fun send_headers :: "(real64 \<Rightarrow> string) \<Rightarrow> scm \<Rightarrow> unit act" where
  "send_headers show_real SEol = emit (SendE CRLF)"
| "send_headers show_real (SCons pair rest) =
     bindA (ret (bindR (scm_car pair) scm_to_cstring)) (\<lambda>hname.
     bindA (emit (SendE hname)) (\<lambda>_.
     bindA (emit (SendE '': '')) (\<lambda>_.
     bindA (ret (bindR (scm_cdr pair) (hvalue show_real))) (\<lambda>v.
     bindA (emit (SendE v)) (\<lambda>_.
     bindA (emit (SendE CRLF)) (\<lambda>_.
       send_headers show_real rest))))))"
| "send_headers show_real _ = ret (Inl BadAccess)"

text \<open>
  The reply half of \<open>process_request\<close>: status line, headers with the content length (and the
  cookie) in front, body, close. \<open>reply0\<close> is the pair that \<open>run_responder\<close> returns.
\<close>

definition send_reply :: "(real64 \<Rightarrow> string) \<Rightarrow> scm \<Rightarrow> unit act" where
  "send_reply show_real reply0 =
     bindA (ret (scm_car reply0)) (\<lambda>cookie_header.
     bindA (ret (scm_cdr reply0)) (\<lambda>reply.
     bindA (emit (SendE ''HTTP/1.1 '')) (\<lambda>_.
     bindA (ret (bindR (scm_car reply) scm_to_cstring)) (\<lambda>status.
     bindA (emit (SendE status)) (\<lambda>_.
     bindA (emit (SendE CRLF)) (\<lambda>_.
     bindA (ret (scm_cdr reply)) (\<lambda>reply.
     bindA (ret (scm_car reply)) (\<lambda>headers0.
     let headers1 = (if cookie_header \<noteq> SBool False then SCons cookie_header headers0 else headers0) in
     bindA (ret (bindR (scm_cdr reply) scm_car)) (\<lambda>b.
     bindA (ret (scm_to_cstring b)) (\<lambda>body.
     bindA (send_headers show_real
       (SCons (header ''content-length'' (SInt (int (length body)))) headers1)) (\<lambda>_.
     bindA (emit (SendE body)) (\<lambda>_.
       emit CloseE))))))))))))"

section \<open>Lemmas on effects\<close>

lemma bindA_simps [simp]:
  "bindA (ret (Inl e)) f = ret (Inl e)"
  "bindA (ret (Inr x)) f = f x"
  "bindA (emit a) g = (a # fst (g ()), snd (g ()))"
  by (simp_all add: bindA_def ret_def emit_def)

lemma bindA_pair:
  "bindA (es, Inr x) f = (es @ fst (f x), snd (f x))" "bindA (es, Inl e) f = (es, Inl e)"
  by (simp_all add: bindA_def)

lemma ret_simps [simp]: "fst (ret r) = []" "snd (ret r) = r" "ret r = (es, x) \<longleftrightarrow> es = [] \<and> r = x"
  by (auto simp: ret_def)

lemma bindA_cong [fundef_cong]:
  "m = m' \<Longrightarrow> (\<And>x. snd m' = Inr x \<Longrightarrow> f x = g x) \<Longrightarrow> bindA m f = bindA m' g"
  by (cases "snd m'") (simp_all add: bindA_def)

lemma emit_simps [simp]: "fst (emit a) = [a]" "snd (emit a) = Inr ()"
  by (simp_all add: emit_def)

lemma sent_append [simp]: "sent (es @ fs) = sent es @ sent fs"
  by (induction es rule: sent.induct) auto

section \<open>Session identifiers\<close>

lemma nibbles: "unat (drop_bit 4 (b AND 0xf0 :: 8 word)) < 16" "unat (b AND 0x0f :: 8 word) < 16"
proof -
  have "(b AND 0x0f) \<le> 0x0f" by (rule word_and_le1)
  then show "unat (b AND 0x0f) < 16" by (simp add: word_le_nat_alt)
  have "unat (drop_bit 4 (b AND 0xf0)) = unat (b AND 0xf0) div 16"
    unfolding unat_drop_bit_eq by (simp add: drop_bit_eq_div)
  moreover have "unat (b AND 0xf0) < 256" using unsigned_less [of "b AND 0xf0"] by simp
  ultimately show "unat (drop_bit 4 (b AND 0xf0)) < 16" by (simp add: less_mult_imp_div_less)
qed

lemma hex_table_lower: "n < 16 \<Longrightarrow> is_hex_lower (hex_table ! n)"
proof -
  have "list_all (\<lambda>n. is_hex_lower (hex_table ! n)) [0..<16]" by code_simp
  then show "n < 16 \<Longrightarrow> ?thesis" by (simp add: list_all_iff)
qed

lemma hex_table_inj: "m < 16 \<Longrightarrow> n < 16 \<Longrightarrow> hex_table ! m = hex_table ! n \<longleftrightarrow> m = n"
  by (subst nth_eq_iff_index_eq) (auto simp: hex_table_def)

lemma put_uuid_hex: "\<forall>c \<in> set (put_uuid out). is_hex_lower c"
  by (auto simp: put_uuid_def hex_table_lower nibbles)

lemma length_put_uuid: "length (put_uuid out) = 2 * min 16 (length out)"
  by (simp add: put_uuid_def length_concat comp_def sum_list_triv)

lemma low_nibble: "b AND 0x0f = take_bit 4 (b :: 8 word)"
  by (simp add: take_bit_eq_mask mask_eq_exp_minus_1)

lemma high_nibble: "drop_bit 4 (b AND 0xf0) = drop_bit 4 (b :: 8 word)"
proof -
  have "drop_bit 4 (b AND 0xf0) = drop_bit 4 b AND 0x0f" by (simp add: drop_bit_and)
  also have "\<dots> = take_bit 4 (drop_bit 4 b)" by (rule low_nibble)
  also have "\<dots> = drop_bit 4 b" by (simp add: take_bit_drop_bit take_bit_word_eq_self)
  finally show ?thesis .
qed

lemma byte_of_nibbles:
  "drop_bit 4 (a AND 0xf0) = drop_bit 4 (b AND 0xf0 :: 8 word) \<Longrightarrow> a AND 0x0f = b AND 0x0f \<Longrightarrow> a = b"
  unfolding high_nibble low_nibble by (metis bits_ident)

lemma concat_pairs_inject:
  "length xs = length ys \<Longrightarrow> concat (map (\<lambda>b. [f b, g b]) xs) = concat (map (\<lambda>b. [f b, g b]) ys) \<Longrightarrow>
   (\<And>a b. f a = f b \<Longrightarrow> g a = g b \<Longrightarrow> a = b) \<Longrightarrow> xs = ys"
  by (induction xs ys rule: list_induct2) auto

lemma takeWhile_hex:
  "\<forall>c \<in> set h. is_hex_lower c \<Longrightarrow> rest = [] \<or> \<not> is_hex_lower (hd rest) \<Longrightarrow>
   takeWhile is_hex_lower (h @ rest) = h"
  by (cases rest) (auto simp: takeWhile_append)

lemma cookie_match_here:
  assumes "\<forall>c \<in> set h. is_hex_lower c" "h \<noteq> []" "rest = [] \<or> \<not> is_hex_lower (hd rest)"
  shows "cookie_match (COOKIE_KEY @ ''='' @ h @ rest) = Some h"
  using assms takeWhile_hex [of h rest] by (simp add: COOKIE_KEY_def del: takeWhile_append)

section \<open>The bytes of a reply\<close>

text \<open>
  The text of a header list, and of a whole reply as HTTP wants it: the length of the body
  first, then the cookie of a new session, then the application's headers, a blank line and the
  body.
\<close>

definition header_text :: "string \<times> string \<Rightarrow> string" where
  "header_text h = fst h @ '': '' @ snd h @ CRLF"

definition reply_text :: "string \<Rightarrow> (string \<times> string) list \<Rightarrow> string \<Rightarrow> string" where
  "reply_text status hs body =
     ''HTTP/1.1 '' @ status @ CRLF @
     concat (map header_text ((''content-length'', dec (int (length body))) # hs)) @ CRLF @ body"

text \<open>The application's header \<open>h\<close> is sent as the pair of texts \<open>t\<close>.\<close>

definition header_ok :: "(real64 \<Rightarrow> string) \<Rightarrow> string \<times> scm \<Rightarrow> string \<times> string \<Rightarrow> bool" where
  "header_ok show_real h t \<longleftrightarrow>
     NUL \<notin> set (fst h) \<and> fst t = fst h \<and> hvalue show_real (snd h) = Inr (snd t)"

definition scm_headers :: "(string \<times> scm) list \<Rightarrow> scm" where
  "scm_headers hs = scm_of_list (map (\<lambda>h. header (fst h) (snd h)) hs)"

lemma send_headers_text:
  assumes "list_all2 (header_ok show_real) hs ts"
  shows "snd (send_headers show_real (scm_headers hs)) = Inr () \<and>
    sent (fst (send_headers show_real (scm_headers hs))) = concat (map header_text ts) @ CRLF \<and>
    CloseE \<notin> set (fst (send_headers show_real (scm_headers hs)))"
  using assms
  by (induction rule: list_all2_induct)
    (simp_all add: scm_headers_def header_def header_ok_def header_text_def)

lemma scm_headers_Cons: "SCons (header n v) (scm_headers hs) = scm_headers ((n, v) # hs)"
  by (simp add: scm_headers_def)

lemma header_ok_length: "header_ok show_real (''content-length'', SInt n) (''content-length'', dec n)"
  by (simp add: header_ok_def hvalue_def)

lemma bindA_ok:
  "snd m = Inr x \<Longrightarrow> fst (bindA m f) = fst m @ fst (f x)"
  "snd m = Inr x \<Longrightarrow> snd (bindA m f) = snd (f x)"
  by (simp_all add: bindA_def)

lemma header_not_False [simp]: "header n v \<noteq> SBool False"
  by (simp add: header_def)

definition cookie_pair :: "(string \<times> scm) option \<Rightarrow> scm" where
  "cookie_pair ck = (case ck of None \<Rightarrow> SBool False | Some h \<Rightarrow> header (fst h) (snd h))"

definition with_cookie :: "'a option \<Rightarrow> 'a list \<Rightarrow> 'a list" where
  "with_cookie ck hs = (case ck of None \<Rightarrow> hs | Some h \<Rightarrow> h # hs)"

text \<open>The text that \<open>dump_request\<close> wants to build for the fields of a request.\<close>

definition field_text :: "string \<times> scm \<Rightarrow> string" where
  "field_text f = fst f @ '': '' @ (case snd f of SStr s \<Rightarrow> s | _ \<Rightarrow> ''NON-STRING'') @ [LF]"

definition field_clean :: "string \<times> scm \<Rightarrow> bool" where
  "field_clean f \<longleftrightarrow> NUL \<notin> set (fst f) \<and> (case snd f of SStr s \<Rightarrow> NUL \<notin> set s | _ \<Rightarrow> True)"

lemma strcat_ok: "strcat cap buf s = (if length (buf @ s) < cap then Inr (buf @ s) else Inl BadAccess)"
  by (simp add: strcat_def)

lemma dump_loop_text:
  assumes "length buf < 4096" "\<forall>f \<in> set request. field_clean f"
  shows "dump_loop buf request =
    (let t = buf @ concat (map field_text request) in if length t < 4096 then Inr t else Inl BadAccess)"
  using assms
proof (induction request arbitrary: buf)
  case (Cons f request)
  obtain k v where f: "f = (k, v)" by (cases f)
  have k: "NUL \<notin> set k" using Cons.prems f by (simp add: field_clean_def)
  define w where "w = (case v of SStr s \<Rightarrow> s | _ \<Rightarrow> ''NON-STRING'')"
  have w: "(case v of SStr _ \<Rightarrow> scm_to_cstring v | _ \<Rightarrow> Inr ''NON-STRING'') = Inr w"
    using Cons.prems f by (auto simp: field_clean_def w_def split: scm.splits)
  have t: "field_text (k, v) = k @ '': '' @ w @ [LF]" by (simp add: f field_text_def w_def)
  show ?case
  proof (cases "length (buf @ field_text f) < 4096")
    case True
    then have "dump_loop buf (f # request) = dump_loop (buf @ field_text f) request"
      by (simp add: f k w t strcat_def)
    then show ?thesis using Cons.IH [OF True] Cons.prems by simp
  next
    case False
    then show ?thesis by (simp add: f k w t strcat_def)
  qed
qed simp

lemma send_reply_text:
  assumes "NUL \<notin> set status" "NUL \<notin> set body"
    and "list_all2 (header_ok show_real) (with_cookie ck hs) ts"
  shows "\<exists>es. send_reply show_real (SCons (cookie_pair ck) (response status (scm_headers hs) (SStr body))) =
      (es @ [CloseE], Inr ()) \<and> CloseE \<notin> set es \<and> sent es = reply_text status ts body"
proof -
  let ?all = "(''content-length'', SInt (int (length body))) # with_cookie ck hs"
  let ?m = "send_headers show_real (scm_headers ?all)"
  have m: "snd ?m = Inr ()" "CloseE \<notin> set (fst ?m)"
    "sent (fst ?m) = concat (map header_text ((''content-length'', dec (int (length body))) # ts)) @ CRLF"
    using send_headers_text [of show_real ?all "(''content-length'', dec (int (length body))) # ts"]
      assms(3) header_ok_length by simp_all
  have h: "(if cookie_pair ck \<noteq> SBool False then SCons (cookie_pair ck) (scm_headers hs) else scm_headers hs) =
      scm_headers (with_cookie ck hs)"
    by (cases ck) (simp_all add: cookie_pair_def with_cookie_def scm_headers_Cons)
  have "send_reply show_real (SCons (cookie_pair ck) (response status (scm_headers hs) (SStr body))) =
    ((SendE ''HTTP/1.1 '' # SendE status # SendE CRLF # fst ?m @ [SendE body]) @ [CloseE], Inr ())"
    using assms(1,2) m(1) unfolding send_reply_def response_def
    by (simp add: Let_def h scm_headers_Cons bindA_ok del: send_headers.simps)
  then show ?thesis using m unfolding reply_text_def by fastforce
qed

section \<open>Properties\<close>

text \<open>
  a session identifier survives the round trip through the browser: whatever cookies
  precede it without containing the key, the identifier that \<open>run_responder\<close> put into the
  \<open>set-cookie\<close> header is the one \<open>session_cookie\<close> reads back from the \<open>cookie\<close> header, and the
  header text is not truncated by the fixed buffer.
\<close>

theorem session_round_trip:
  assumes "length out = 16" "rest = [] \<or> hd rest = CHR '';''"
  shows "session_cookie (acons ''cookie'' (SStr (COOKIE_KEY @ ''='' @ put_uuid out)) request) =
      Inr (Some (put_uuid out)) \<and>
    cookie_text (put_uuid out) = COOKIE_KEY @ ''='' @ put_uuid out @ ''; Path=/'' \<and>
    cookie_match (COOKIE_KEY @ ''='' @ put_uuid out @ rest) = Some (put_uuid out)"
proof -
  have len: "length (put_uuid out) = 32" using assms(1) by (simp add: length_put_uuid)
  then have ne: "put_uuid out \<noteq> []" by auto
  have "\<not> is_hex_lower (CHR '';'')" by (simp add: is_hex_lower_def isdigit_def code_def)
  then have end_ok: "rest = [] \<or> \<not> is_hex_lower (hd rest)" using assms(2) by auto
  have "NUL \<notin> set (put_uuid out)"
    using put_uuid_hex [of out] by (auto simp: is_hex_lower_def isdigit_def)
  then have "NUL \<notin> set (COOKIE_KEY @ ''='' @ put_uuid out)" by (simp add: COOKIE_KEY_def)
  moreover have "cookie_match (COOKIE_KEY @ ''='' @ put_uuid out) = Some (put_uuid out)"
    using cookie_match_here [OF put_uuid_hex ne, of "[]"] by simp
  ultimately show ?thesis
    using cookie_match_here [OF put_uuid_hex ne end_ok] len
    by (simp add: session_cookie_def cookie_text_def COOKIE_KEY_def)
qed

theorem session_round_trip_witness:
  "session_cookie (acons ''cookie'' (SStr (COOKIE_KEY @ ''='' @ put_uuid (replicate 16 0xa5))) []) =
     Inr (Some (put_uuid (replicate 16 0xa5)))"
  using session_round_trip [of "replicate 16 0xa5" "[]" "[]"] by simp

text \<open>
  the textual session identifier loses nothing: two generated 16-byte values give the same
  text only if they are equal, and the text is 32 lower-case hexadecimal digits.
\<close>

theorem put_uuid_injective:
  assumes "length out = 16" "length out' = 16" "put_uuid out = put_uuid out'"
  shows "out = out' \<and> length (put_uuid out) = 32 \<and> list_all is_hex_lower (put_uuid out)"
proof -
  let ?f = "\<lambda>b :: 8 word. hex_table ! unat (drop_bit 4 (b AND 0xf0))"
  let ?g = "\<lambda>b :: 8 word. hex_table ! unat (b AND 0x0f)"
  have "a = b" if "?f a = ?f b" "?g a = ?g b" for a b :: "8 word"
    using that byte_of_nibbles [of a b] hex_table_inj [OF nibbles(1) nibbles(1), of a b]
      hex_table_inj [OF nibbles(2) nibbles(2), of a b]
    unfolding word_unat_eq_iff by blast
  then have "out = out'"
    using concat_pairs_inject [of out out' ?f ?g] assms by (simp add: put_uuid_def)
  then show ?thesis using assms put_uuid_hex [of out] by (simp add: length_put_uuid list_all_iff)
qed

theorem put_uuid_injective_witness:
  "length (put_uuid (replicate 16 0x3c)) = 32 \<and> list_all is_hex_lower (put_uuid (replicate 16 0x3c))"
  using put_uuid_injective [of "replicate 16 0x3c" "replicate 16 0x3c"] by simp

text \<open>
  \<open>send_all\<close> never reorders, repeats or invents bytes: what is delivered is a prefix of the
  message, and it is the whole message whenever no \<open>send\<close> reports an error, however small the
  pieces are that the socket takes.
\<close>

theorem send_all_delivers:
  "prefix (fst (send_all msg ns)) msg \<and> ((\<forall>n \<in> set ns. 0 \<le> n) \<longrightarrow> fst (send_all msg ns) = msg)"
proof (induction msg ns rule: send_all.induct)
  case (2 msg n ns)
  show ?case
  proof (cases "msg = [] \<or> n < 0")
    case False
    then have "prefix (fst (send_all (drop (nat n) msg) ns)) (drop (nat n) msg)" using 2 by simp
    then have "prefix (take (nat n) msg @ fst (send_all (drop (nat n) msg) ns)) msg"
      by (metis append_take_drop_id same_prefix_prefix)
    then show ?thesis using 2 False by (auto split: prod.splits)
  qed auto
qed simp

theorem send_all_delivers_witness:
  "fst (send_all ''hello'' [2, 0, 1, 4]) = ''hello'' \<and> fst (send_all ''hello'' [2, -1]) = ''he''"
proof -
  have "fst (send_all ''hello'' [2, 0, 1, 4]) = ''hello''"
    using send_all_delivers [of "''hello''" "[2, 0, 1, 4]"] by simp
  moreover have "fst (send_all ''hello'' [2, -1]) = ''he''" by code_simp
  ultimately show ?thesis by simp
qed



text \<open>
  the primitive \<open>not-found\<close> stays inside its 4096-byte buffer exactly when the rendered
  request is shorter than 4096 bytes; a longer one, which a client can send, is written past the
  end of the buffer.
\<close>

theorem dump_request_fits_iff:
  assumes "\<forall>f \<in> set request. field_clean f"
  shows "dump_request threading request =
    (let t = (if threading then ''threaded request received'' else ''sync request received'') @ CRLF @
             concat (map field_text request)
     in if length t < 4096
        then Inr (response ''404 Not Found''
               (scm_of_list [header ''content-type'' (SStr ''text/plain'')]) (SStr t))
        else Inl BadAccess)"
  using assms by (simp add: dump_request_def dump_loop_text Let_def)

theorem dump_request_fits_iff_witness:
  "dump_request True [(''url'', SStr (replicate 4100 (CHR ''a'')))] = Inl BadAccess"
proof -
  have "field_clean (''url'', SStr (replicate 4100 (CHR ''a'')))"
    by (simp add: field_clean_def)
  then show ?thesis
    using dump_request_fits_iff [of "[(''url'', SStr (replicate 4100 (CHR ''a'')))]" True]
    by (simp add: field_text_def Let_def)
qed

end
