(* ===== verification/Post.thy ===== *)
theory Post
  imports Request Response
begin

text \<open>
  The body of a POST request (\<open>main.c\<close>): \<open>form_urlencoded\<close>, \<open>strcasestr\<close>, \<open>process_chunk\<close>,
  \<open>memscan\<close>, \<open>form_multipart\<close>, \<open>post_in\<close>. The loops that read the body need not end (a peer that
  closes early makes \<open>read\<close> return 0 for ever), so they are partial functions and \<open>None\<close> means
  that the thread never comes back. A multipart body is scanned in a memory mapping whose last
  page is padded with NUL bytes; every access is checked against the mapping.

  What the code takes from outside its sources is the record \<open>env\<close>: the application, the bytes
  of \<open>uuid_generate\<close>, Guile's printing of inexact numbers and its UTF-8 decoder, the names that
  \<open>mkstemp\<close> makes, and whether \<open>/tmp/urlencode\<close> can be opened.
\<close>

record env =
  e_app :: "scm \<Rightarrow> scm \<Rightarrow> scm res"
  e_uuid :: "8 word list"
  e_show_real :: "real64 \<Rightarrow> string"
  e_from_utf8 :: "string \<Rightarrow> string"
  e_tmp_name :: "nat \<Rightarrow> string"
  e_urlencode_opens :: bool

section \<open>URL-encoded forms\<close>

definition POST_MEM_MAX :: int where
  "POST_MEM_MAX = 1000000"

text \<open>
  The loop \<open>while (length > 0)\<close> with \<open>acc\<close> in front of \<open>pt\<close>: end of file leaves both as they
  are; an error (\<open>n = -1\<close>) moves \<open>pt\<close> one byte back, below \<open>buf\<close> when nothing was read yet.
\<close>

partial_function (option) read_body ::
  "inev list \<Rightarrow> nat \<Rightarrow> string \<Rightarrow> (string \<times> inev list) res option" where
  "read_body es len acc =
     (if len = 0 then Some (Inr (acc, es))
      else case sys_read len es of
             (REof, es') \<Rightarrow> read_body es' len acc
           | (RErr, es') \<Rightarrow>
               if acc = [] then Some (Inl BadAccess) else read_body es' (Suc len) (butlast acc)
           | (RData s, es') \<Rightarrow> read_body es' (len - length s) (acc @ s))"

text \<open>
  \<open>malloc (length + 1)\<close> fails for a length below -1 (a huge \<open>size_t\<close>); at -1 the terminating
  NUL is stored into an allocation of no bytes.
\<close>

definition form_urlencoded :: "env \<Rightarrow> alist \<Rightarrow> inev list \<Rightarrow> scm act option" where
  "form_urlencoded env request es =
     (case request_length request of
        Inl e \<Rightarrow> Some (ret (Inl e))
      | Inr len0 \<Rightarrow>
          let len = (if len0 > POST_MEM_MAX then POST_MEM_MAX else len0) in
          if len < -1 then Some (ret (Inr SEol))
          else if len = -1 then Some (ret (Inl BadAccess))
          else case read_body es (nat len) [] of
                 None \<Rightarrow> None
               | Some (Inl e) \<Rightarrow> Some (ret (Inl e))
               | Some (Inr (buf, es')) \<Rightarrow>
                   if \<not> e_urlencode_opens env then Some (ret (Inl NullDeref))
                   else Some (bindA (emit (FileE ''/tmp/urlencode'' (cstr (buf @ [NUL]) 0))) (\<lambda>_.
                     ret (bindR (parse_query (buf @ [NUL])) (\<lambda>r. Inr (scm_of_alist (fst r)))))))"

section \<open>Searching\<close>

text \<open>
  The repository's \<open>strcasestr\<close>: \<open>i\<close> is \<open>pt1\<close>, the third argument what is left from \<open>pt2\<close>, the
  last one \<open>anchor\<close>. After a mismatch the search goes on behind the character that did not
  match.
\<close>

fun strcasestr_loop :: "string \<Rightarrow> string \<Rightarrow> string \<Rightarrow> nat \<Rightarrow> nat option \<Rightarrow> nat option" where
  "strcasestr_loop hay needle [] i anchor = anchor"
| "strcasestr_loop [] needle (n # ns) i anchor = None"
| "strcasestr_loop (c # cs) needle (n # ns) i anchor =
     (if toupper c \<noteq> toupper n then strcasestr_loop cs needle needle (Suc i) None
      else strcasestr_loop cs needle ns (Suc i) (if anchor = None then Some i else anchor))"

definition strcasestr :: "string \<Rightarrow> string \<Rightarrow> nat option" where
  "strcasestr hay needle = strcasestr_loop hay needle needle 0 (Some 0)"

text \<open>\<open>memscan\<close>: \<open>memcmp\<close> needs all of its bytes inside the buffer.\<close>

function memscan :: "buf \<Rightarrow> nat \<Rightarrow> nat \<Rightarrow> string \<Rightarrow> nat option res" where
  "memscan b pt fld needle =
     (if fld < length needle then Inr None
      else if length b < pt + length needle then Inl BadAccess
      else if take (length needle) (drop pt b) = needle then Inr (Some pt)
      else memscan b (Suc pt) (fld - 1) needle)"
  by pat_completeness auto
termination by (relation "measure (\<lambda>(b, pt, fld, needle). fld)") (auto simp: not_less intro!: diff_less gr0I)

declare memscan.simps [simp del]

section \<open>Multipart forms\<close>

text \<open>
  One header line of a chunk. The quoted texts are cut out by storing a NUL over the closing
  quote, which is put back afterwards; without a closing quote the store is through a null
  pointer.
\<close>

definition quoted :: "string \<Rightarrow> nat \<Rightarrow> string res" where
  "quoted line k =
     (case index_of DQ (drop k line) of
        None \<Rightarrow> Inl NullDeref
      | Some q \<Rightarrow>
          let pt2 = drop (Suc (k + q)) line in
          (case index_of DQ pt2 of None \<Rightarrow> Inl NullDeref | Some e \<Rightarrow> Inr (take e pt2)))"

definition disposition :: "string \<Rightarrow> scm \<Rightarrow> scm \<Rightarrow> (scm \<times> scm) res" where
  "disposition line key orig_file =
     (if strcasestr line ''content-disposition'' = Some 0 then
        bindR (case strcasestr line (''; name='' @ [DQ]) of
                 None \<Rightarrow> Inr key
               | Some k \<Rightarrow> bindR (quoted line k) (\<lambda>s. Inr (SSym s))) (\<lambda>key.
        bindR (case strcasestr line (''; filename='' @ [DQ]) of
                 None \<Rightarrow> Inr orig_file
               | Some k \<Rightarrow> bindR (quoted line k) (\<lambda>s. Inr (SStr s))) (\<lambda>orig_file.
          Inr (key, orig_file)))
      else Inr (key, orig_file))"

text \<open>
  The header loop of \<open>process_chunk\<close> on the mapping \<open>b\<close>. Its value is the mapping with the NULs
  stored into it, the place where the payload starts, \<open>key\<close> and \<open>orig_file\<close>.
\<close>

function chunk_lines :: "buf \<Rightarrow> nat \<Rightarrow> scm \<Rightarrow> scm \<Rightarrow> (buf \<times> nat \<times> scm \<times> scm) res" where
  "chunk_lines b pt key orig_file =
     bindR (bindex LF b pt) (\<lambda>r.
       case r of
         None \<Rightarrow> Inr (b, pt, key, orig_file)
       | Some stop \<Rightarrow>
           if stop = 0 then Inl BadAccess
           else bindR (rd b (stop - 1)) (\<lambda>c.
             bindR (wr b (if c = CR then stop - 1 else stop) NUL) (\<lambda>b'.
             bindR (rd b' pt) (\<lambda>c0.
               if c0 = NUL then Inr (b', Suc stop, key, orig_file)
               else bindR (disposition (cstr b' pt) key orig_file) (\<lambda>kf.
                 chunk_lines b' (Suc stop) (fst kf) (snd kf))))))"
  by pat_completeness auto
termination
  by (relation "measure (\<lambda>(b, pt, key, orig_file). length b - pt)")
    (auto dest!: bindex_bounds wr_length)

declare chunk_lines.simps [simp del]

text \<open>\<open>k\<close> numbers the temporary files.\<close>

definition process_chunk :: "env \<Rightarrow> nat \<Rightarrow> buf \<Rightarrow> nat \<Rightarrow> nat \<Rightarrow> (buf \<times> scm) act" where
  "process_chunk env k b chunk len =
     bindA (ret (chunk_lines b chunk SEol SEol)) (\<lambda>(b', pt, key, orig_file).
       let payload = take (len - (pt - chunk)) (drop pt b') in
       if orig_file \<noteq> SEol then
         bindA (emit (FileE (e_tmp_name env k) payload)) (\<lambda>_.
           ret (Inr (b', SCons key (SCons (SStr (e_tmp_name env k)) orig_file))))
       else ret (Inr (b', SCons key (SStr (e_from_utf8 env payload)))))"

text \<open>
  The read loop of \<open>form_multipart\<close>. \<open>n\<close> is unsigned, so the test \<open>>= 0\<close> never fails: an error is
  counted as \<open>2 ^ 64 - 1\<close> bytes, which \<open>write\<close> refuses. \<open>clength\<close> is an \<open>int\<close>, \<open>maplen\<close> a \<open>size_t\<close>.
\<close>

definition to_int32 :: "int \<Rightarrow> int" where
  "to_int32 x = signed_take_bit 31 x"

partial_function (option) read_multi ::
  "inev list \<Rightarrow> int \<Rightarrow> string \<Rightarrow> 64 word \<Rightarrow> (string \<times> 64 word) option" where
  "read_multi es clength data maplen =
     (case sys_read 4096 es of
        (REof, es') \<Rightarrow>
          if clength < 1 then Some (data, maplen) else read_multi es' clength data maplen
      | (RErr, es') \<Rightarrow>
          let clength' = to_int32 (clength + 1) in
          if clength' \<le> 0 then Some (data, maplen - 1) else read_multi es' clength' data (maplen - 1)
      | (RData s, es') \<Rightarrow>
          let clength' = to_int32 (clength - int (length s)) in
          if clength' \<le> 0 then Some (data @ s, maplen + of_nat (length s))
          else read_multi es' clength' (data @ s) (maplen + of_nat (length s)))"

text \<open>
  \<open>mmap\<close> refuses an empty mapping and one larger than the address space; otherwise it shows the
  file up to the end of the last page, behind the end of the file as NUL bytes.
\<close>

definition PAGE :: nat where
  "PAGE = 4096"

definition page_up :: "nat \<Rightarrow> nat" where
  "page_up n = (n + (PAGE - 1)) div PAGE * PAGE"

definition mmap :: "string \<Rightarrow> 64 word \<Rightarrow> buf option" where
  "mmap data maplen =
     (if maplen = 0 \<or> 2 ^ 47 \<le> unat maplen then None
      else Some (take (page_up (unat maplen)) (data @ replicate PAGE NUL)))"

lemma chunk_lines_step:
  assumes "chunk_lines b pt key orig_file = Inr r"
  shows "bindex LF b pt = Inr None \<and> r = (b, pt, key, orig_file) \<or>
    (\<exists>stop b' i. bindex LF b pt = Inr (Some stop) \<and> wr b i NUL = Inr b' \<and>
       (r = (b', Suc stop, key, orig_file) \<or>
        (\<exists>key' orig'. chunk_lines b' (Suc stop) key' orig' = Inr r)))"
proof -
  from assms obtain r0 where r0: "bindex LF b pt = Inr r0"
    by (subst (asm) chunk_lines.simps) (auto simp: bindR_eq_Inr)
  show ?thesis
  proof (cases r0)
    case None
    then show ?thesis using assms r0 by (subst (asm) chunk_lines.simps) simp
  next
    case (Some stop)
    then have "stop \<noteq> 0" using assms r0 by (subst (asm) chunk_lines.simps) (cases stop, simp_all)
    then obtain c b' c0 where *: "wr b (if c = CR then stop - 1 else stop) NUL = Inr b'"
      "(if c0 = NUL then Inr (b', Suc stop, key, orig_file)
               else bindR (disposition (cstr b' pt) key orig_file) (\<lambda>kf.
                 chunk_lines b' (Suc stop) (fst kf) (snd kf))) = Inr r"
      using assms r0 Some by (subst (asm) chunk_lines.simps) (simp only: bindR_eq_Inr bindR_Inr option.case if_False, blast)
    then show ?thesis using r0 Some by (cases "c0 = NUL") (auto simp: bindR_eq_Inr)
  qed
qed

lemma chunk_lines_length:
  assumes "chunk_lines b pt key orig_file = Inr r"
  shows "length (fst r) = length b"
  using assms
proof (induction "length b - pt" arbitrary: b pt key orig_file rule: less_induct)
  case less
  from chunk_lines_step [OF less.prems] show ?case
  proof (elim disjE exE conjE)
    fix stop b' i key' orig'
    assume *: "bindex LF b pt = Inr (Some stop)" "wr b i NUL = Inr b'"
      "chunk_lines b' (Suc stop) key' orig' = Inr r"
    then have "length b' = length b" "pt \<le> stop" "stop < length b"
      by (auto dest: wr_length bindex_bounds)
    then show ?thesis using less.hyps [OF _ *(3)] by simp
  qed (auto dest: wr_length)
qed

lemma process_chunk_length:
  "process_chunk env k b chunk len = (es, Inr r) \<Longrightarrow> length (fst r) = length b"
  by (cases "chunk_lines b chunk SEol SEol")
    (auto simp: process_chunk_def Let_def dest!: chunk_lines_length split: if_splits)

lemma memscan_bounds: "memscan b pt fld needle = Inr (Some q) \<Longrightarrow> pt \<le> q \<and> q + length needle \<le> length b"
proof (induction b pt fld needle rule: memscan.induct)
  case (1 b pt fld needle)
  from "1.prems" show ?case
    by (subst (asm) memscan.simps) (auto dest: "1.IH" split: if_splits)
qed

text \<open>
  The loop over the parts, \<open>cursor\<close> and \<open>fld\<close> (the C variable \<open>field\<close>) as the code has them. When
  there is no line feed behind a boundary, \<open>cursor\<close> becomes the address 1 and \<open>field\<close> grows by the
  address of the mapping, so that the next comparison is through address 1.
\<close>

function part_loop :: "env \<Rightarrow> string \<Rightarrow> nat \<Rightarrow> buf \<Rightarrow> nat \<Rightarrow> 64 word \<Rightarrow> scm \<Rightarrow> scm act" where
  "part_loop env rboundary k b cursor fld query =
     bindA (ret (memscan b cursor (unat fld) rboundary)) (\<lambda>r.
       case r of
         None \<Rightarrow> ret (Inr query)
       | Some stop \<Rightarrow>
           bindA (ret (wr b stop NUL)) (\<lambda>b1.
           bindA (process_chunk env k b1 cursor (stop - cursor)) (\<lambda>bc.
           bindA (ret (bindex LF (fst bc) (stop + length rboundary))) (\<lambda>nl.
             case nl of
               None \<Rightarrow> ret (Inl NullDeref)
             | Some i \<Rightarrow>
                 part_loop env rboundary (Suc k) (fst bc) (Suc i) (fld - of_nat (Suc i - cursor))
                   (SCons (snd bc) query)))))"
  by pat_completeness auto
termination
proof (relation "measure (\<lambda>(env, rb, k, b, cursor, fld, query). length b - cursor)", goal_cases)
  case (2 env rboundary k b cursor fld query r stop b1 bc nl i)
  have "cursor \<le> stop" "length b1 = length b" "length (fst bc) = length b1"
    "stop \<le> i" "i < length (fst bc)"
    using 2 memscan_bounds [of b cursor "unat fld" rboundary stop] wr_length [of b stop NUL b1]
      process_chunk_length [of env k b1 cursor "stop - cursor" "fst (process_chunk env k b1 cursor (stop - cursor))" bc]
      bindex_bounds [of LF "fst bc" "stop + length rboundary" i]
    by (simp_all add: prod_eq_iff)
  then show ?case by simp
qed simp

declare part_loop.simps [simp del]

text \<open>
  The whole of \<open>form_multipart\<close>. Without a line feed in the mapping the cursor starts at address 1,
  which the first comparison reads unless the body is shorter than a boundary.
\<close>

definition parse_mapping :: "env \<Rightarrow> string \<Rightarrow> buf \<Rightarrow> 64 word \<Rightarrow> scm act" where
  "parse_mapping env rboundary b maplen =
     bindA (ret (bindex LF b 0)) (\<lambda>nl.
       case nl of
         None \<Rightarrow> if unat maplen < length rboundary then ret (Inr SEol) else ret (Inl NullDeref)
       | Some i \<Rightarrow> part_loop env rboundary 0 b (Suc i) maplen SEol)"

definition form_multipart :: "env \<Rightarrow> alist \<Rightarrow> inev list \<Rightarrow> string \<Rightarrow> scm act option" where
  "form_multipart env request es ctype =
     (case strstr ctype ''boundary='' of
        None \<Rightarrow> Some (ret (Inr (SBool False)))
      | Some i \<Rightarrow>
          (case index_of (CHR ''-'') (drop i ctype) of
             None \<Rightarrow> Some (ret (Inl NullDeref))
           | Some j \<Rightarrow>
               (case strcat 256 (CRLF @ ''--'') (drop (i + j) ctype) of
                  Inl e \<Rightarrow> Some (ret (Inl e))
                | Inr rboundary \<Rightarrow>
                    (case request_length request of
                       Inl e \<Rightarrow> Some (ret (Inl e))
                     | Inr clength \<Rightarrow>
                         (case read_multi es clength [] 0 of
                            None \<Rightarrow> None
                          | Some (data, maplen) \<Rightarrow>
                              (case mmap data maplen of
                                 None \<Rightarrow> Some (ret (Inr (SBool False)))
                               | Some b \<Rightarrow> Some (parse_mapping env rboundary b maplen)))))))"

definition post_in :: "env \<Rightarrow> alist \<Rightarrow> inev list \<Rightarrow> scm act option" where
  "post_in env request es =
     (let meth = assq_ref request ''method''; ctype = assq_ref request ''content-type'' in
      if meth \<noteq> SSym ''post'' then Some (ret (Inr (SBool False)))
      else if ctype = SBool False then Some (ret (Inr (SBool False)))
      else case scm_to_cstring ctype of
             Inl e \<Rightarrow> Some (ret (Inl e))
           | Inr type \<Rightarrow>
               if strstr type ''application/x-www-form-urlencoded'' \<noteq> None then
                 form_urlencoded env request es
               else if strstr type ''multipart/form-data;'' = Some 0 then
                 form_multipart env request es type
               else Some (ret (Inr (SBool False))))"

section \<open>Reading a body\<close>

lemma sys_read_data:
  "stream es \<noteq> [] \<Longrightarrow> 0 < k \<Longrightarrow> \<exists>s es'. sys_read k es = (RData s, es') \<and> s \<noteq> [] \<and> length s \<le> k \<and>
     stream es = s @ stream es' \<and> pending es' < pending es \<and> (ReadErr \<in> set es' \<longrightarrow> ReadErr \<in> set es)"
  by (induction k es rule: sys_read.induct) (auto simp: less_Suc_eq)

lemma sys_read_eof: "stream es = [] \<Longrightarrow> ReadErr \<notin> set es \<Longrightarrow> sys_read k es = (REof, [])"
  by (induction k es rule: sys_read.induct) auto

lemma read_body_exact:
  assumes "len \<le> length (stream es)"
  shows "\<exists>es'. read_body es len acc = Some (Inr (acc @ take len (stream es), es')) \<and>
    stream es' = drop len (stream es)"
  using assms
proof (induction "pending es" arbitrary: es len acc rule: less_induct)
  case less
  show ?case
  proof (cases "len = 0")
    case False
    then obtain s es' where r: "sys_read len es = (RData s, es')" "length s \<le> len"
        "stream es = s @ stream es'" "pending es' < pending es"
      using sys_read_data [of es len] less.prems by fastforce
    then have "\<exists>es''. read_body es' (len - length s) (acc @ s) =
        Some (Inr ((acc @ s) @ take (len - length s) (stream es'), es'')) \<and>
        stream es'' = drop (len - length s) (stream es')"
      using less.hyps [of es' "len - length s" "acc @ s"] less.prems by auto
    then show ?thesis using r False by (subst read_body.simps) auto
  qed (simp add: read_body.simps)
qed

lemma read_body_short:
  "read_body es len acc = Some r \<Longrightarrow> ReadErr \<notin> set es \<Longrightarrow> len \<le> length (stream es)"
proof (induction rule: read_body.raw_induct [rotated, consumes 1])
  case (1 f es len acc r)
  show ?case
  proof (cases "len = 0 \<or> stream es = []")
    case True
    then show ?thesis
      using 1(1) [of "[]" len acc r] 1(2,3) by (cases "len = 0") (auto simp: sys_read_eof)
  next
    case False
    then obtain s es' where r: "sys_read len es = (RData s, es')" "length s \<le> len"
        "stream es = s @ stream es'" "ReadErr \<notin> set es'"
      using sys_read_data [of es len] 1(3) by fastforce
    then have "len - length s \<le> length (stream es')"
      using 1(1) [of es' "len - length s" "acc @ s" r] 1(2) False by auto
    then show ?thesis using r by simp
  qed
qed

section \<open>Searching\<close>

lemma strcasestr_loop_Some:
  assumes "strcasestr_loop hay needle ns i a = Some k" "prefix_done @ ns = needle"
    "a = Some (i - length prefix_done) \<or> a = None \<and> prefix_done = []" "length prefix_done \<le> i"
    "length whole = i" "map toupper (drop (i - length prefix_done) whole) = map toupper prefix_done"
  shows "prefix (map toupper needle) (map toupper (drop k (whole @ hay)))"
  using assms
proof (induction hay needle ns i a arbitrary: prefix_done whole rule: strcasestr_loop.induct)
  case (1 hay needle i anchor)
  then show ?case by (auto simp: prefix_def)
next
  case (3 c cs needle n ns i anchor)
  show ?case
  proof (cases "toupper c = toupper n")
    case False
    then show ?thesis using 3(1) [of "[]" "whole @ [c]"] 3 by simp
  next
    case True
    then show ?thesis
      using 3(2) [of "prefix_done @ [n]" "whole @ [c]"] 3 by (auto simp: Suc_diff_le)
  qed
qed simp

lemma memscan_strstr:
  assumes "needle \<noteq> []" "pt + fld \<le> length b"
  shows "memscan b pt fld needle = Inr (map_option ((+) pt) (strstr (take fld (drop pt b)) needle))"
  using assms
proof (induction fld arbitrary: pt)
  case 0
  then show ?case by (subst memscan.simps) simp
next
  case (Suc fld)
  obtain c cs where c: "drop pt b = c # cs" using Suc.prems by (cases "drop pt b") auto
  then have cs: "drop (Suc pt) b = cs" by (simp add: drop_eq_ConsD)
  have IH: "memscan b (Suc pt) fld needle = Inr (map_option ((+) (Suc pt)) (strstr (take fld cs) needle))"
    using Suc cs by simp
  show ?case
  proof (cases "Suc fld < length needle")
    case True
    then have "\<not> sublist needle (take (Suc fld) (drop pt b))" by (auto dest: sublist_length_le)
    then show ?thesis using True strstr_None by (subst memscan.simps) simp
  next
    case False
    then have *: "take (length needle) (drop pt b) = needle \<longleftrightarrow> prefix needle (take (Suc fld) (drop pt b))"
      by (metis length_take min.absorb2 not_less prefix_length_prefix take_is_prefix take_take append_eq_conv_conj prefix_def)
    show ?thesis
      using False Suc.prems IH * c
      by (subst memscan.simps) (auto simp: option.map_comp comp_def fun_eq_iff intro!: map_option_cong)
  qed
qed

lemma strcasestr_loop_length:
  "strcasestr_loop hay needle ns i a = Some k \<Longrightarrow> length ns \<le> length hay \<or> length needle \<le> length hay"
  by (induction hay needle ns i a rule: strcasestr_loop.induct) (auto split: if_splits)

lemma strcasestr_loop_here:
  "prefix (map toupper ns) (map toupper hay) \<Longrightarrow> a \<noteq> None \<or> ns \<noteq> [] \<Longrightarrow>
   strcasestr_loop hay needle ns i a = Some (case a of None \<Rightarrow> i | Some k \<Rightarrow> k)"
  by (induction hay needle ns i a rule: strcasestr_loop.induct) auto

lemma strcasestr_sound_lemma:
  "strcasestr hay needle = Some k \<Longrightarrow> prefix (map toupper needle) (map toupper (drop k hay))"
  using strcasestr_loop_Some [of hay needle needle 0 "Some 0" k "[]" "[]"]
  by (simp add: strcasestr_def)

lemma strcasestr_prefix:
  "strcasestr hay needle = Some 0 \<longleftrightarrow> prefix (map toupper needle) (map toupper hay)"
  using strcasestr_sound_lemma [of hay needle 0] strcasestr_loop_here [of needle hay "Some 0" needle 0]
  by (auto simp: strcasestr_def)

text \<open>A concrete environment: the application answers every request with its query as a text.\<close>

definition sample_env :: env where
  "sample_env = \<lparr>e_app = (\<lambda>h r. Inr (response ''200 OK'' SEol (SStr ''ok''))), e_uuid = replicate 16 0,
     e_show_real = (\<lambda>_. ''0.0''), e_from_utf8 = (\<lambda>s. s),
     e_tmp_name = (\<lambda>k. ''/tmp/gusher_payload_'' @ dec (int k)), e_urlencode_opens = True\<rparr>"

section \<open>Properties of the parts\<close>

text \<open>
  C35: the loop that reads a URL-encoded body returns exactly when the peer sends all the bytes
  it announced, and then the buffer holds exactly those bytes, however the network cuts them;
  what follows them stays on the connection. When the peer closes early the loop never ends.
\<close>

theorem urlencoded_body_read:
  assumes "ReadErr \<notin> set es"
  shows "(read_body es len [] = None \<longleftrightarrow> length (stream es) < len) \<and>
    (len \<le> length (stream es) \<longrightarrow>
       (\<exists>es'. read_body es len [] = Some (Inr (take len (stream es), es')) \<and>
          stream es' = drop len (stream es)))"
  using assms read_body_exact [of len es "[]"] read_body_short [of es len "[]"]
  by (cases "read_body es len []") fastforce+

theorem urlencoded_body_read_witness:
  "read_body [Bytes ''ab'', Bytes ''c''] 4 [] = None \<and>
   (\<exists>es'. read_body [Bytes ''ab'', Bytes ''cde''] 4 [] = Some (Inr (''abcd'', es')) \<and> stream es' = ''e'')"
  using urlencoded_body_read [of "[Bytes ''ab'', Bytes ''c'']" 4]
    urlencoded_body_read [of "[Bytes ''ab'', Bytes ''cde'']" 4] by simp

text \<open>
  C28: a URL-encoded POST of up to a million bytes: when the client sends the bytes it announced
  and its escapes are complete, \<open>post_in\<close> returns the decoded pairs of the body, and writes the
  raw body into \<open>/tmp/urlencode\<close>.
\<close>

theorem urlencoded_post_pairs:
  assumes "assq_ref request ''method'' = SSym ''post''"
    and "assq_ref request ''content-type'' = SStr ct" "NUL \<notin> set ct"
    and "strstr ct ''application/x-www-form-urlencoded'' \<noteq> None"
    and "assq_ref request ''content-length'' = SStr (dec (int (length q)))" "length q \<le> 1000000"
    and "prefix q (stream es)" "well_escaped q" "e_urlencode_opens env"
  shows "post_in env request es =
    Some ([FileE ''/tmp/urlencode'' q], Inr (scm_of_alist (rev (query_pairs q))))"
proof -
  have len: "request_length request = Inr (int (length q))"
    using request_length_dec [OF assms(5)] assms(6) by simp
  obtain es' where "read_body es (length q) [] = Some (Inr (q, es'))"
    using read_body_exact [of "length q" es "[]"] assms(7) by (auto simp: prefix_def)
  moreover obtain b' where "parse_query (q @ [NUL]) = Inr (rev (query_pairs q), b')"
    using parse_query_pairs [OF assms(8), of "[]"] by blast
  moreover have "cstr (q @ [NUL]) 0 = q"
    using assms(8) by (simp add: cstr_def well_escaped_def takeWhile_stop takeWhile_no)
  ultimately have "form_urlencoded env request es =
      Some ([FileE ''/tmp/urlencode'' q], Inr (scm_of_alist (rev (query_pairs q))))"
    using assms(6,9) len by (simp add: form_urlencoded_def POST_MEM_MAX_def ret_def)
  then show ?thesis using assms by (simp add: post_in_def)
qed

theorem urlencoded_post_pairs_witness:
  "post_in sample_env [(''method'', SSym ''post''), (''content-length'', SStr ''7''),
       (''content-type'', SStr ''application/x-www-form-urlencoded'')] [Bytes ''a=1'', Bytes ''&b=2''] =
     Some ([FileE ''/tmp/urlencode'' ''a=1&b=2''],
       Inr (scm_of_alist [(''b'', SStr ''2''), (''a'', SStr ''1'')]))"
proof -
  let ?r = "[(''method'', SSym ''post''), (''content-length'', SStr ''7''),
       (''content-type'', SStr ''application/x-www-form-urlencoded'')]"
  have "rev (query_pairs ''a=1&b=2'') = [(''b'', SStr ''2''), (''a'', SStr ''1'')]" by code_simp
  moreover have "well_escaped ''a=1&b=2''" by code_simp
  moreover have "strstr ''application/x-www-form-urlencoded'' ''application/x-www-form-urlencoded'' \<noteq> None"
    by code_simp
  moreover have "dec (int (length ''a=1&b=2'')) = ''7''" by code_simp
  ultimately show ?thesis
    using urlencoded_post_pairs [of ?r "''application/x-www-form-urlencoded''" "''a=1&b=2''"
      "[Bytes ''a=1'', Bytes ''&b=2'']" sample_env]
    by (simp add: assq_ref_def sample_env_def)
qed

text \<open>
  \<open>memscan\<close> is a substring search: inside the mapping it returns the first occurrence of the
  needle that lies completely in the first \<open>field\<close> bytes, and NULL exactly when there is none.
\<close>

theorem memscan_is_strstr:
  assumes "needle \<noteq> []" "pt + fld \<le> length b"
  shows "memscan b pt fld needle = Inr (map_option ((+) pt) (strstr (take fld (drop pt b)) needle))"
  using assms by (rule memscan_strstr)

theorem memscan_is_strstr_witness: "memscan ''xxabcabd'' 1 7 ''abd'' = Inr (Some 5)"
  using memscan_is_strstr [of "''abd''" 1 7 "''xxabcabd''"] by code_simp

text \<open>
  the repository's own \<open>strcasestr\<close> never reports a false match, and it decides correctly
  whether the text starts with the needle, which is how header lines are recognised.
\<close>

theorem strcasestr_sound:
  "(strcasestr hay needle = Some 0 \<longleftrightarrow> prefix (map toupper needle) (map toupper hay)) \<and>
   (strcasestr hay needle = Some k \<longrightarrow> prefix (map toupper needle) (map toupper (drop k hay)))"
  using strcasestr_sound_lemma strcasestr_prefix by blast

theorem strcasestr_sound_witness:
  "strcasestr ''xx; NAME='' ''; name='' = Some 2 \<and>
   prefix (map toupper ''; name='') (map toupper (drop 2 ''xx; NAME=''))"
proof -
  have "strcasestr ''xx; NAME='' ''; name='' = Some 2" by code_simp
  then show ?thesis using strcasestr_sound [of "''xx; NAME=''" "''; name=''" 2] by blast
qed

text \<open>
  but it is not a search: after a partial match it goes on behind the character that did
  not match, so it misses the needle in every text where the first character of the needle is
  doubled.
\<close>

theorem strcasestr_misses:
  assumes "toupper c \<noteq> toupper d"
  shows "strcasestr (c # c # d # rest) (c # d # rest) = None"
proof -
  have "strcasestr_loop (d # rest) (c # d # rest) (c # d # rest) 2 None = None"
    using strcasestr_loop_length [of "d # rest" "c # d # rest" "c # d # rest" 2 None] by fastforce
  then show ?thesis using assms by (simp add: strcasestr_def numeral_2_eq_2)
qed

theorem strcasestr_misses_witness: "strcasestr '';; name='' ''; name='' = None"
  using strcasestr_misses [of "CHR '';''" "CHR '' ''" "''name=''"] by (simp add: toupper_def islower_def code_def)

end
