(* ===== verification/Multipart.thy ===== *)
theory Multipart
  imports Post
begin

text \<open>
  Multipart forms from the client's side: the text a browser sends for a list of fields and
  files, and the proof that \<open>form_multipart\<close> recovers them. The result is exact: it also says
  when the scan behind the closing boundary leaves the mapping.
\<close>

section \<open>What a client sends\<close>

datatype part =
    Field string string
  | Upload string string string

definition part_line :: "part \<Rightarrow> string" where
  "part_line p =
     (case p of
        Field n c \<Rightarrow> ''Content-Disposition: form-data; name='' @ DQ # n @ [DQ]
      | Upload n f c \<Rightarrow> ''Content-Disposition: form-data; name='' @ DQ # n @ DQ # ''; filename='' @ DQ # f @ [DQ])"

definition part_content :: "part \<Rightarrow> string" where
  "part_content p = (case p of Field n c \<Rightarrow> c | Upload n f c \<Rightarrow> c)"

definition chunk_text :: "part \<Rightarrow> string" where
  "chunk_text p = part_line p @ CRLF @ CRLF @ part_content p"

definition line_end :: "part list \<Rightarrow> string" where
  "line_end ps = (if ps = [] then ''--'' @ CRLF else CRLF)"

fun parts_text :: "string \<Rightarrow> part list \<Rightarrow> string" where
  "parts_text rb [] = []"
| "parts_text rb (p # ps) = chunk_text p @ rb @ line_end ps @ parts_text rb ps"

definition delimiter :: "string \<Rightarrow> string" where
  "delimiter bd = CRLF @ ''--'' @ bd"

definition multipart_body :: "string \<Rightarrow> part list \<Rightarrow> string" where
  "multipart_body bd ps = ''--'' @ bd @ line_end ps @ parts_text (delimiter bd) ps"

definition ok_part :: "string \<Rightarrow> part \<Rightarrow> bool" where
  "ok_part bd p \<longleftrightarrow>
     \<not> sublist (delimiter bd) (chunk_text p) \<and>
     (case p of
        Field n c \<Rightarrow> set n \<inter> {NUL, CR, LF, DQ, CHR '';''} = {}
      | Upload n f c \<Rightarrow> set n \<inter> {NUL, CR, LF, DQ, CHR '';''} = {} \<and> set f \<inter> {NUL, CR, LF, DQ} = {})"

definition ok_boundary :: "string \<Rightarrow> bool" where
  "ok_boundary bd \<longleftrightarrow> take 1 bd = ''-'' \<and> length bd < 252 \<and> set bd \<inter> {NUL, CR, LF} = {}"

section \<open>What the server makes of it\<close>

definition part_key :: "part \<Rightarrow> scm" where
  "part_key p = (case p of Field n c \<Rightarrow> SSym n | Upload n f c \<Rightarrow> SSym n)"

definition part_orig :: "part \<Rightarrow> scm" where
  "part_orig p = (case p of Field n c \<Rightarrow> SEol | Upload n f c \<Rightarrow> SStr f)"

definition part_value :: "env \<Rightarrow> nat \<Rightarrow> part \<Rightarrow> scm" where
  "part_value env k p =
     (case p of
        Field n c \<Rightarrow> SCons (SSym n) (SStr (e_from_utf8 env c))
      | Upload n f c \<Rightarrow> SCons (SSym n) (SCons (SStr (e_tmp_name env k)) (SStr f)))"

definition part_files :: "env \<Rightarrow> nat \<Rightarrow> part \<Rightarrow> eff list" where
  "part_files env k p =
     (case p of Field n c \<Rightarrow> [] | Upload n f c \<Rightarrow> [FileE (e_tmp_name env k) c])"

fun values_from :: "env \<Rightarrow> nat \<Rightarrow> part list \<Rightarrow> scm \<Rightarrow> scm" where
  "values_from env k [] q = q"
| "values_from env k (p # ps) q = values_from env (Suc k) ps (SCons (part_value env k p) q)"

fun files_from :: "env \<Rightarrow> nat \<Rightarrow> part list \<Rightarrow> eff list" where
  "files_from env k [] = []"
| "files_from env k (p # ps) = part_files env k p @ files_from env (Suc k) ps"

section \<open>Header lines\<close>

lemma toupper_semicolon: "toupper c = CHR '';'' \<longleftrightarrow> c = CHR '';''"
proof (cases "islower c")
  case True
  then have "code (toupper c) = code c - 32"
    unfolding toupper_def using code_range [of c] by (simp add: code_char_of_int islower_def)
  then have "code (toupper c) \<noteq> 59" "code c \<noteq> 59" using True by (auto simp: islower_def)
  then show ?thesis by (auto simp: code_def)
qed (simp add: toupper_def)

lemma strcasestr_loop_skip:
  "CHR '';'' \<notin> set s \<Longrightarrow> s \<noteq> [] \<Longrightarrow>
   strcasestr_loop (s @ t) (CHR '';'' # nd) (CHR '';'' # nd) i a =
   strcasestr_loop t (CHR '';'' # nd) (CHR '';'' # nd) (i + length s) None"
proof (induction s arbitrary: i a)
  case (Cons c s)
  have "toupper (CHR '';'') = CHR '';''" by (simp add: toupper_semicolon)
  then have "toupper c \<noteq> toupper (CHR '';'')" using Cons.prems toupper_semicolon [of c] by auto
  then show ?case using Cons by (cases "s = []") simp_all
qed simp

definition head :: string where
  "head = ''Content-Disposition: form-data''"

lemma head_props: "CHR '';'' \<notin> set head" "head \<noteq> []" "DQ \<notin> set head" "NUL \<notin> set head"
    "CR \<notin> set head" "LF \<notin> set head" "length head = 30"
  by (simp_all add: head_def)

lemma head_prefix: "prefix (map toupper ''content-disposition'') (map toupper (head @ t))"
proof -
  have "prefix (map toupper ''content-disposition'') (map toupper head)" by code_simp
  then show ?thesis by simp
qed

text \<open>The first needle is found right behind the head; the second one behind the name.\<close>

lemma strcasestr_after:
  assumes "CHR '';'' \<notin> set s" "s \<noteq> []"
  shows "strcasestr (s @ CHR '';'' # nd @ t) (CHR '';'' # nd) = Some (length s)"
  unfolding strcasestr_def
  using strcasestr_loop_skip [OF assms, of "CHR '';'' # nd @ t" nd 0 "Some 0"]
    strcasestr_loop_here [of "CHR '';'' # nd" "CHR '';'' # nd @ t" None "CHR '';'' # nd" "length s"]
  by simp

lemma strcasestr_absent:
  assumes "CHR '';'' \<notin> set s" "s \<noteq> []"
  shows "strcasestr_loop s (CHR '';'' # nd) (CHR '';'' # nd) i a = None"
  using strcasestr_loop_skip [OF assms, of "[]" nd i a] by simp

lemma quoted_text:
  assumes "DQ \<notin> set u" "DQ \<notin> set n"
  shows "quoted (s @ u @ DQ # n @ DQ # t) (length s) = Inr n"
  using assms index_of_takeWhile [of DQ "u @ DQ # n @ DQ # t"] index_of_takeWhile [of DQ "n @ DQ # t"]
  by (simp add: quoted_def takeWhile_stop takeWhile_no Let_def)

abbreviation name_needle :: string where
  "name_needle \<equiv> ''; name='' @ [DQ]"

abbreviation file_needle :: string where
  "file_needle \<equiv> ''; filename='' @ [DQ]"

lemma part_line_head:
  "part_line (Field n c) = head @ ''; name='' @ DQ # n @ DQ # []"
  "part_line (Upload n f c) = head @ ''; name='' @ DQ # n @ DQ # ''; filename='' @ DQ # f @ [DQ]"
  by (simp_all add: part_line_def head_def)

lemma find_name: "strcasestr (head @ ''; name='' @ DQ # t) name_needle = Some 30"
  using strcasestr_after [OF head_props(1,2), of "'' name='' @ [DQ]" t] by (simp add: head_props)

lemma pass_name:
  assumes "CHR '';'' \<notin> set n"
  shows "strcasestr (head @ ''; name='' @ DQ # n @ DQ # t) file_needle =
    strcasestr_loop t file_needle file_needle (39 + length n) None"
proof -
  let ?F = "'' filename='' @ [DQ]"
  have "strcasestr (head @ ''; name='' @ DQ # n @ DQ # t) file_needle =
      strcasestr_loop (''; name='' @ DQ # n @ DQ # t) file_needle file_needle 30 None"
    using strcasestr_loop_skip [OF head_props(1,2), of "''; name='' @ DQ # n @ DQ # t" ?F 0 "Some 0"]
    by (simp add: strcasestr_def head_props del: strcasestr_loop.simps)
  also have "\<dots> = strcasestr_loop (''ame='' @ DQ # n @ DQ # t) file_needle file_needle 33 None"
    by (simp add: toupper_def islower_def code_def)
  also have "\<dots> = strcasestr_loop t file_needle file_needle (39 + length n) None"
    using strcasestr_loop_skip [of "''ame='' @ DQ # n @ [DQ]" t ?F 33 None] assms
    by (simp add: add_ac del: strcasestr_loop.simps)
  finally show ?thesis .
qed

lemma disposition_part:
  assumes "ok_part bd p"
  shows "disposition (part_line p) key SEol = Inr (part_key p, part_orig p)"
proof (cases p)
  case (Field n c)
  have n: "CHR '';'' \<notin> set n" "DQ \<notin> set n" using assms Field by (auto simp: ok_part_def)
  have "strcasestr (part_line p) ''content-disposition'' = Some 0"
    unfolding strcasestr_prefix Field part_line_head by (rule head_prefix)
  moreover have "strcasestr (part_line p) name_needle = Some 30"
    unfolding Field part_line_head by (rule find_name)
  moreover have "strcasestr (part_line p) file_needle = None"
    unfolding Field part_line_head using pass_name [OF n(1), of "[]"] by simp
  moreover have "quoted (part_line p) 30 = Inr n"
    unfolding Field part_line_head using quoted_text [of "''; name=''" n head "[]"] n by (simp add: head_props)
  ultimately show ?thesis by (simp add: disposition_def Field part_key_def part_orig_def)
next
  case (Upload n f c)
  let ?t = "''; filename='' @ DQ # f @ [DQ]"
  have n: "CHR '';'' \<notin> set n" "DQ \<notin> set n" "DQ \<notin> set f" using assms Upload by (auto simp: ok_part_def)
  have "strcasestr (part_line p) ''content-disposition'' = Some 0"
    unfolding strcasestr_prefix Upload part_line_head by (rule head_prefix)
  moreover have "strcasestr (part_line p) name_needle = Some 30"
    unfolding Upload part_line_head by (rule find_name)
  moreover have "strcasestr (part_line p) file_needle = Some (39 + length n)"
    unfolding Upload part_line_head
    using pass_name [OF n(1), of ?t]
      strcasestr_loop_here [of file_needle ?t None file_needle "39 + length n"]
    by (simp del: strcasestr_loop.simps)
  moreover have "quoted (part_line p) 30 = Inr n"
    unfolding Upload part_line_head using quoted_text [of "''; name=''" n head ?t] n by (simp add: head_props)
  moreover have "quoted (part_line p) (39 + length n) = Inr f"
    unfolding Upload part_line_head
    using quoted_text [of "''; filename=''" f "head @ ''; name='' @ DQ # n @ [DQ]" "[]"] n
    by (simp add: head_props add_ac)
  ultimately show ?thesis by (simp add: disposition_def Upload part_key_def part_orig_def)
qed

section \<open>One chunk\<close>

lemma part_line_clean:
  "ok_part bd p \<Longrightarrow> NUL \<notin> set (part_line p) \<and> LF \<notin> set (part_line p) \<and> part_line p \<noteq> []"
  by (cases p) (auto simp: ok_part_def part_line_def)

lemma chunk_lines_part:
  assumes "ok_part bd p" "pre \<noteq> []"
  shows "chunk_lines (pre @ chunk_text p @ NUL # post) (length pre) SEol SEol =
    Inr (pre @ part_line p @ [NUL, LF] @ [NUL, LF] @ part_content p @ NUL # post,
      length pre + length (part_line p) + 4, part_key p, part_orig p)"
proof -
  let ?L = "part_line p" and ?c = "part_content p @ NUL # post"
  note L = part_line_clean [OF assms(1)]
  let ?b0 = "pre @ ?L @ [CR, LF] @ [CR, LF] @ ?c"
  let ?b1 = "pre @ ?L @ [NUL, LF] @ [CR, LF] @ ?c"
  let ?b2 = "pre @ ?L @ [NUL, LF] @ [NUL, LF] @ ?c"
  have i0: "bindex LF ?b0 (length pre) = Inr (Some (length pre + length ?L + 1))"
    using bindex_line [of LF "?L @ [CR]" pre "[CR, LF] @ ?c"] L by simp
  have i1: "bindex LF ?b1 (length pre + length ?L + 2) = Inr (Some (length pre + length ?L + 3))"
    using bindex_line [of LF "[CR]" "pre @ ?L @ [NUL, LF]" ?c] by (simp add: add_ac)
  have r1: "hd ?L \<noteq> NUL" using L by (metis hd_in_set)
  then have r2: "rd ?b1 (length pre) = Inr (hd ?L)"
    using L by (auto simp: rd_def nth_append hd_conv_nth)
  have s1: "cstr ?b1 (length pre) = ?L"
    using L by (simp add: cstr_def takeWhile_stop takeWhile_no)
  have 2: "chunk_lines ?b1 (length pre + length ?L + 2) (part_key p) (part_orig p) =
      Inr (?b2, length pre + length ?L + 4, part_key p, part_orig p)"
    by (subst chunk_lines.simps) (simp add: i1 [simplified] rd_def wr_def nth_append list_update_append numeral_eq_Suc)
  have "chunk_lines ?b0 (length pre) SEol SEol = chunk_lines ?b1 (length pre + length ?L + 2) (part_key p) (part_orig p)"
    using i0 r1 r2 s1 disposition_part [OF assms(1), of SEol]
    by (subst chunk_lines.simps) (simp add: rd_def wr_def nth_append list_update_append)
  then show ?thesis using 2 by (simp add: chunk_text_def)
qed

lemma process_chunk_part:
  assumes "ok_part bd p" "pre \<noteq> []"
  obtains mid where "length mid = length (chunk_text p)"
    "process_chunk env k (pre @ chunk_text p @ NUL # post) (length pre) (length (chunk_text p)) =
      (part_files env k p, Inr (pre @ mid @ NUL # post, part_value env k p))"
proof
  let ?mid = "part_line p @ [NUL, LF] @ [NUL, LF] @ part_content p"
  show "length ?mid = length (chunk_text p)" by (simp add: chunk_text_def)
  have "length (chunk_text p) = length (part_line p) + 4 + length (part_content p)"
    by (simp add: chunk_text_def)
  then show "process_chunk env k (pre @ chunk_text p @ NUL # post) (length pre) (length (chunk_text p)) =
      (part_files env k p, Inr (pre @ ?mid @ NUL # post, part_value env k p))"
    unfolding process_chunk_def chunk_lines_part [OF assms]
    by (cases p) (simp_all add: part_files_def part_value_def part_key_def part_orig_def part_content_def)
qed

section \<open>All chunks\<close>

lemma memscan_found:
  assumes "\<And>j. j < length x \<Longrightarrow> \<not> prefix needle (drop j x @ needle @ y)"
    and "length x + length needle \<le> fld"
  shows "memscan (pre @ x @ needle @ y) (length pre) fld needle = Inr (Some (length pre + length x))"
  using assms
proof (induction x arbitrary: pre fld)
  case Nil
  then show ?case by (subst memscan.simps) simp
next
  case (Cons c x)
  have "\<not> prefix needle (drop 0 (c # x) @ needle @ y)" by (rule Cons.prems(1)) simp
  then have "take (length needle) (c # x @ needle @ y) \<noteq> needle"
    by (metis append_Cons drop0 take_is_prefix)
  moreover have "memscan ((pre @ [c]) @ x @ needle @ y) (length (pre @ [c])) (fld - 1) needle =
      Inr (Some (length (pre @ [c]) + length x))"
  proof (rule Cons.IH)
    show "\<not> prefix needle (drop j x @ needle @ y)" if "j < length x" for j
      using Cons.prems(1) [of "Suc j"] that by simp
  qed (use Cons.prems in auto)
  ultimately show ?case using Cons.prems(2) by (subst memscan.simps) simp
qed

lemma no_early_delimiter:
  assumes "\<not> sublist (CR # r) x" "CR \<notin> set r" "j < length x"
  shows "\<not> prefix (CR # r) (drop j x @ (CR # r) @ y)"
proof
  let ?u = "drop j x"
  assume p: "prefix (CR # r) (?u @ (CR # r) @ y)"
  show False
  proof (cases "length (CR # r) \<le> length ?u")
    case True
    then have "prefix (CR # r) ?u" using p by (metis prefix_length_prefix prefixI)
    then have "sublist (CR # r) x"
      by (metis append_take_drop_id prefix_imp_sublist sublist_append)
    then show False using assms(1) by simp
  next
    case False
    obtain zs where e: "?u @ (CR # r) @ y = (CR # r) @ zs" using p by (auto elim: prefixE)
    have "(CR # r) ! length ?u = ((CR # r) @ zs) ! length ?u"
      using False by (simp only: nth_append not_le if_True)
    also have "\<dots> = (?u @ CR # (r @ y)) ! length ?u" using e by (simp only: append_Cons)
    also have "\<dots> = CR" by (rule nth_append_length)
    finally have "(CR # r) ! length ?u = CR" .
    moreover have "0 < length ?u" using assms(3) by simp
    ultimately have "r ! (length ?u - 1) = CR" by (simp add: nth_Cons')
    then show False using assms(2) False \<open>0 < length ?u\<close> by (metis (no_types, lifting) One_nat_def Suc_pred length_Cons not_less_eq_eq nth_mem Suc_le_eq not_le)
  qed
qed

lemma memscan_padding:
  assumes "fld = length needle" "needle \<noteq> []" "hd needle \<noteq> NUL"
  shows "memscan (pre @ replicate m NUL) (length pre) fld needle =
    (if length needle \<le> m then Inr None else Inl BadAccess)"
proof -
  have "take (length needle) (replicate m NUL) \<noteq> needle"
    using assms by (cases needle; cases m) auto
  moreover have "memscan (pre @ replicate m NUL) (Suc (length pre)) (fld - 1) needle = Inr None"
    using assms by (cases needle; subst memscan.simps) simp_all
  ultimately show ?thesis
    using assms by (cases "length needle \<le> m"; subst memscan.simps) (simp_all add: min_absorb1)
qed

lemma unat_minus: "d \<le> unat w \<Longrightarrow> unat (w - of_nat d) = unat w - d" for w :: "64 word"
  by (metis le_unat_uoi unat_sub word_le_nat_alt)

lemma line_end_index:
  assumes "LF \<notin> set s" "NUL \<notin> set s"
  shows "bindex LF (pre @ s @ line_end ps @ y) (length pre) =
    Inr (Some (length pre + length s + length (line_end ps) - 1))"
  using bindex_line [of LF "s @ butlast (line_end ps)" pre y] assms
  by (cases ps) (simp_all add: line_end_def)

text \<open>The cursor stands at the first remaining part; \<open>fld\<close> is one delimiter too large.\<close>

lemma part_loop_parts:
  assumes "ok_boundary bd" "\<forall>p \<in> set ps. ok_part bd p" "pre \<noteq> []"
    and "unat fld = length (parts_text (delimiter bd) ps) + length (delimiter bd)"
  shows "part_loop env (delimiter bd) k (pre @ parts_text (delimiter bd) ps @ replicate m NUL)
      (length pre) fld q =
    (files_from env k ps,
     if length (delimiter bd) \<le> m then Inr (values_from env k ps q) else Inl BadAccess)"
  using assms
proof (induction ps arbitrary: pre k fld q)
  case Nil
  then have "memscan (pre @ replicate m NUL) (length pre) (unat fld) (delimiter bd) =
    (if length (delimiter bd) \<le> m then Inr None else Inl BadAccess)"
    by (intro memscan_padding) (simp_all add: delimiter_def)
  then show ?case by (subst part_loop.simps) simp
next
  case (Cons p ps)
  let ?rb = "delimiter bd" and ?x = "chunk_text p"
  let ?y = "line_end ps @ parts_text ?rb ps @ replicate m NUL"
  obtain r where rb: "?rb = CR # r" "CR \<notin> set r" "LF \<notin> set (tl r)" "hd r = LF" "r \<noteq> []"
    using Cons.prems(1) by (auto simp: delimiter_def ok_boundary_def)
  have okp: "ok_part bd p" "\<not> sublist ?rb ?x" using Cons.prems(2) by (simp_all add: ok_part_def)
  have scan: "memscan (pre @ ?x @ ?rb @ ?y) (length pre) (unat fld) ?rb = Inr (Some (length pre + length ?x))"
    by (rule memscan_found) (use no_early_delimiter [of r ?x _ ?y] rb okp Cons.prems(4) in auto)
  obtain mid where mid: "length mid = length ?x"
    "process_chunk env k (pre @ ?x @ NUL # r @ ?y) (length pre) (length ?x) =
      (part_files env k p, Inr (pre @ mid @ NUL # r @ ?y, part_value env k p))"
    using process_chunk_part [OF okp(1) Cons.prems(3), of env k "r @ ?y"] by metis
  let ?pre' = "pre @ mid @ NUL # r @ line_end ps"
  have idx: "bindex LF (pre @ mid @ NUL # r @ ?y) (length pre + length ?x + length ?rb) =
      Inr (Some (length ?pre' - 1))"
    using line_end_index [of "[]" "pre @ mid @ NUL # r" ps "parts_text ?rb ps @ replicate m NUL"] mid(1) rb(1)
    by (simp add: add.assoc)
  have le: "0 < length (line_end ps)" by (simp add: line_end_def)
  let ?fld' = "fld - of_nat (length ?pre' - length pre)"
  have "unat ?fld' = length (parts_text ?rb ps) + length ?rb"
    using unat_minus [of "length ?pre' - length pre" fld] Cons.prems(4) rb(1) mid(1) by simp
  then have IH: "part_loop env ?rb (Suc k) (?pre' @ parts_text ?rb ps @ replicate m NUL) (length ?pre') ?fld'
      (SCons (part_value env k p) q) =
    (files_from env (Suc k) ps,
     if length ?rb \<le> m then Inr (values_from env (Suc k) ps (SCons (part_value env k p) q)) else Inl BadAccess)"
    using Cons.prems by (intro Cons.IH) auto
  have store: "wr (pre @ ?x @ ?rb @ ?y) (length pre + length ?x) NUL = Inr (pre @ ?x @ NUL # r @ ?y)"
    by (simp add: wr_def rb(1) list_update_append)
  have next_pre: "Suc (length ?pre' - 1) = length ?pre'" using le by simp
  have "part_loop env ?rb k (pre @ ?x @ ?rb @ ?y) (length pre) fld q =
    bindA (part_files env k p, Inr (pre @ mid @ NUL # r @ ?y, part_value env k p)) (\<lambda>bc.
      part_loop env ?rb (Suc k) (pre @ mid @ NUL # r @ ?y) (length ?pre') ?fld'
        (SCons (part_value env k p) q))"
    by (subst part_loop.simps)
      (simp only: scan bindA_simps option.case store add_diff_cancel_left' mid(2) bindA_pair fst_conv snd_conv
        idx next_pre)
  then show ?case using IH by (simp add: bindA_def)
qed

section \<open>The body as a whole\<close>

lemma to_int32_id: "- (2 ^ 31) \<le> x \<Longrightarrow> x < 2 ^ 31 \<Longrightarrow> to_int32 x = x"
  by (simp add: to_int32_def signed_take_bit_int_eq_self)

lemma read_multi_all:
  assumes "stream es \<noteq> []" "length (stream es) < 2 ^ 31"
  shows "read_multi es (int (length (stream es))) data maplen =
    Some (data @ stream es, maplen + of_nat (length (stream es)))"
  using assms
proof (induction "pending es" arbitrary: es data maplen rule: less_induct)
  case less
  obtain s es' where r: "sys_read 4096 es = (RData s, es')" "s \<noteq> []"
      "stream es = s @ stream es'" "pending es' < pending es"
    using sys_read_data [of es 4096] less.prems by auto
  have c: "to_int32 (int (length (stream es)) - int (length s)) = int (length (stream es'))"
    using to_int32_id [of "int (length (stream es'))"] r(3) less.prems(2) by simp
  show ?case
  proof (cases "stream es' = []")
    case True
    then show ?thesis using r c by (subst read_multi.simps) (simp add: Let_def)
  next
    case False
    then have "read_multi es' (int (length (stream es'))) (data @ s) (maplen + of_nat (length s)) =
        Some ((data @ s) @ stream es', (maplen + of_nat (length s)) + of_nat (length (stream es')))"
      using less.hyps [of es'] r less.prems by simp
    then show ?thesis using r c False by (subst read_multi.simps) (simp add: Let_def add.assoc)
  qed
qed

lemma read_multi_short:
  "read_multi es clength data maplen = Some r \<Longrightarrow> ReadErr \<notin> set es \<Longrightarrow> 0 < clength \<Longrightarrow> clength < 2 ^ 31 \<Longrightarrow>
   clength \<le> int (length (stream es))"
proof (induction rule: read_multi.raw_induct [rotated, consumes 1])
  case (1 f es clength data maplen r)
  show ?case
  proof (cases "stream es = []")
    case True
    then show ?thesis
      using 1(1) [of "[]" clength data maplen r] 1(2-5) by (simp add: sys_read_eof)
  next
    case False
    then obtain s es' where r: "sys_read 4096 es = (RData s, es')" "length s \<le> 4096"
        "stream es = s @ stream es'" "ReadErr \<notin> set es'"
      using sys_read_data [of es 4096] 1(3) by fastforce
    have c: "to_int32 (clength - int (length s)) = clength - int (length s)"
      using 1(4,5) r(2) by (intro to_int32_id) auto
    show ?thesis
    proof (cases "clength \<le> int (length s)")
      case False
      then show ?thesis
        using 1(1) [of es' "clength - int (length s)" "data @ s" "maplen + of_nat (length s)" r] 1(2,4,5) r c
        by (simp add: Let_def)
    qed (use r in simp)
  qed
qed

lemma page_up_bounds: "n \<le> page_up n" "page_up n < n + PAGE"
proof -
  have "n + (PAGE - 1) = page_up n + (n + (PAGE - 1)) mod PAGE"
    unfolding page_up_def by simp
  moreover have "(n + (PAGE - 1)) mod PAGE < PAGE" by (simp add: PAGE_def)
  ultimately show "n \<le> page_up n" "page_up n < n + PAGE" by (auto simp: PAGE_def)
qed

lemma mmap_body:
  assumes "data \<noteq> []" "length data < 2 ^ 31"
  shows "mmap data (of_nat (length data)) =
    Some (data @ replicate (page_up (length data) - length data) NUL)"
proof -
  have u: "unat (of_nat (length data) :: 64 word) = length data"
    using assms(2) by (simp add: unat_of_nat take_bit_nat_eq_self)
  then have "(of_nat (length data) :: 64 word) \<noteq> 0" using assms(1) by (metis length_0_conv unat_0)
  then show ?thesis
    using u assms(2) page_up_bounds [of "length data"] by (simp add: mmap_def min_def)
qed

lemma find_boundary:
  assumes "ok_boundary bd"
  shows "strstr (''multipart/form-data; boundary='' @ bd) ''boundary='' = Some 21"
    "index_of (CHR ''-'') (drop 21 (''multipart/form-data; boundary='' @ bd)) = Some 9"
    "strcat 256 (CRLF @ ''--'') bd = Inr (delimiter bd)"
proof -
  obtain r where "bd = CHR ''-'' # r" using assms by (cases bd) (auto simp: ok_boundary_def)
  then show "index_of (CHR ''-'') (drop 21 (''multipart/form-data; boundary='' @ bd)) = Some 9" by simp
qed (use assms in \<open>simp_all add: ok_boundary_def strcat_def delimiter_def\<close>)

lemma values_from_list:
  "values_from env k ps (scm_of_list q) =
   scm_of_list (rev (map (\<lambda>(i, p). part_value env i p) (enumerate k ps)) @ q)"
proof (induction ps arbitrary: k q)
  case (Cons p ps)
  then show ?case using Cons.IH [of "Suc k" "part_value env k p # q"] by simp
qed simp

lemma files_from_list: "files_from env k ps = concat (map (\<lambda>(i, p). part_files env i p) (enumerate k ps))"
  by (induction ps arbitrary: k) auto

lemma multipart_body_facts:
  assumes "ps \<noteq> []"
  shows "multipart_body bd ps = (''--'' @ bd @ CRLF) @ parts_text (delimiter bd) ps"
    "length (''--'' @ bd @ CRLF) = length (delimiter bd)" "multipart_body bd ps \<noteq> []"
  using assms by (simp_all add: multipart_body_def line_end_def delimiter_def)

lemma parse_mapping_body:
  assumes "ok_boundary bd" "ps \<noteq> []" "\<forall>p \<in> set ps. ok_part bd p" "length (multipart_body bd ps) < 2 ^ 31"
  shows "parse_mapping env (delimiter bd) (multipart_body bd ps @ replicate m NUL)
      (of_nat (length (multipart_body bd ps))) =
    (files_from env 0 ps,
     if length (delimiter bd) \<le> m then Inr (values_from env 0 ps SEol) else Inl BadAccess)"
proof -
  let ?pre = "''--'' @ bd @ CRLF" and ?t = "parts_text (delimiter bd) ps @ replicate m NUL"
  let ?n = "length (multipart_body bd ps)"
  have u: "unat (of_nat ?n :: 64 word) = ?n"
    using assms(4) by (simp add: unat_of_nat take_bit_nat_eq_self)
  have "bindex LF ([] @ (''--'' @ bd @ [CR]) @ LF # ?t) (length ([] :: string)) = Inr (Some (length bd + 3))"
    using assms(1) by (subst bindex_line) (auto simp: ok_boundary_def)
  moreover have "part_loop env (delimiter bd) 0 (?pre @ ?t) (length ?pre) (of_nat ?n) SEol =
    (files_from env 0 ps,
     if length (delimiter bd) \<le> m then Inr (values_from env 0 ps SEol) else Inl BadAccess)"
    using u multipart_body_facts [OF assms(2), of bd] assms(1,3) by (intro part_loop_parts) auto
  ultimately show ?thesis
    using multipart_body_facts(1) [OF assms(2), of bd] by (simp add: parse_mapping_def eval_nat_numeral)
qed

section \<open>Properties\<close>

text \<open>
  C8: multipart round trip. A browser's form with any number of fields and files, sent in any
  pieces, comes back complete: each field as its name and text, each file as its name, the path
  of a temporary file holding exactly its bytes, and its original name, in reverse order. The
  one exception is exact too: when fewer bytes than a delimiter are left on the last page of the
  mapping, the scan behind the closing boundary reads past the mapping.
\<close>

theorem multipart_round_trip:
  assumes "ok_boundary bd" "ps \<noteq> []" "\<forall>p \<in> set ps. ok_part bd p"
    and "stream es = multipart_body bd ps" "length (multipart_body bd ps) < 2 ^ 31"
    and "assq_ref request ''content-length'' = SStr (dec (int (length (multipart_body bd ps))))"
  shows "form_multipart env request es (''multipart/form-data; boundary='' @ bd) =
    Some (concat (map (\<lambda>(i, p). part_files env i p) (enumerate 0 ps)),
      if length (delimiter bd) \<le> page_up (length (multipart_body bd ps)) - length (multipart_body bd ps)
      then Inr (scm_of_list (rev (map (\<lambda>(i, p). part_value env i p) (enumerate 0 ps))))
      else Inl BadAccess)"
proof -
  let ?b = "multipart_body bd ps"
  have len: "request_length request = Inr (int (length ?b))"
    using assms(5) by (intro request_length_dec [OF assms(6)]) auto
  have read: "read_multi es (int (length ?b)) [] 0 = Some (?b, of_nat (length ?b))"
    using read_multi_all [of es "[]" 0] assms(4,5) multipart_body_facts(3) [OF assms(2), of bd] by simp
  have map: "mmap ?b (of_nat (length ?b)) = Some (?b @ replicate (page_up (length ?b) - length ?b) NUL)"
    using multipart_body_facts(3) [OF assms(2)] assms(5) by (rule mmap_body)
  note parse = parse_mapping_body [OF assms(1-3,5), of env "page_up (length ?b) - length ?b"]
  show ?thesis
    unfolding form_multipart_def
    using find_boundary [OF assms(1)] len read map parse
      values_from_list [of env 0 ps "[]"] files_from_list [of env 0 ps] by simp
qed

theorem multipart_round_trip_witness:
  "form_multipart sample_env
       [(''content-length'', SStr (dec (int (length (multipart_body ''-X'' [Field ''a'' ''1'', Upload ''f'' ''n'' ''hey''])))))]
       [Bytes (multipart_body ''-X'' [Field ''a'' ''1'', Upload ''f'' ''n'' ''hey''])]
       ''multipart/form-data; boundary=-X'' =
     Some ([FileE ''/tmp/gusher_payload_1'' ''hey''],
       Inr (scm_of_list [SCons (SSym ''f'') (SCons (SStr ''/tmp/gusher_payload_1'') (SStr ''n'')),
                         SCons (SSym ''a'') (SStr ''1'')]))"
proof -
  let ?ps = "[Field ''a'' ''1'', Upload ''f'' ''n'' ''hey'']"
  have "\<forall>p \<in> set ?ps. ok_part ''-X'' p"
    unfolding ok_part_def strstr_None [symmetric] by code_simp
  moreover have "ok_boundary ''-X''" by code_simp
  moreover have "length (multipart_body ''-X'' ?ps) = 130" by code_simp
  moreover have "map (\<lambda>(i, p). part_value sample_env i p) (enumerate 0 ?ps) =
    [SCons (SSym ''a'') (SStr ''1''), SCons (SSym ''f'') (SCons (SStr ''/tmp/gusher_payload_1'') (SStr ''n''))]"
    by code_simp
  moreover have "concat (map (\<lambda>(i, p). part_files sample_env i p) (enumerate 0 ?ps)) =
    [FileE ''/tmp/gusher_payload_1'' ''hey'']" by code_simp
  moreover have "length (delimiter ''-X'') \<le> page_up 130 - 130" by code_simp
  ultimately show ?thesis
    using multipart_round_trip [of "''-X''" ?ps "[Bytes (multipart_body ''-X'' ?ps)]"
      "[(''content-length'', SStr (dec (int (length (multipart_body ''-X'' ?ps)))))]" sample_env]
    by (simp add: assq_ref_def)
qed

text \<open>
  a boundary parameter of 252 bytes or more, which the client chooses, overflows the 256-byte
  buffer \<open>rboundary\<close>, before a byte of the body is read.
\<close>

theorem long_boundary_overflows:
  assumes "252 \<le> length bd" "take 1 bd = ''-''"
  shows "form_multipart env request es (''multipart/form-data; boundary='' @ bd) =
    Some ([], Inl BadAccess)"
proof -
  obtain r where "bd = CHR ''-'' # r" using assms by (cases bd) auto
  then show ?thesis using assms(1) by (simp add: form_multipart_def strcat_def ret_def)
qed

theorem long_boundary_overflows_witness:
  "form_multipart sample_env [] [] (''multipart/form-data; boundary='' @ replicate 252 (CHR ''-'')) =
     Some ([], Inl BadAccess)"
  by (rule long_boundary_overflows) simp_all

text \<open>
  when the peer closes before it has sent the announced length, the read loop of
  \<open>form_multipart\<close> spins for ever on an empty read, holding its thread.
\<close>

theorem multipart_short_body_hangs:
  assumes "ok_boundary bd" "ReadErr \<notin> set es"
    and "assq_ref request ''content-length'' = SStr (dec n)" "int (length (stream es)) < n" "n < 2 ^ 31"
  shows "form_multipart env request es (''multipart/form-data; boundary='' @ bd) = None"
proof -
  have len: "request_length request = Inr n"
    using assms(4,5) by (intro request_length_dec [OF assms(3)]) auto
  have "read_multi es n [] 0 = None"
    using read_multi_short [of es n "[]" 0] assms(2,4,5) by (cases "read_multi es n [] 0") fastforce+
  then show ?thesis
    unfolding form_multipart_def using find_boundary [OF assms(1)] len by simp
qed

theorem multipart_short_body_hangs_witness:
  "form_multipart sample_env [(''content-length'', SStr (dec 10))] [Bytes ''--'']
     (''multipart/form-data; boundary='' @ ''-X'') = None"
proof -
  have "ok_boundary ''-X''" by code_simp
  then show ?thesis
    using multipart_short_body_hangs [of "''-X''" "[Bytes ''--'']" "[(''content-length'', SStr (dec 10))]" 10 sample_env]
    by (simp add: assq_ref_def)
qed

end
