(* ===== verification/Worker.thy ===== *)
theory Worker
  imports Multipart
begin

text \<open>
  One request from the first byte to the close of the socket: \<open>process_request\<close> (\<open>main.c\<close>) as a
  whole. The value is the list of effects in program order with the way the function ends:
  normally, by a Scheme exception, by a memory fault, or (\<open>None\<close>) not at all. The shape of the
  effect list is what the server relies on, and it is proved here for every input.
\<close>

section \<open>The function\<close>

definition process_request :: "env \<Rightarrow> htable \<Rightarrow> string \<Rightarrow> int \<Rightarrow> inev list \<Rightarrow> unit act option" where
  "process_request env t ipaddr rport es =
     (case build_request es [] of
        Inl e \<Rightarrow> Some (ret (Inl e))
      | Inr ConnClosed \<Rightarrow> Some (ret (Inr ()))
      | Inr (Built request0 es') \<Rightarrow>
          let request = acons ''remote-port'' (SInt rport) (acons ''remote-host'' (SStr ipaddr) request0) in
          (case post_in env request es' of
             None \<Rightarrow> None
           | Some m \<Rightarrow> Some (
               bindA m (\<lambda>query0.
               bindA (if query0 = SBool False
                      then ret (bindR (get_in request) (\<lambda>q. Inr (if q = SBool False then SEol else q)))
                      else ret (Inr query0)) (\<lambda>query.
               bindA (emit Release) (\<lambda>_.
               bindA (ret (run_responder (e_app env) (e_uuid env) t (acons ''query'' query request))) (\<lambda>reply.
                 send_reply (e_show_real env) reply)))))))"

section \<open>The shape of its effects\<close>

fun is_file :: "eff \<Rightarrow> bool" where
  "is_file (FileE p c) = True"
| "is_file _ = False"

fun is_send :: "eff \<Rightarrow> bool" where
  "is_send (SendE m) = True"
| "is_send _ = False"

text \<open>
  Temporary files first; then possibly the release of the frame, sends, and the close exactly
  when the function ends normally behind a release.
\<close>

definition shaped :: "eff list \<Rightarrow> unit res \<Rightarrow> bool" where
  "shaped es r \<longleftrightarrow>
     (\<exists>files sends. list_all is_file files \<and> list_all is_send sends \<and>
        (es = files \<and> (r = Inr () \<longrightarrow> files = []) \<or>
         es = files @ Release # sends \<and> r \<noteq> Inr () \<or>
         es = files @ Release # sends @ [CloseE] \<and> r = Inr ()))"

definition only_files :: "'a act \<Rightarrow> bool" where
  "only_files m \<longleftrightarrow> list_all is_file (fst m)"

definition sends_then_close :: "unit act \<Rightarrow> bool" where
  "sends_then_close m \<longleftrightarrow>
     (\<exists>sends. list_all is_send sends \<and>
        (fst m = sends \<and> snd m \<noteq> Inr () \<or> fst m = sends @ [CloseE] \<and> snd m = Inr ()))"

lemma only_files_ret [simp]: "only_files (ret r)"
  by (simp add: only_files_def)

lemma only_files_bind: "only_files m \<Longrightarrow> (\<And>x. only_files (f x)) \<Longrightarrow> only_files (bindA m f)"
  by (cases "snd m") (simp_all add: only_files_def bindA_def)

lemma only_files_emit [simp]: "only_files (emit (FileE p c))"
  by (simp add: only_files_def)

lemma only_files_bind_ret [simp]: "(\<And>x. only_files (f x)) \<Longrightarrow> only_files (bindA (ret r) f)"
  by (rule only_files_bind) simp_all

lemma process_chunk_files: "only_files (process_chunk env k b chunk len)"
  unfolding process_chunk_def
  by (rule only_files_bind) (auto simp: Let_def only_files_def split: prod.splits)

lemma part_loop_files: "only_files (part_loop env rb k b cursor fld q)"
proof (induction env rb k b cursor fld q rule: part_loop.induct)
  case (1 env rb k b cursor fld q)
  show ?case
  proof (cases "memscan b cursor (unat fld) rb")
    case (Inr r)
    show ?thesis
    proof (cases r)
      case (Some stop)
      show ?thesis
      proof (cases "wr b stop NUL")
        case wr: (Inr b1)
        show ?thesis
        proof (cases "snd (process_chunk env k b1 cursor (stop - cursor))")
          case pc: (Inr bc)
          have "only_files (case nl of None \<Rightarrow> ret (Inl NullDeref) | Some i \<Rightarrow>
              part_loop env rb (Suc k) (fst bc) (Suc i) (fld - of_nat (Suc i - cursor)) (SCons (snd bc) q))"
            if "bindex LF (fst bc) (stop + length rb) = Inr nl" for nl
            using 1 [of r stop b1 bc nl] Inr Some wr pc that by (auto split: option.splits)
          then show ?thesis
            using Inr Some wr pc process_chunk_files [of env k b1 cursor "stop - cursor"]
            by (subst part_loop.simps, cases "bindex LF (fst bc) (stop + length rb)")
              (auto simp: bindA_def only_files_def split: option.splits)
        qed (use Inr Some wr process_chunk_files [of env k b1 cursor "stop - cursor"]
              in \<open>subst part_loop.simps, simp add: bindA_def only_files_def\<close>)
      qed (use Inr Some in \<open>subst part_loop.simps, simp\<close>)
    qed (use Inr in \<open>subst part_loop.simps, simp\<close>)
  qed (subst part_loop.simps, simp)
qed

lemma post_in_files: "post_in env request es = Some m \<Longrightarrow> only_files m"
proof -
  have u: "only_files m" if "form_urlencoded env request es = Some m"
    using that unfolding form_urlencoded_def
    by (auto simp: Let_def only_files_def split: sum.splits option.splits if_splits)
  have p: "only_files (parse_mapping env rb b n)" for rb b n
    unfolding parse_mapping_def
    by (rule only_files_bind) (auto simp: part_loop_files split: option.splits)
  have m: "only_files m" if "form_multipart env request es ct = Some m" for ct
    using that unfolding form_multipart_def
    by (auto simp: p split: sum.splits option.splits)
  show "post_in env request es = Some m \<Longrightarrow> only_files m"
    unfolding post_in_def by (auto simp: Let_def dest: u m split: sum.splits if_splits)
qed

text \<open>Actions that only send, and how they lead up to the close.\<close>

definition only_sends :: "'a act \<Rightarrow> bool" where
  "only_sends m \<longleftrightarrow> list_all is_send (fst m)"

lemma only_sends_ret [simp]: "only_sends (ret r)"
  by (simp add: only_sends_def)

lemma only_sends_emit [simp]: "only_sends (emit (SendE m))"
  by (simp add: only_sends_def)

lemma only_sends_bind: "only_sends m \<Longrightarrow> (\<And>x. only_sends (f x)) \<Longrightarrow> only_sends (bindA m f)"
  by (cases "snd m") (simp_all add: only_sends_def bindA_def)

lemma sends_then_close_bind:
  assumes "only_sends m" "\<And>x. sends_then_close (f x)"
  shows "sends_then_close (bindA m f)"
proof (cases "snd m")
  case (Inl e)
  then show ?thesis using assms(1) by (simp add: sends_then_close_def only_sends_def bindA_def)
next
  case (Inr x)
  from assms(2) [of x] obtain sends where "list_all is_send sends"
    "fst (f x) = sends \<and> snd (f x) \<noteq> Inr () \<or> fst (f x) = sends @ [CloseE] \<and> snd (f x) = Inr ()"
    unfolding sends_then_close_def by blast
  then show ?thesis
    using Inr assms(1) unfolding sends_then_close_def
    by (intro exI [of _ "fst m @ sends"]) (auto simp: only_sends_def bindA_def)
qed

lemma send_headers_sends: "only_sends (send_headers show_real hs)"
  by (induction show_real hs rule: send_headers.induct)
    (simp_all only: send_headers.simps only_sends_ret only_sends_emit only_sends_bind)

lemma send_reply_close: "sends_then_close (send_reply show_real reply)"
proof -
  have close: "sends_then_close (emit CloseE)" by (simp add: sends_then_close_def)
  show ?thesis
    unfolding send_reply_def Let_def
    by (intro sends_then_close_bind only_sends_ret only_sends_emit send_headers_sends close)
qed

lemma shaped_files: "list_all is_file es \<Longrightarrow> (r = Inr () \<Longrightarrow> es = []) \<Longrightarrow> shaped es r"
  unfolding shaped_def by (rule exI [of _ es], rule exI [of _ "[]"]) auto

lemma process_request_shaped:
  assumes "process_request env t ipaddr rport es = Some (effs, r)"
  shows "shaped effs r"
proof (cases "build_request es []")
  case (Inl e)
  then show ?thesis using assms by (intro shaped_files) (auto simp: process_request_def)
next
  case (Inr b)
  show ?thesis
  proof (cases b)
    case ConnClosed
    then show ?thesis using assms Inr by (intro shaped_files) (auto simp: process_request_def)
  next
    case (Built request0 es')
    let ?request = "acons ''remote-port'' (SInt rport) (acons ''remote-host'' (SStr ipaddr) request0)"
    obtain m where m: "post_in env ?request es' = Some m"
      using assms Inr Built by (auto simp: process_request_def Let_def split: option.splits)
    note files = post_in_files [OF m, unfolded only_files_def]
    show ?thesis
    proof (cases "snd m")
      case (Inl e)
      then have "effs = fst m" "r = Inl e"
        using assms Inr Built m by (simp_all add: process_request_def Let_def bindA_def)
      then show ?thesis using files by (intro shaped_files) auto
    next
      case q0: (Inr query0)
      let ?q = "if query0 = SBool False
        then bindR (get_in ?request) (\<lambda>q. Inr (if q = SBool False then SEol else q)) else Inr query0"
      let ?go = "\<lambda>query. bindA (emit Release) (\<lambda>_.
        bindA (ret (run_responder (e_app env) (e_uuid env) t (acons ''query'' query ?request))) (\<lambda>reply.
          send_reply (e_show_real env) reply))"
      have e: "(effs, r) = (fst m @ fst (bindA (ret ?q) ?go), snd (bindA (ret ?q) ?go))"
        using assms Inr Built m q0 by (simp add: process_request_def Let_def bindA_def if_distrib)
      show ?thesis
      proof (cases ?q)
        case (Inl e')
        then show ?thesis using e files by (intro shaped_files) auto
      next
        case (Inr query)
        let ?rest = "bindA (ret (run_responder (e_app env) (e_uuid env) t (acons ''query'' query ?request))) (\<lambda>reply.
          send_reply (e_show_real env) reply)"
        have "sends_then_close ?rest"
          by (intro sends_then_close_bind only_sends_ret send_reply_close)
        then obtain sends where "list_all is_send sends"
          "fst ?rest = sends \<and> snd ?rest \<noteq> Inr () \<or> fst ?rest = sends @ [CloseE] \<and> snd ?rest = Inr ()"
          unfolding sends_then_close_def by blast
        moreover have "effs = fst m @ Release # fst ?rest" "r = snd ?rest"
          using e Inr by simp_all
        ultimately show ?thesis using files unfolding shaped_def by fastforce
      qed
    qed
  qed
qed

section \<open>A request without a body\<close>

text \<open>The names that the request line puts into the request; a header of that name hides it.\<close>

definition plain_headers :: "(string \<times> string) list \<Rightarrow> bool" where
  "plain_headers hs \<longleftrightarrow>
     list_all (\<lambda>h. downcase (fst h) \<notin> {''method'', ''url-path'', ''query-string''}) hs"

definition url_path :: "string \<Rightarrow> string" where
  "url_path target = takeWhile (\<lambda>c. c \<noteq> CHR ''?'') target"

definition url_query :: "string \<Rightarrow> string" where
  "url_query target = tl (dropWhile (\<lambda>c. c \<noteq> CHR ''?'') target)"

text \<open>The request as \<open>process_request\<close> hands it to \<open>run_responder\<close>.\<close>

definition get_request :: "string \<Rightarrow> int \<Rightarrow> string \<Rightarrow> string \<Rightarrow> (string \<times> string) list \<Rightarrow> alist" where
  "get_request ipaddr rport meth target hs =
     acons ''query'' (scm_of_alist (rev (query_pairs (url_query target))))
       (acons ''remote-port'' (SInt rport) (acons ''remote-host'' (SStr ipaddr)
         (header_fields hs @ line_fields meth target)))"

lemma assq_ref_header_fields:
  "\<forall>h \<in> set hs. downcase (fst h) \<noteq> k \<Longrightarrow> assq_ref (header_fields hs @ al) k = assq_ref al k"
proof -
  assume "\<forall>h \<in> set hs. downcase (fst h) \<noteq> k"
  then have "map_of (header_fields hs) k = None"
    by (auto simp: header_fields_def map_of_eq_None_iff)
  then show ?thesis by (simp add: assq_ref_def map_add_def split: option.splits)
qed

lemma line_fields_assq:
  "assq_ref (line_fields meth target) ''method'' = (if take 1 meth = ''P'' then SSym ''post'' else SSym ''get'')"
  "assq_ref (line_fields meth target) ''url-path'' = SStr (url_path target)"
  "assq_ref (line_fields meth target) ''query-string'' = SStr (url_query target)"
  by (simp_all add: assq_ref_def line_fields_def url_path_def url_query_def)

lemma scm_of_alist_not_False [simp]: "scm_of_alist al \<noteq> SBool False"
  by (cases al) (auto simp: scm_of_alist_def)

lemma process_get:
  assumes "stream es = request_line meth target version @ CRLF @ render_headers hs @ CRLF @ body"
    and "ok_request_line meth target version" "\<forall>h \<in> set hs. ok_header h" "plain_headers hs"
    and "take 1 meth \<noteq> ''P''" "well_escaped (url_query target)"
  shows "process_request env t ipaddr rport es =
    Some (bindA (emit Release) (\<lambda>_.
      bindA (ret (run_responder (e_app env) (e_uuid env) t (get_request ipaddr rport meth target hs)))
        (send_reply (e_show_real env))))"
proof -
  let ?base = "header_fields hs @ line_fields meth target"
  let ?req = "acons ''remote-port'' (SInt rport) (acons ''remote-host'' (SStr ipaddr) ?base)"
  obtain es' where b: "build_request es [] = Inr (Built ?base es')"
    using build_request_complete [OF assms(1-3)] by blast
  have hs: "\<forall>h \<in> set hs. downcase (fst h) \<noteq> k" if "k \<in> {''method'', ''url-path'', ''query-string''}" for k
    using assms(4) that by (auto simp: plain_headers_def list_all_iff)
  have q: "assq_ref ?req ''method'' = SSym ''get''" "assq_ref ?req ''query-string'' = SStr (url_query target)"
    using assms(5) by (simp_all add: assq_ref_header_fields hs line_fields_assq)
  obtain b' where "parse_query (url_query target @ [NUL]) = Inr (rev (query_pairs (url_query target)), b')"
    using parse_query_pairs [OF assms(6), of "[]"] by blast
  moreover have "NUL \<notin> set (url_query target)" using assms(6) by (simp add: well_escaped_def)
  ultimately have g: "get_in ?req = Inr (scm_of_alist (rev (query_pairs (url_query target))))"
    using q by (simp add: get_in_def)
  have "post_in env ?req es' = Some (ret (Inr (SBool False)))" using q by (simp add: post_in_def)
  then show ?thesis
    using b g by (simp add: process_request_def get_request_def Let_def)
qed

lemma find_handler_get:
  assumes "ok_request_line meth target version" "plain_headers hs"
  shows "find_handler t (get_request ipaddr rport meth target hs) =
    Inr (case find_entry (handlers t) (url_path target) of
           Some (h, rest) \<Rightarrow> SCons h (SStr rest) | None \<Rightarrow> SBool False)"
proof -
  have "\<forall>h \<in> set hs. downcase (fst h) \<noteq> ''url-path''"
    using assms(2) by (auto simp: plain_headers_def list_all_iff)
  then have "assq_ref (get_request ipaddr rport meth target hs) ''url-path'' = SStr (url_path target)"
    by (simp add: get_request_def assq_ref_header_fields line_fields_assq)
  moreover have "NUL \<notin> set (url_path target)"
    using assms(1) by (auto simp: ok_request_line_def clean_def url_path_def dest: set_takeWhileD)
  ultimately show ?thesis by (simp add: find_handler_def)
qed

text \<open>The cookie header of the reply: only a request without a session gets one.\<close>

definition new_cookie :: "env \<Rightarrow> string option \<Rightarrow> (string \<times> scm) option" where
  "new_cookie env ck =
     (case ck of Some k \<Rightarrow> None | None \<Rightarrow> Some (''set-cookie'', SStr (cookie_text (put_uuid (e_uuid env)))))"

definition session_of :: "env \<Rightarrow> string option \<Rightarrow> string" where
  "session_of env ck = (case ck of Some k \<Rightarrow> k | None \<Rightarrow> put_uuid (e_uuid env))"

lemma run_responder_found:
  assumes "find_handler t request = Inr (SCons h info)" "session_cookie request = Inr ck"
  shows "run_responder app uuid t request =
    bindR (app h (scm_of_alist (acons ''path-info'' info (acons ''session''
        (SStr (case ck of Some k \<Rightarrow> k | None \<Rightarrow> put_uuid uuid)) request)))) (\<lambda>reply.
      Inr (SCons (cookie_pair (case ck of Some k \<Rightarrow> None
                               | None \<Rightarrow> Some (''set-cookie'', SStr (cookie_text (put_uuid uuid))))) reply))"
  using assms by (cases ck) (simp_all add: run_responder_def cookie_pair_def)

section \<open>Properties\<close>



text \<open>
  a path for which no handler is registered is answered with the stock 404 page, without
  calling the application.
\<close>

theorem unknown_path_not_found:
  assumes "stream es = request_line meth target version @ CRLF @ render_headers hs @ CRLF @ body"
    and "ok_request_line meth target version" "\<forall>h \<in> set hs. ok_header h" "plain_headers hs"
    and "take 1 meth \<noteq> ''P''" "well_escaped (url_query target)"
    and "find_entry (handlers t) (url_path target) = None"
  shows "\<exists>effs. process_request env t ipaddr rport es = Some (Release # effs @ [CloseE], Inr ()) \<and>
    CloseE \<notin> set effs \<and>
    sent effs = reply_text ''404 Not Found'' [(''content-type'', ''text/plain'')] ''Not Found''"
proof -
  let ?req = "get_request ipaddr rport meth target hs" and ?hs = "[(''content-type'', SStr ''text/plain'')]"
  have "run_responder (e_app env) (e_uuid env) t ?req =
      Inr (SCons (cookie_pair None) (response ''404 Not Found'' (scm_headers ?hs) (SStr ''Not Found'')))"
    using find_handler_get [OF assms(2,4)] assms(7)
    by (simp add: run_responder_def default_not_found_def cookie_pair_def scm_headers_def)
  moreover have l: "list_all2 (header_ok (e_show_real env)) (with_cookie None ?hs) [(''content-type'', ''text/plain'')]"
    by (simp add: with_cookie_def header_ok_def hvalue_def)
  ultimately show ?thesis
    using process_get [OF assms(1-6), of env t ipaddr rport]
      send_reply_text [of "''404 Not Found''" "''Not Found''", OF _ _ l] by auto
qed

theorem unknown_path_not_found_witness:
  "\<exists>effs. process_request sample_env empty_table ''10.0.0.1'' 4000 [Bytes (''GET /x HTTP/1.0'' @ CRLF @ CRLF)] =
     Some (Release # effs @ [CloseE], Inr ()) \<and>
     sent effs = ''HTTP/1.1 404 Not Found'' @ CRLF @ ''content-length: 9'' @ CRLF @ ''content-type: text/plain'' @
       CRLF @ CRLF @ ''Not Found''"
proof -
  have s: "stream [Bytes (''GET /x HTTP/1.0'' @ CRLF @ CRLF)] =
      request_line ''GET'' ''/x'' ''HTTP/1.0'' @ CRLF @ render_headers [] @ CRLF @ []"
    by (simp add: request_line_def render_headers_def)
  have l: "ok_request_line ''GET'' ''/x'' ''HTTP/1.0''"
    by (simp add: ok_request_line_def clean_def request_line_def BUF_SIZE_def)
  have p: "plain_headers []" "well_escaped (url_query ''/x'')" by code_simp+
  have f: "find_entry (handlers empty_table) (url_path ''/x'') = None" by code_simp
  have "reply_text ''404 Not Found'' [(''content-type'', ''text/plain'')] ''Not Found'' =
      ''HTTP/1.1 404 Not Found'' @ CRLF @ ''content-length: 9'' @ CRLF @ ''content-type: text/plain'' @
       CRLF @ CRLF @ ''Not Found''" by code_simp
  moreover have "\<exists>effs. process_request sample_env empty_table ''10.0.0.1'' 4000 [Bytes (''GET /x HTTP/1.0'' @ CRLF @ CRLF)] =
      Some (Release # effs @ [CloseE], Inr ()) \<and> CloseE \<notin> set effs \<and>
      sent effs = reply_text ''404 Not Found'' [(''content-type'', ''text/plain'')] ''Not Found''"
    by (rule unknown_path_not_found [OF s l _ p(1) _ p(2) f]) simp_all
  ultimately show ?thesis by auto
qed

text \<open>
  C26: the order of effects, for every input whatsoever: files of a POST body come first, the
  frame is released at most once, nothing is sent before the release, and the socket is closed
  exactly when the function returns normally after a release, as the last thing it does. So
  every reply that is cut off by an exception or a fault leaves the socket to the caller.
\<close>

theorem process_request_effects:
  assumes "process_request env t ipaddr rport es = Some (effs, r)"
  shows "shaped effs r"
  using assms by (rule process_request_shaped)

theorem process_request_effects_witness:
  "\<exists>effs r. process_request sample_env empty_table ''10.0.0.1'' 4000 [ReadErr] = Some (effs, r) \<and> shaped effs r"
proof -
  have "process_request sample_env empty_table ''10.0.0.1'' 4000 [ReadErr] = Some ([], Inr ())"
    by (simp add: process_request_def build_request.simps mygetline.simps BUF_SIZE_def)
  then show ?thesis using process_request_effects by blast
qed

text \<open>
  a peer that closes before it has sent one complete line ends \<open>process_request\<close> by the early
  return: the socket is not closed and the frame is not released, so both are lost.
\<close>

theorem early_close_leaks:
  assumes "ReadErr \<notin> set es" "LF \<notin> set (stream es)" "length (stream es) < BUF_SIZE"
  shows "process_request env t ipaddr rport es = Some ([], Inr ())"
proof -
  have "\<exists>es'. mygetline BUF_SIZE es acc = Inr (GETLINE_PEER_CLOSED, es')"
    if "ReadErr \<notin> set es" "LF \<notin> set (stream es)" "length acc + length (stream es) < BUF_SIZE" for es acc
    using that
  proof (induction "stream es" arbitrary: es acc)
    case Nil
    then show ?case using sys_read_eof [of es 1] by (subst mygetline.simps) auto
  next
    case (Cons c cs)
    then obtain s es' where r: "sys_read 1 es = (RData s, es')" "s \<noteq> []" "length s \<le> 1"
        "stream es = s @ stream es'" "ReadErr \<notin> set es'"
      using sys_read_data [of es 1] by fastforce
    then have s: "s = [c]" "stream es' = cs" using Cons.hyps(2) by (cases s, auto)+
    then have "\<exists>es''. mygetline BUF_SIZE es' (acc @ [c]) = Inr (GETLINE_PEER_CLOSED, es'')"
      using Cons r by (intro Cons.hyps(1)) auto
    moreover have "c \<noteq> LF" using Cons.prems(2) Cons.hyps(2) [symmetric] by auto
    ultimately show ?case using r s Cons by (subst mygetline.simps) auto
  qed
  then obtain es' where "mygetline BUF_SIZE es [] = Inr (GETLINE_PEER_CLOSED, es')"
    using assms by force
  then have "build_request es [] = Inr ConnClosed" by (subst build_request.simps) simp
  then show ?thesis by (simp add: process_request_def ret_def)
qed

theorem early_close_leaks_witness:
  "process_request sample_env empty_table ''10.0.0.1'' 4000 [Bytes ''GET /a HT''] = Some ([], Inr ())"
  by (rule early_close_leaks) (simp_all add: BUF_SIZE_def)

end
