(* ===== verification/Server.thy ===== *)
theory Server
  imports Frames Worker
begin

text \<open>
  The threaded server (\<open>main.c\<close>): \<open>process_http\<close> on the main thread, \<open>add_thread\<close>, the loop of
  \<open>dispatcher\<close> with \<open>body_req\<close> and \<open>catch_req\<close>, as interleaved steps on the shared state. Code
  under a mutex is one step; code outside is split at every access to something shared: the main
  thread fills the frame in a step of its own, the decrement of \<open>busy_threads\<close> is a read and a
  store, \<open>catch_req\<close> reads \<open>frame->sock\<close> twice. A dispatcher that waits on its condition variable
  looks at the queue again at the latest after a second, so every waiting thread may take a frame; \<open>Wakeup\<close> has the
  condition variables and refines this.

  \<open>conns\<close> is the kernel's table of open sockets: descriptor to connection number. The behaviour
  of \<open>process_request\<close> on a connection is the parameter \<open>work\<close>; the locale \<open>request_worker\<close> says what
  the server needs of it, and it is interpreted with \<open>Worker.process_request\<close>.
\<close>

section \<open>State\<close>

datatype main_pc =
    MIdle
  | MGot nat int nat
  | MFilled nat

datatype worker =
    Waiting
  | Serving nat int "eff list" "unit res"
  | Catching nat
  | Closing nat
  | Ending
  | Storing int
  | Hung

record server =
  sv_frames :: frames
  nthreads :: nat
  busy_threads :: int
  max_threads :: nat
  tcount :: nat
  conns :: "int \<rightharpoonup> nat"
  nconns :: nat
  main_pc :: main_pc
  workers :: "worker list"
  out :: "(nat option \<times> string) list"
  taken :: "nat list"
  crashed :: bool

type_synonym work = "nat \<Rightarrow> string \<Rightarrow> int \<Rightarrow> (eff list \<times> unit res) option"

definition init_server :: "nat \<Rightarrow> server" where
  "init_server maxt =
     \<lparr>sv_frames = init_frames True, nthreads = 0, busy_threads = 0, max_threads = maxt, tcount = 0,
      conns = Map.empty, nconns = 0, main_pc = MIdle, workers = [], out = [], taken = [], crashed = False\<rparr>"

definition err_msg :: string where
  "err_msg = ''HTTP/1.1 500 Internal Server Error'' @ CRLF @ ''Content-type: text/plain'' @ CRLF @ CRLF @
     ''Gusher application error. Someone will attend to this soon, if they aren'' @ [CHR 0x27] @
     ''t already.'' @ CRLF"

section \<open>The main thread\<close>

text \<open>\<open>process_http\<close> up to \<open>get_frame\<close>: \<open>fd\<close> is the descriptor that \<open>accept\<close> returns.\<close>

definition accept_conn :: "rframe \<Rightarrow> int \<Rightarrow> server \<Rightarrow> server res" where
  "accept_conn junk fd s =
     bindR (get_frame junk (sv_frames s)) (\<lambda>(a, fr).
       Inr (s\<lparr>sv_frames := fr, conns := (conns s)(fd \<mapsto> nconns s), nconns := Suc (nconns s),
              main_pc := MGot a fd (nconns s)\<rparr>))"

definition fill_frame :: "(nat \<Rightarrow> string \<times> int) \<Rightarrow> nat \<Rightarrow> int \<Rightarrow> nat \<Rightarrow> server \<Rightarrow> server res" where
  "fill_frame peer a fd c s =
     bindR (deref (heap (sv_frames s)) a) (\<lambda>f.
       let f' = f\<lparr>fr_sock := fd, fr_ipaddr := fst (peer c), fr_rport := snd (peer c), fr_count := tcount s\<rparr>
       in Inr (s\<lparr>sv_frames := (sv_frames s)\<lparr>heap := (heap (sv_frames s))[a := Some f']\<rparr>,
                main_pc := MFilled a\<rparr>))"

definition add_thread :: "server \<Rightarrow> server" where
  "add_thread s =
     (if nthreads s \<ge> max_threads s then s
      else s\<lparr>nthreads := Suc (nthreads s), workers := workers s @ [Waiting]\<rparr>)"

text \<open>\<open>main\<close> starts one dispatcher for each processor, as far as the maximum allows.\<close>

primrec start_threads :: "nat \<Rightarrow> server \<Rightarrow> server" where
  "start_threads 0 s = s"
| "start_threads (Suc n) s = start_threads n (add_thread s)"

definition queue_frame :: "nat \<Rightarrow> server \<Rightarrow> server res" where
  "queue_frame a s =
     (let s1 = (if busy_threads s \<ge> int (nthreads s) then add_thread s else s) in
      bindR (enqueue_frame (sv_frames s1) a) (\<lambda>(fr, need_sig).
        Inr (s1\<lparr>sv_frames := fr, tcount := Suc (tcount s1), main_pc := MIdle\<rparr>)))"

section \<open>A dispatcher thread\<close>

definition set_worker :: "nat \<Rightarrow> worker \<Rightarrow> server \<Rightarrow> server" where
  "set_worker i w s = s\<lparr>workers := (workers s)[i := w]\<rparr>"

text \<open>A read from a descriptor that is not open fails, which ends \<open>process_request\<close> at once.\<close>

definition start_work :: "work \<Rightarrow> server \<Rightarrow> rframe \<Rightarrow> (eff list \<times> unit res) option" where
  "start_work work s f =
     (case conns s (fr_sock f) of
        None \<Rightarrow> Some ([], Inr ())
      | Some c \<Rightarrow> work c (fr_ipaddr f) (fr_rport f))"

definition take_frame :: "work \<Rightarrow> nat \<Rightarrow> server \<Rightarrow> server res" where
  "take_frame work i s =
     bindR (dequeue_frame (sv_frames s)) (\<lambda>(r, fr).
       case r of
         None \<Rightarrow> Inr s
       | Some a \<Rightarrow>
           bindR (deref (heap fr) a) (\<lambda>f.
             Inr (set_worker i
                    (case start_work work s f of
                       None \<Rightarrow> Hung
                     | Some (es, r) \<Rightarrow> Serving a (fr_sock f) es r)
                    (s\<lparr>sv_frames := fr, busy_threads := busy_threads s + 1, taken := taken s @ [fr_count f]\<rparr>))))"

definition send_to :: "int \<Rightarrow> string \<Rightarrow> server \<Rightarrow> server" where
  "send_to fd m s = s\<lparr>out := out s @ [(conns s fd, m)]\<rparr>"

definition close_fd :: "int \<Rightarrow> server \<Rightarrow> server" where
  "close_fd fd s = s\<lparr>conns := (conns s)(fd := None)\<rparr>"

definition perform :: "nat \<Rightarrow> int \<Rightarrow> eff \<Rightarrow> server \<Rightarrow> server res" where
  "perform a fd e s =
     (case e of
        Release \<Rightarrow> bindR (release_frame (sv_frames s) a) (\<lambda>fr. Inr (s\<lparr>sv_frames := fr\<rparr>))
      | SendE m \<Rightarrow> Inr (send_to fd m s)
      | CloseE \<Rightarrow> Inr (close_fd fd s)
      | FileE p c \<Rightarrow> Inr s)"

text \<open>\<open>catch_req\<close>: both uses of the socket go through the frame.\<close>

definition catch_send :: "nat \<Rightarrow> server \<Rightarrow> server res" where
  "catch_send a s = bindR (deref (heap (sv_frames s)) a) (\<lambda>f. Inr (send_to (fr_sock f) err_msg s))"

definition catch_close :: "nat \<Rightarrow> server \<Rightarrow> server res" where
  "catch_close a s = bindR (deref (heap (sv_frames s)) a) (\<lambda>f. Inr (close_fd (fr_sock f) s))"

section \<open>Steps\<close>

inductive sstep :: "work \<Rightarrow> (nat \<Rightarrow> string \<times> int) \<Rightarrow> server \<Rightarrow> server \<Rightarrow> bool"
  for work :: work and peer :: "nat \<Rightarrow> string \<times> int" where
  accept: "\<not> crashed s \<Longrightarrow> main_pc s = MIdle \<Longrightarrow> conns s fd = None \<Longrightarrow> accept_conn junk fd s = Inr s' \<Longrightarrow>
    sstep work peer s s'"
| fill: "\<not> crashed s \<Longrightarrow> main_pc s = MGot a fd c \<Longrightarrow> fill_frame peer a fd c s = Inr s' \<Longrightarrow>
    sstep work peer s s'"
| queue: "\<not> crashed s \<Longrightarrow> main_pc s = MFilled a \<Longrightarrow> queue_frame a s = Inr s' \<Longrightarrow>
    sstep work peer s s'"
| take: "\<not> crashed s \<Longrightarrow> i < length (workers s) \<Longrightarrow> workers s ! i = Waiting \<Longrightarrow>
    take_frame work i s = Inr s' \<Longrightarrow> sstep work peer s s'"
| effect: "\<not> crashed s \<Longrightarrow> i < length (workers s) \<Longrightarrow> workers s ! i = Serving a fd (e # es) r \<Longrightarrow>
    perform a fd e s = Inr s' \<Longrightarrow> sstep work peer s (set_worker i (Serving a fd es r) s')"
| finish: "\<not> crashed s \<Longrightarrow> i < length (workers s) \<Longrightarrow> workers s ! i = Serving a fd [] (Inr ()) \<Longrightarrow>
    sstep work peer s (set_worker i Ending s)"
| throw: "\<not> crashed s \<Longrightarrow> i < length (workers s) \<Longrightarrow> workers s ! i = Serving a fd [] (Inl (Throw k)) \<Longrightarrow>
    sstep work peer s (set_worker i (Catching a) s)"
| crash: "\<not> crashed s \<Longrightarrow> i < length (workers s) \<Longrightarrow> workers s ! i = Serving a fd [] (Inl e) \<Longrightarrow>
    e = BadAccess \<or> e = NullDeref \<Longrightarrow> sstep work peer s (s\<lparr>crashed := True\<rparr>)"
| catch_send: "\<not> crashed s \<Longrightarrow> i < length (workers s) \<Longrightarrow> workers s ! i = Catching a \<Longrightarrow>
    catch_send a s = Inr s' \<Longrightarrow> sstep work peer s (set_worker i (Closing a) s')"
| catch_close: "\<not> crashed s \<Longrightarrow> i < length (workers s) \<Longrightarrow> workers s ! i = Closing a \<Longrightarrow>
    catch_close a s = Inr s' \<Longrightarrow> sstep work peer s (set_worker i Ending s')"
| read_busy: "\<not> crashed s \<Longrightarrow> i < length (workers s) \<Longrightarrow> workers s ! i = Ending \<Longrightarrow>
    sstep work peer s (set_worker i (Storing (busy_threads s)) s)"
| store_busy: "\<not> crashed s \<Longrightarrow> i < length (workers s) \<Longrightarrow> workers s ! i = Storing v \<Longrightarrow>
    sstep work peer s (set_worker i Waiting (s\<lparr>busy_threads := v - 1\<rparr>))"

text \<open>The states of a server with at most \<open>maxt\<close> threads on \<open>cpus\<close> processors.\<close>

inductive reachable :: "work \<Rightarrow> (nat \<Rightarrow> string \<times> int) \<Rightarrow> nat \<Rightarrow> nat \<Rightarrow> server \<Rightarrow> bool"
  for work :: work and peer :: "nat \<Rightarrow> string \<times> int" and maxt :: nat and cpus :: nat where
  start: "reachable work peer maxt cpus (start_threads cpus (init_server maxt))"
| further: "reachable work peer maxt cpus s \<Longrightarrow> sstep work peer s s' \<Longrightarrow> reachable work peer maxt cpus s'"

section \<open>Who holds which frame\<close>

text \<open>
  A thread holds its frame until it releases it. With \<open>strict\<close>, for applications that do not
  throw once the frame is released, \<open>catch_req\<close> counts as a holder too.
\<close>

definition is_throw :: "unit res \<Rightarrow> bool" where
  "is_throw r = (case r of Inl (Throw k) \<Rightarrow> True | _ \<Rightarrow> False)"

fun mholds :: "main_pc \<Rightarrow> nat set" where
  "mholds MIdle = {}"
| "mholds (MGot a fd c) = {a}"
| "mholds (MFilled a) = {a}"

fun holds :: "bool \<Rightarrow> worker \<Rightarrow> nat set" where
  "holds strict (Serving a fd es r) = (if Release \<in> set es \<or> strict \<and> is_throw r then {a} else {})"
| "holds strict (Catching a) = (if strict then {a} else {})"
| "holds strict (Closing a) = (if strict then {a} else {})"
| "holds strict _ = {}"

fun wptr :: "worker \<Rightarrow> nat set" where
  "wptr (Serving a fd es r) = {a}"
| "wptr (Catching a) = {a}"
| "wptr (Closing a) = {a}"
| "wptr _ = {}"

fun wshape :: "bool \<Rightarrow> worker \<Rightarrow> bool" where
  "wshape strict (Serving a fd es r) \<longleftrightarrow>
     count_list es Release \<le> 1 \<and> (strict \<and> is_throw r \<longrightarrow> Release \<notin> set es)"
| "wshape strict _ \<longleftrightarrow> True"

definition disjoint_by :: "('a \<Rightarrow> 'b set) \<Rightarrow> 'a list \<Rightarrow> bool" where
  "disjoint_by f xs \<longleftrightarrow> (\<forall>i < length xs. \<forall>j < length xs. i \<noteq> j \<longrightarrow> f (xs ! i) \<inter> f (xs ! j) = {})"

lemma disjoint_by_update:
  "disjoint_by f xs \<Longrightarrow> i < length xs \<Longrightarrow> (\<And>j. j < length xs \<Longrightarrow> j \<noteq> i \<Longrightarrow> f x \<inter> f (xs ! j) = {}) \<Longrightarrow>
   disjoint_by f (xs[i := x])"
  by (fastforce simp: disjoint_by_def nth_list_update)

lemma disjoint_by_shrink:
  "disjoint_by f xs \<Longrightarrow> i < length xs \<Longrightarrow> f x \<subseteq> f (xs ! i) \<Longrightarrow> disjoint_by f (xs[i := x])"
  by (rule disjoint_by_update) (auto simp: disjoint_by_def)

lemma disjoint_by_snoc: "disjoint_by f xs \<Longrightarrow> f x = {} \<Longrightarrow> disjoint_by f (xs @ [x])"
  by (auto simp: disjoint_by_def nth_append less_Suc_eq)

definition finv :: "bool \<Rightarrow> frames \<Rightarrow> nat list \<Rightarrow> nat list \<Rightarrow> nat set \<Rightarrow> main_pc \<Rightarrow> worker list \<Rightarrow> bool" where
  "finv strict fr qs ps own mp ws \<longleftrightarrow>
     view fr qs ps own \<and> mholds mp \<subseteq> own \<and> disjoint_by (holds strict) ws \<and>
     (\<forall>w \<in> set ws. holds strict w \<subseteq> own \<and> holds strict w \<inter> mholds mp = {} \<and>
        (\<forall>a \<in> wptr w. live (heap fr) a) \<and> wshape strict w)"

section \<open>What the frame operations leave alone\<close>

definition payload :: "rframe \<Rightarrow> int \<times> string \<times> int \<times> nat" where
  "payload f = (fr_sock f, fr_ipaddr f, fr_rport f, fr_count f)"

definition data :: "fheap \<Rightarrow> nat \<Rightarrow> (int \<times> string \<times> int \<times> nat) option" where
  "data h a = (if a < length h then map_option payload (h ! a) else None)"

lemma data_deref: "deref h a = Inr f \<Longrightarrow> data h a = Some (payload f)"
  by (simp add: data_def deref_Inr)

lemma data_None: "data h a = None \<longleftrightarrow> \<not> live h a"
  by (simp add: live_def data_def)

lemma live_data: "data h a = data h' a' \<Longrightarrow> live h a \<longleftrightarrow> live h' a'"
  by (metis data_None)

lemma data_update:
  "data (h[a := Some f]) b = (if a = b \<and> a < length h then Some (payload f) else data h b)"
  by (auto simp: data_def nth_list_update)

lemma data_get: "get_frame junk s = Inr (a, s') \<Longrightarrow> live (heap s) b \<Longrightarrow> data (heap s') b = data (heap s) b"
  by (auto simp: get_frame_def bindR_eq_Inr data_def live_def nth_append split: if_splits option.splits)

lemma data_release: "release_frame s a = Inr s' \<Longrightarrow> data (heap s') b = data (heap s) b"
  by (auto simp: release_frame_def bindR_eq_Inr data_update data_deref payload_def split: if_splits)

lemma data_enqueue: "enqueue_frame s a = Inr (s', n) \<Longrightarrow> data (heap s') b = data (heap s) b"
  by (auto simp: enqueue_frame_def bindR_eq_Inr data_update data_deref payload_def Let_def deref_Inr
      split: if_splits option.splits)

lemma heap_dequeue: "dequeue_frame s = Inr (r, s') \<Longrightarrow> heap s' = heap s"
  by (auto simp: dequeue_frame_def bindR_eq_Inr split: option.splits)

lemma view_fill:
  assumes "view fr qs ps own" "a \<in> own" "deref (heap fr) a = Inr f"
  shows "view (fr\<lparr>heap := (heap fr)[a := Some f']\<rparr>) qs ps own"
proof -
  have "a \<notin> set qs" "a \<notin> set ps" using assms(1,2) by (auto simp: view_def)
  then show ?thesis using assms by (auto simp: view_def)
qed

section \<open>Every operation keeps the ownership of frames\<close>

lemma finv_worker:
  assumes "finv strict fr qs ps own mp ws" "i < length ws"
    and "holds strict w \<subseteq> holds strict (ws ! i)" "wptr w \<subseteq> wptr (ws ! i)" "wshape strict w"
  shows "finv strict fr qs ps own mp (ws[i := w])"
proof -
  have "ws ! i \<in> set ws" using assms(2) by simp
  then show ?thesis
    using assms disjoint_by_shrink [of "holds strict" ws i w] set_update_subset_insert [of ws i w]
    unfolding finv_def by blast
qed

lemma finv_get:
  assumes "finv strict fr qs ps own MIdle ws"
  obtains a fr' where "get_frame junk fr = Inr (a, fr')" "a \<notin> own \<union> set qs"
    "finv strict fr' qs (tl ps) (insert a own) (MGot a fd c) ws"
proof -
  from assms have v: "view fr qs ps own" by (simp add: finv_def)
  obtain a fr' where a: "get_frame junk fr = Inr (a, fr')" "a \<notin> own \<union> set qs"
      "view fr' qs (tl ps) (insert a own)"
    using fm.get_ok [OF v, of junk] by blast
  have "live (heap fr') b" if "live (heap fr) b" for b
    using live_data [OF data_get [OF a(1) that]] that by simp
  then have "finv strict fr' qs (tl ps) (insert a own) (MGot a fd c) ws"
    using assms a(2,3) unfolding finv_def by auto
  with a(1,2) show thesis by (rule that)
qed

lemma finv_fill:
  assumes "finv strict fr qs ps own (MGot a fd c) ws"
  obtains f where "deref (heap fr) a = Inr f"
    "finv strict (fr\<lparr>heap := (heap fr)[a := Some f']\<rparr>) qs ps own (MFilled a) ws"
proof -
  from assms have v: "view fr qs ps own" "a \<in> own" by (simp_all add: finv_def)
  then have "live (heap fr) a" by (simp add: view_def)
  then obtain f where f: "deref (heap fr) a = Inr f" using deref_live by blast
  have "finv strict (fr\<lparr>heap := (heap fr)[a := Some f']\<rparr>) qs ps own (MFilled a) ws"
    using assms view_fill [OF v f, of f'] unfolding finv_def by auto
  with f show thesis by (rule that)
qed

lemma finv_queue:
  assumes "finv strict fr qs ps own (MFilled a) ws"
  obtains fr' where "enqueue_frame fr a = Inr (fr', qs = [])"
    "finv strict fr' (qs @ [a]) ps (own - {a}) MIdle ws"
proof -
  from assms have v: "view fr qs ps own" "a \<in> own" by (simp_all add: finv_def)
  obtain fr' where fr': "enqueue_frame fr a = Inr (fr', qs = [])" "view fr' (qs @ [a]) ps (own - {a})"
    using fm.enq_ok [OF v] by blast
  have "live (heap fr') b \<longleftrightarrow> live (heap fr) b" for b
    by (rule live_data [OF data_enqueue [OF fr'(1)]])
  then have "finv strict fr' (qs @ [a]) ps (own - {a}) MIdle ws"
    using assms fr'(2) unfolding finv_def by auto
  with fr'(1) show thesis by (rule that)
qed

lemma finv_take:
  assumes "finv strict fr (a # qs) ps own mp ws" "i < length ws"
    and w: "holds strict w \<subseteq> {a}" "wptr w \<subseteq> {a}" "wshape strict w"
  obtains fr' where "dequeue_frame fr = Inr (Some a, fr')"
    "finv strict fr' qs ps (insert a own) mp (ws[i := w])"
proof -
  from assms(1) have v: "view fr (a # qs) ps own" by (simp add: finv_def)
  obtain fr' where fr': "dequeue_frame fr = Inr (Some a, fr')" "view fr' qs ps (insert a own)"
    using fm.deq_ok [OF v] by blast
  have live: "live (heap fr) a" using v chain_live [of "heap fr" "req_queue fr" "a # qs" a] by (simp add: view_def)
  have no: "a \<notin> own" using v by (auto simp: view_def)
  have "holds strict w \<inter> holds strict (ws ! j) = {}" if "j < length ws" for j
    using assms(1) w(1) no nth_mem [OF that] unfolding finv_def by blast
  then have "disjoint_by (holds strict) (ws[i := w])"
    using assms(1,2) by (intro disjoint_by_update) (auto simp: finv_def)
  moreover have "holds strict x \<subseteq> insert a own \<and> holds strict x \<inter> mholds mp = {} \<and>
      (\<forall>b \<in> wptr x. live (heap fr') b) \<and> wshape strict x" if "x \<in> set (ws[i := w])" for x
  proof (cases "x \<in> set ws")
    case True
    then show ?thesis using assms(1) heap_dequeue [OF fr'(1)] unfolding finv_def by auto
  next
    case False
    then have "x = w" using that set_update_subset_insert [of ws i w] by blast
    then show ?thesis using w no live assms(1) heap_dequeue [OF fr'(1)] unfolding finv_def by auto
  qed
  ultimately have "finv strict fr' qs ps (insert a own) mp (ws[i := w])"
    using assms(1) fr'(2) unfolding finv_def by blast
  with fr'(1) show thesis by (rule that)
qed

lemma finv_release:
  assumes "finv strict fr qs ps own mp ws" "i < length ws" "ws ! i = Serving a fd (Release # es) r"
  obtains fr' where "release_frame fr a = Inr fr'"
    "finv strict fr' qs (a # ps) (own - {a}) mp (ws[i := Serving a fd es r])"
proof -
  have mem: "ws ! i \<in> set ws" using assms(2) by simp
  with assms have v: "view fr qs ps own" "a \<in> own" "a \<notin> mholds mp" and sh: "Release \<notin> set es" "strict \<longrightarrow> \<not> is_throw r"
    and live: "live (heap fr) a" and ds: "disjoint_by (holds strict) ws"
    unfolding finv_def by (auto simp: count_list_0_iff)
  obtain fr' where fr': "release_frame fr a = Inr fr'" "view fr' qs (a # ps) (own - {a})"
    using fm.put_ok [OF v(1,2)] by blast
  let ?ws = "ws[i := Serving a fd es r]"
  have e: "holds strict (Serving a fd es r) = {}" using sh by simp
  have "a \<notin> holds strict (?ws ! j)" if "j < length ws" for j
    using ds assms(2,3) that e by (cases "j = i") (auto simp: disjoint_by_def)
  then have na: "a \<notin> holds strict w" if "w \<in> set ?ws" for w
    using that by (metis in_set_conv_nth length_list_update)
  have lv: "live (heap fr') b \<longleftrightarrow> live (heap fr) b" for b
    by (rule live_data [OF data_release [OF fr'(1)]])
  have "disjoint_by (holds strict) ?ws" using ds assms(2) e by (intro disjoint_by_shrink) auto
  moreover have "wshape strict (Serving a fd es r)" using sh by (simp add: count_list_0_iff)
  moreover have "holds strict w \<subseteq> own - {a} \<and> holds strict w \<inter> mholds mp = {} \<and>
      (\<forall>b \<in> wptr w. live (heap fr') b) \<and> wshape strict w" if "w \<in> set ?ws" for w
  proof (cases "w \<in> set ws")
    case True
    then show ?thesis using assms(1) na [OF that] lv unfolding finv_def by blast
  next
    case False
    then have "w = Serving a fd es r" using that set_update_subset_insert [of ws i] by blast
    then show ?thesis using e live lv sh by (simp add: count_list_0_iff)
  qed
  ultimately have "finv strict fr' qs (a # ps) (own - {a}) mp ?ws"
    using assms(1) fr'(2) v(3) unfolding finv_def by blast
  with fr'(1) show thesis by (rule that)
qed

section \<open>The invariant of the server\<close>

definition frame_count :: "frames \<Rightarrow> nat \<Rightarrow> nat" where
  "frame_count fr a = (case data (heap fr) a of None \<Rightarrow> 0 | Some (sock, ip, port, n) \<Rightarrow> n)"

text \<open>
  Frames are owned as described; the requests taken and the requests queued are, in order, the
  numbers given out so far; the threads are as many as \<open>nthreads\<close> says, at most \<open>max_threads\<close>.
\<close>

definition sinv_at :: "bool \<Rightarrow> server \<Rightarrow> nat list \<Rightarrow> nat list \<Rightarrow> nat set \<Rightarrow> bool" where
  "sinv_at strict s qs ps own \<longleftrightarrow>
     finv strict (sv_frames s) qs ps own (main_pc s) (workers s) \<and>
     taken s @ map (frame_count (sv_frames s)) qs = [0..<tcount s] \<and>
     (\<forall>a. main_pc s = MFilled a \<longrightarrow> frame_count (sv_frames s) a = tcount s) \<and>
     length (workers s) = nthreads s \<and> nthreads s \<le> max_threads s"

definition sinv :: "bool \<Rightarrow> server \<Rightarrow> bool" where
  "sinv strict s \<longleftrightarrow> (\<exists>qs ps own. sinv_at strict s qs ps own)"

lemma view_queue_live: "view fr qs ps own \<Longrightarrow> a \<in> set qs \<Longrightarrow> live (heap fr) a"
  using chain_live by (auto simp: view_def)

lemma sinv_init: "sinv strict (init_server maxt)"
proof -
  have "view (init_frames True) [] [] {}" by (simp add: view_def init_frames_def live_def one_frame_def)
  then have "sinv_at strict (init_server maxt) [] [] {}"
    by (simp add: sinv_at_def finv_def init_server_def disjoint_by_def)
  then show ?thesis unfolding sinv_def by blast
qed

lemma finv_new_thread: "finv strict fr qs ps own mp ws \<Longrightarrow> finv strict fr qs ps own mp (ws @ [Waiting])"
  by (auto simp: finv_def intro: disjoint_by_snoc)

lemma sinv_at_add_thread: "sinv_at strict s qs ps own \<Longrightarrow> sinv_at strict (add_thread s) qs ps own"
  using finv_new_thread by (auto simp: sinv_at_def add_thread_def)

lemma sinv_start: "sinv strict s \<Longrightarrow> sinv strict (start_threads n s)"
  by (induction n arbitrary: s) (auto simp: sinv_def intro: sinv_at_add_thread, metis sinv_at_add_thread)

lemma sinv_accept:
  assumes "sinv_at strict s qs ps own" "main_pc s = MIdle"
  shows "\<exists>s'. accept_conn junk fd s = Inr s' \<and> sinv strict s'"
proof -
  have f: "finv strict (sv_frames s) qs ps own MIdle (workers s)" using assms by (simp add: sinv_at_def)
  obtain a fr' where a: "get_frame junk (sv_frames s) = Inr (a, fr')"
      "finv strict fr' qs (tl ps) (insert a own) (MGot a fd (nconns s)) (workers s)"
    using finv_get [OF f] by metis
  have "frame_count fr' b = frame_count (sv_frames s) b" if "b \<in> set qs" for b
    using data_get [OF a(1) view_queue_live [of _ qs ps own]] f that
    by (simp add: frame_count_def finv_def)
  then have "map (frame_count fr') qs = map (frame_count (sv_frames s)) qs" by simp
  then have "sinv_at strict (s\<lparr>sv_frames := fr', conns := (conns s)(fd \<mapsto> nconns s),
      nconns := Suc (nconns s), main_pc := MGot a fd (nconns s)\<rparr>) qs (tl ps) (insert a own)"
    using assms a(2) by (simp add: sinv_at_def del: map_eq_conv)
  then show ?thesis using a(1) by (auto simp: accept_conn_def sinv_def)
qed

lemma sinv_fill:
  assumes "sinv_at strict s qs ps own" "main_pc s = MGot a fd c"
  shows "\<exists>s'. fill_frame peer a fd c s = Inr s' \<and> sinv strict s'"
proof -
  let ?h = "heap (sv_frames s)"
  have f: "finv strict (sv_frames s) qs ps own (MGot a fd c) (workers s)" using assms by (simp add: sinv_at_def)
  then have a: "a \<notin> set qs" by (auto simp: finv_def view_def)
  obtain g where g: "deref ?h a = Inr g"
    using finv_fill [OF f] by metis
  let ?f = "g\<lparr>fr_sock := fd, fr_ipaddr := fst (peer c), fr_rport := snd (peer c), fr_count := tcount s\<rparr>"
  let ?fr = "(sv_frames s)\<lparr>heap := ?h[a := Some ?f]\<rparr>"
  have g': "a < length ?h" using g by (simp add: deref_Inr)
  have inv: "finv strict ?fr qs ps own (MFilled a) (workers s)" using finv_fill [OF f] by metis
  have "frame_count ?fr b = frame_count (sv_frames s) b" if "b \<in> set qs" for b
    using a that by (auto simp: frame_count_def data_update)
  then have "map (frame_count ?fr) qs = map (frame_count (sv_frames s)) qs" by simp
  moreover have "frame_count ?fr a = tcount s" using g' by (simp add: frame_count_def data_update payload_def)
  ultimately have "sinv_at strict (s\<lparr>sv_frames := ?fr, main_pc := MFilled a\<rparr>) qs ps own"
    using assms inv by (simp add: sinv_at_def del: map_eq_conv)
  then show ?thesis using g by (auto simp: fill_frame_def sinv_def)
qed

lemma sinv_queue:
  assumes "sinv_at strict s qs ps own" "main_pc s = MFilled a"
  shows "\<exists>s'. queue_frame a s = Inr s' \<and> sinv strict s'"
proof -
  let ?s1 = "if busy_threads s \<ge> int (nthreads s) then add_thread s else s"
  have s1: "sinv_at strict ?s1 qs ps own" "main_pc ?s1 = MFilled a"
    using assms sinv_at_add_thread by (auto simp: add_thread_def)
  then have f: "finv strict (sv_frames ?s1) qs ps own (MFilled a) (workers ?s1)" by (simp add: sinv_at_def)
  obtain fr' where fr': "enqueue_frame (sv_frames ?s1) a = Inr (fr', qs = [])"
      "finv strict fr' (qs @ [a]) ps (own - {a}) MIdle (workers ?s1)"
    using finv_queue [OF f] by metis
  have "frame_count fr' b = frame_count (sv_frames ?s1) b" for b
    using data_enqueue [OF fr'(1)] by (simp add: frame_count_def)
  then have "frame_count fr' = frame_count (sv_frames ?s1)" by blast
  then have "sinv_at strict (?s1\<lparr>sv_frames := fr', tcount := Suc (tcount ?s1), main_pc := MIdle\<rparr>)
      (qs @ [a]) ps (own - {a})"
    using s1 fr'(2) by (simp add: sinv_at_def)
  then have "sinv strict (?s1\<lparr>sv_frames := fr', tcount := Suc (tcount ?s1), main_pc := MIdle\<rparr>)"
    unfolding sinv_def by blast
  then show ?thesis using fr'(1) by (simp add: queue_frame_def Let_def split: if_splits)
qed

text \<open>A step that changes one worker and nothing the invariant reads.\<close>

lemma sinv_worker:
  assumes "sinv_at strict s qs ps own" "i < length (workers s)"
    and "holds strict w \<subseteq> holds strict (workers s ! i)" "wptr w \<subseteq> wptr (workers s ! i)" "wshape strict w"
    and "sv_frames s' = sv_frames s" "main_pc s' = main_pc s" "workers s' = workers s" "taken s' = taken s"
      "tcount s' = tcount s" "nthreads s' = nthreads s" "max_threads s' = max_threads s"
  shows "sinv strict (set_worker i w s')"
proof -
  have "finv strict (sv_frames s) qs ps own (main_pc s) ((workers s)[i := w])"
    using assms(1-5) by (intro finv_worker) (auto simp: sinv_at_def)
  then have "sinv_at strict (set_worker i w s') qs ps own"
    using assms by (simp add: sinv_at_def set_worker_def)
  then show ?thesis unfolding sinv_def by blast
qed

lemma shaped_count: "shaped es r \<Longrightarrow> count_list es Release \<le> 1"
proof -
  have f: "count_list xs Release = 0" if "list_all is_file xs \<or> list_all is_send xs" for xs
    using that by (induction xs) auto
  show "shaped es r \<Longrightarrow> ?thesis" by (auto simp: shaped_def f)
qed

definition no_late_throw :: "work \<Rightarrow> bool" where
  "no_late_throw work \<longleftrightarrow>
     (\<forall>c ip p es r. work c ip p = Some (es, r) \<longrightarrow> is_throw r \<longrightarrow> Release \<notin> set es)"

locale request_worker =
  fixes work :: work
  assumes work_shaped: "work c ip p = Some (es, r) \<Longrightarrow> shaped es r"
begin

lemma sinv_take:
  assumes "sinv_at strict s qs ps own" "i < length (workers s)" "workers s ! i = Waiting"
    and "strict \<longrightarrow> no_late_throw work"
  shows "\<exists>s'. take_frame work i s = Inr s' \<and> sinv strict s'"
proof (cases qs)
  case Nil
  then have "dequeue_frame (sv_frames s) = Inr (None, sv_frames s)"
    using assms(1) fm.deq_empty by (auto simp: sinv_at_def finv_def)
  then show ?thesis using assms(1) by (auto simp: take_frame_def sinv_def)
next
  case (Cons a qs')
  have f: "finv strict (sv_frames s) (a # qs') ps own (main_pc s) (workers s)"
    using assms(1) Cons by (simp add: sinv_at_def)
  then have "live (heap (sv_frames s)) a" by (auto simp: finv_def intro: view_queue_live)
  then obtain g where g: "deref (heap (sv_frames s)) a = Inr g" using deref_live by blast
  let ?w = "case start_work work s g of None \<Rightarrow> Hung | Some (es, r) \<Rightarrow> Serving a (fr_sock g) es r"
  have sh: "shaped es r \<and> (strict \<longrightarrow> is_throw r \<longrightarrow> Release \<notin> set es)" if "start_work work s g = Some (es, r)" for es r
    using that work_shaped assms(4) shaped_files [of "[]"]
    by (auto simp: start_work_def no_late_throw_def split: option.splits)
  have w: "holds strict ?w \<subseteq> {a}" "wptr ?w \<subseteq> {a}" "wshape strict ?w"
    using sh shaped_count by (auto split: option.splits)
  obtain fr' where fr': "dequeue_frame (sv_frames s) = Inr (Some a, fr')"
      "finv strict fr' qs' ps (insert a own) (main_pc s) ((workers s)[i := ?w])"
    using finv_take [OF f assms(2) w] by metis
  have h: "heap fr' = heap (sv_frames s)" by (rule heap_dequeue [OF fr'(1)])
  then have c: "frame_count fr' = frame_count (sv_frames s)" by (simp add: frame_count_def fun_eq_iff)
  have "fr_count g = frame_count (sv_frames s) a" using data_deref [OF g] by (simp add: frame_count_def payload_def)
  then have "sinv_at strict (set_worker i ?w (s\<lparr>sv_frames := fr', busy_threads := busy_threads s + 1,
      taken := taken s @ [fr_count g]\<rparr>)) qs' ps (insert a own)"
    using assms(1) Cons fr'(2) c by (simp add: sinv_at_def set_worker_def)
  then have "sinv strict (set_worker i ?w (s\<lparr>sv_frames := fr', busy_threads := busy_threads s + 1,
      taken := taken s @ [fr_count g]\<rparr>))" unfolding sinv_def by blast
  then show ?thesis using fr'(1) g h by (simp add: take_frame_def)
qed

lemma sinv_effect:
  assumes "sinv_at strict s qs ps own" "i < length (workers s)" "workers s ! i = Serving a fd (e # es) r"
  shows "\<exists>s'. perform a fd e s = Inr s' \<and> sinv strict (set_worker i (Serving a fd es r) s')"
proof (cases "e = Release")
  case True
  have f: "finv strict (sv_frames s) qs ps own (main_pc s) (workers s)" using assms(1) by (simp add: sinv_at_def)
  obtain fr' where fr': "release_frame (sv_frames s) a = Inr fr'"
      "finv strict fr' qs (a # ps) (own - {a}) (main_pc s) ((workers s)[i := Serving a fd es r])"
    using finv_release [OF f assms(2) assms(3) [unfolded True]] by metis
  have "frame_count fr' = frame_count (sv_frames s)"
    using data_release [OF fr'(1)] by (simp add: frame_count_def fun_eq_iff)
  then have "sinv_at strict (set_worker i (Serving a fd es r) (s\<lparr>sv_frames := fr'\<rparr>)) qs (a # ps) (own - {a})"
    using assms(1) fr'(2) by (simp add: sinv_at_def set_worker_def)
  then have "sinv strict (set_worker i (Serving a fd es r) (s\<lparr>sv_frames := fr'\<rparr>))" unfolding sinv_def by blast
  then show ?thesis using fr'(1) True by (simp add: perform_def)
next
  case False
  then obtain s' where s': "perform a fd e s = Inr s'" "sv_frames s' = sv_frames s" "main_pc s' = main_pc s"
      "workers s' = workers s" "taken s' = taken s" "tcount s' = tcount s" "nthreads s' = nthreads s"
      "max_threads s' = max_threads s"
    by (cases e) (simp_all add: perform_def send_to_def close_fd_def)
  have "wshape strict (workers s ! i)" using assms(1,2) by (auto simp: sinv_at_def finv_def)
  then have "wshape strict (Serving a fd es r)" using assms(3) False by auto
  then have "sinv strict (set_worker i (Serving a fd es r) s')"
    using assms s' False by (intro sinv_worker [OF assms(1,2)]) auto
  then show ?thesis using s'(1) by blast
qed

lemma catch_live:
  assumes "sinv_at strict s qs ps own" "i < length (workers s)" "workers s ! i = Catching a \<or> workers s ! i = Closing a"
  obtains f where "deref (heap (sv_frames s)) a = Inr f"
proof -
  have "workers s ! i \<in> set (workers s)" using assms(2) by simp
  then have "live (heap (sv_frames s)) a" using assms(1,3) unfolding sinv_at_def finv_def by fastforce
  then show thesis using that deref_live by blast
qed

lemma sinv_step:
  assumes "sstep work peer s s'" "sinv strict s" "strict \<longrightarrow> no_late_throw work"
  shows "sinv strict s'"
proof -
  obtain qs ps own where at: "sinv_at strict s qs ps own" using assms(2) unfolding sinv_def by blast
  note worker = sinv_worker [OF at]
  from assms(1) show ?thesis
  proof cases
    case (accept fd junk)
    then show ?thesis using sinv_accept [OF at, of junk fd] by auto
  next
    case (fill a fd c)
    then show ?thesis using sinv_fill [OF at fill(2), of peer] by auto
  next
    case (queue a)
    then show ?thesis using sinv_queue [OF at queue(2)] by auto
  next
    case (take i)
    then show ?thesis using sinv_take [OF at take(2,3) assms(3)] by auto
  next
    case (effect i a fd e es r s1)
    then show ?thesis using sinv_effect [OF at effect(3,4)] by auto
  next
    case (finish i a fd)
    show ?thesis unfolding finish(1) by (rule worker) (use finish in auto)
  next
    case (throw i a fd k)
    show ?thesis unfolding throw(1) by (rule worker) (use throw in \<open>auto simp: is_throw_def\<close>)
  next
    case (crash i a fd e)
    have "sinv_at strict s' qs ps own" using at by (simp add: sinv_at_def crash(1))
    then show ?thesis unfolding sinv_def by blast
  next
    case (catch_send i a s1)
    show ?thesis unfolding catch_send(1)
      by (rule worker) (use catch_send in \<open>auto simp: catch_send_def bindR_eq_Inr send_to_def\<close>)
  next
    case (catch_close i a s1)
    show ?thesis unfolding catch_close(1)
      by (rule worker) (use catch_close in \<open>auto simp: catch_close_def bindR_eq_Inr close_fd_def\<close>)
  next
    case (read_busy i)
    show ?thesis unfolding read_busy(1) by (rule worker) (use read_busy in auto)
  next
    case (store_busy i v)
    show ?thesis unfolding store_busy(1) by (rule worker) (use store_busy in auto)
  qed
qed

lemma sinv_reachable:
  assumes "reachable work peer maxt cpus s" "strict \<longrightarrow> no_late_throw work"
  shows "sinv strict s"
  using assms by (induction rule: reachable.induct) (blast intro: sinv_init sinv_start sinv_step)+

text \<open>No step of the main thread or of a worker can fault on the shared structures.\<close>

lemma steps_enabled:
  assumes "sinv strict s" "strict \<longrightarrow> no_late_throw work"
  shows "main_pc s = MIdle \<Longrightarrow> \<exists>s'. accept_conn junk fd s = Inr s'"
    "main_pc s = MGot a fd c \<Longrightarrow> \<exists>s'. fill_frame peer a fd c s = Inr s'"
    "main_pc s = MFilled a \<Longrightarrow> \<exists>s'. queue_frame a s = Inr s'"
    "i < length (workers s) \<Longrightarrow> workers s ! i = Waiting \<Longrightarrow> \<exists>s'. take_frame work i s = Inr s'"
    "i < length (workers s) \<Longrightarrow> workers s ! i = Serving a fd (e # es) r \<Longrightarrow> \<exists>s'. perform a fd e s = Inr s'"
    "i < length (workers s) \<Longrightarrow> workers s ! i = Catching a \<Longrightarrow> \<exists>s'. catch_send a s = Inr s'"
    "i < length (workers s) \<Longrightarrow> workers s ! i = Closing a \<Longrightarrow> \<exists>s'. catch_close a s = Inr s'"
proof -
  obtain qs ps own where at: "sinv_at strict s qs ps own" using assms(1) unfolding sinv_def by blast
  show "main_pc s = MIdle \<Longrightarrow> \<exists>s'. accept_conn junk fd s = Inr s'"
    using sinv_accept [OF at] by blast
  show "main_pc s = MGot a fd c \<Longrightarrow> \<exists>s'. fill_frame peer a fd c s = Inr s'"
    using sinv_fill [OF at] by blast
  show "main_pc s = MFilled a \<Longrightarrow> \<exists>s'. queue_frame a s = Inr s'"
    using sinv_queue [OF at] by blast
  show "i < length (workers s) \<Longrightarrow> workers s ! i = Waiting \<Longrightarrow> \<exists>s'. take_frame work i s = Inr s'"
    using sinv_take [OF at] assms(2) by blast
  show "i < length (workers s) \<Longrightarrow> workers s ! i = Serving a fd (e # es) r \<Longrightarrow> \<exists>s'. perform a fd e s = Inr s'"
    using sinv_effect [OF at] by blast
  show "i < length (workers s) \<Longrightarrow> workers s ! i = Catching a \<Longrightarrow> \<exists>s'. catch_send a s = Inr s'"
    using catch_live [OF at] by (metis (no_types, lifting) bindR_Inr catch_send_def)
  show "i < length (workers s) \<Longrightarrow> workers s ! i = Closing a \<Longrightarrow> \<exists>s'. catch_close a s = Inr s'"
    using catch_live [OF at] by (metis (no_types, lifting) bindR_Inr catch_close_def)
qed

end

interpretation rw: request_worker "\<lambda>c ip p. process_request (env c) t ip p (inp c)"
  for env :: "nat \<Rightarrow> env" and t :: htable and inp :: "nat \<Rightarrow> inev list"
  by unfold_locales (rule process_request_shaped)

end
