(* ===== verification/Isolation.thy ===== *)
theory Isolation
  imports Server
begin

text \<open>
  Who receives which bytes. For an application that does not throw after its frame is released,
  every connection receives a prefix of its own reply and nothing else, whatever the threads do
  and however descriptors and frames are reused. For an application that does throw, the error
  page of one request can be sent to another connection, because \<open>catch_req\<close> looks at the frame
  again after it went back to the pool.
\<close>

section \<open>Tokens\<close>

definition bytes_to :: "nat \<Rightarrow> (nat option \<times> string) list \<Rightarrow> string" where
  "bytes_to c lg = concat (map snd (filter (\<lambda>x. fst x = Some c) lg))"

text \<open>All that connection \<open>c\<close> is to receive.\<close>

definition expected :: "work \<Rightarrow> (nat \<Rightarrow> string \<times> int) \<Rightarrow> nat \<Rightarrow> string" where
  "expected work peer c =
     (case work c (fst (peer c)) (snd (peer c)) of
        None \<Rightarrow> []
      | Some (es, r) \<Rightarrow> sent es @ (if is_throw r then err_msg else []))"

definition sock_of :: "fheap \<Rightarrow> nat \<Rightarrow> int set" where
  "sock_of h a = (case data h a of None \<Rightarrow> {} | Some (fd, ip, port, n) \<Rightarrow> {fd})"

fun wfd :: "fheap \<Rightarrow> worker \<Rightarrow> int set" where
  "wfd h (Serving a fd es r) = (if es = [] \<and> r = Inr () then {} else {fd})"
| "wfd h (Catching a) = sock_of h a"
| "wfd h (Closing a) = sock_of h a"
| "wfd h _ = {}"

fun mfd :: "fheap \<Rightarrow> main_pc \<Rightarrow> int set" where
  "mfd h MIdle = {}"
| "mfd h (MGot a fd c) = {fd}"
| "mfd h (MFilled a) = sock_of h a"

type_synonym outlog = "(nat option \<times> string) list"

text \<open>What holds at each place a descriptor can be: connection, bytes sent, work still to do.\<close>

definition frame_ok :: "(nat \<Rightarrow> string \<times> int) \<Rightarrow> (int \<rightharpoonup> nat) \<Rightarrow> outlog \<Rightarrow> fheap \<Rightarrow> nat \<Rightarrow> bool" where
  "frame_ok peer K lg h a \<longleftrightarrow>
     (\<exists>fd c n. data h a = Some (fd, fst (peer c), snd (peer c), n) \<and> K fd = Some c \<and> bytes_to c lg = [])"

definition main_ok :: "(nat \<Rightarrow> string \<times> int) \<Rightarrow> (int \<rightharpoonup> nat) \<Rightarrow> outlog \<Rightarrow> fheap \<Rightarrow> main_pc \<Rightarrow> bool" where
  "main_ok peer K lg h mp =
     (case mp of
        MIdle \<Rightarrow> True
      | MGot a fd c \<Rightarrow> K fd = Some c \<and> bytes_to c lg = []
      | MFilled a \<Rightarrow> frame_ok peer K lg h a)"

definition wok :: "work \<Rightarrow> (nat \<Rightarrow> string \<times> int) \<Rightarrow> (int \<rightharpoonup> nat) \<Rightarrow> outlog \<Rightarrow> fheap \<Rightarrow> worker \<Rightarrow> bool" where
  "wok work peer K lg h w =
     (case w of
        Serving a fd es r \<Rightarrow>
          es = [] \<and> r = Inr () \<or>
          (\<exists>c before. K fd = Some c \<and> work c (fst (peer c)) (snd (peer c)) = Some (before @ es, r) \<and>
             bytes_to c lg = sent before \<and> (is_throw r \<longrightarrow> sock_of h a = {fd}))
      | Catching a \<Rightarrow>
          (\<exists>fd c es r. sock_of h a = {fd} \<and> K fd = Some c \<and>
             work c (fst (peer c)) (snd (peer c)) = Some (es, r) \<and> is_throw r \<and> bytes_to c lg = sent es)
      | Closing a \<Rightarrow> (\<exists>fd c. sock_of h a = {fd} \<and> K fd = Some c)
      | _ \<Rightarrow> True)"

definition conns_ok :: "(int \<rightharpoonup> nat) \<Rightarrow> outlog \<Rightarrow> nat \<Rightarrow> bool" where
  "conns_ok K lg n \<longleftrightarrow>
     inj_on K (dom K) \<and> ran K \<subseteq> {..<n} \<and> (\<forall>x \<in> set lg. \<exists>c < n. fst x = Some c)"

definition apart :: "fheap \<Rightarrow> main_pc \<Rightarrow> nat list \<Rightarrow> worker list \<Rightarrow> bool" where
  "apart h mp qs ws \<longleftrightarrow>
     disjoint_by (wfd h) ws \<and> disjoint_by (sock_of h) qs \<and>
     (\<forall>w \<in> set ws. \<forall>a \<in> set qs. wfd h w \<inter> sock_of h a = {}) \<and>
     (\<forall>w \<in> set ws. wfd h w \<inter> mfd h mp = {}) \<and> (\<forall>a \<in> set qs. sock_of h a \<inter> mfd h mp = {})"

definition iso_inv :: "work \<Rightarrow> (nat \<Rightarrow> string \<times> int) \<Rightarrow> (int \<rightharpoonup> nat) \<Rightarrow> outlog \<Rightarrow> nat \<Rightarrow> fheap \<Rightarrow> main_pc \<Rightarrow>
    nat list \<Rightarrow> worker list \<Rightarrow> bool" where
  "iso_inv work peer K lg n h mp qs ws \<longleftrightarrow>
     conns_ok K lg n \<and> apart h mp qs ws \<and> main_ok peer K lg h mp \<and>
     (\<forall>a \<in> set qs. frame_ok peer K lg h a) \<and> (\<forall>w \<in> set ws. wok work peer K lg h w) \<and>
     (\<forall>c. prefix (bytes_to c lg) (expected work peer c))"

section \<open>A change that leaves a token alone\<close>

definition keeps :: "int set \<Rightarrow> (int \<rightharpoonup> nat) \<Rightarrow> outlog \<Rightarrow> (int \<rightharpoonup> nat) \<Rightarrow> outlog \<Rightarrow> bool" where
  "keeps fds K lg K' lg' \<longleftrightarrow>
     (\<forall>fd \<in> fds. K' fd = K fd \<and> (\<forall>c. K fd = Some c \<longrightarrow> bytes_to c lg' = bytes_to c lg))"

lemma sock_of_data: "data h' a = data h a \<Longrightarrow> sock_of h' a = sock_of h a"
  by (simp add: sock_of_def)

lemma frame_ok_keeps:
  "frame_ok peer K lg h a \<Longrightarrow> data h' a = data h a \<Longrightarrow> keeps (sock_of h a) K lg K' lg' \<Longrightarrow>
   frame_ok peer K' lg' h' a"
  by (fastforce simp: frame_ok_def keeps_def sock_of_def)

lemma main_ok_keeps:
  "main_ok peer K lg h mp \<Longrightarrow> (\<forall>a \<in> mholds mp. data h' a = data h a) \<Longrightarrow> keeps (mfd h mp) K lg K' lg' \<Longrightarrow>
   main_ok peer K' lg' h' mp"
  by (cases mp) (auto simp: main_ok_def keeps_def intro: frame_ok_keeps [unfolded keeps_def])

lemma wok_keeps:
  assumes "wok work peer K lg h w" "\<forall>a \<in> holds True w. data h' a = data h a" "keeps (wfd h w) K lg K' lg'"
  shows "wok work peer K' lg' h' w"
proof (cases w)
  case (Serving a fd es r)
  then show ?thesis
    using assms sock_of_data [of h' a h] by (auto simp: wok_def keeps_def split: if_splits)
next
  case (Catching a)
  then show ?thesis using assms sock_of_data [of h' a h] by (fastforce simp: wok_def keeps_def)
next
  case (Closing a)
  then show ?thesis using assms sock_of_data [of h' a h] by (fastforce simp: wok_def keeps_def)
qed (use assms in \<open>auto simp: wok_def\<close>)

lemma wfd_keeps: "\<forall>a \<in> holds True w. data h' a = data h a \<Longrightarrow> wfd h' w = wfd h w"
  by (cases w) (auto simp: sock_of_def)

lemma mfd_keeps: "\<forall>a \<in> mholds mp. data h' a = data h a \<Longrightarrow> mfd h' mp = mfd h mp"
  by (cases mp) (auto simp: sock_of_def)

section \<open>Steps of one worker\<close>

lemma bytes_to_Nil [simp]: "bytes_to c [] = []"
  by (simp add: bytes_to_def)

lemma bytes_to_snoc: "bytes_to c (lg @ [(x, m)]) = bytes_to c lg @ (if x = Some c then m else [])"
  by (simp add: bytes_to_def)

lemma apart_worker:
  assumes "apart h mp qs ws" "i < length ws" "wfd h w \<subseteq> wfd h (ws ! i)"
  shows "apart h mp qs (ws[i := w])"
proof -
  have sub: "\<exists>y \<in> set ws. wfd h x \<subseteq> wfd h y" if "x \<in> set (ws[i := w])" for x
  proof (cases "x \<in> set ws")
    case False
    then have "x = w" using that set_update_subset_insert [of ws i w] by blast
    then show ?thesis using assms(3) nth_mem [OF assms(2)] by blast
  qed auto
  have "disjoint_by (wfd h) (ws[i := w])"
    using assms by (intro disjoint_by_shrink) (auto simp: apart_def)
  moreover have "wfd h x \<inter> sock_of h a = {}" if "x \<in> set (ws[i := w])" "a \<in> set qs" for x a
    using sub [OF that(1)] assms(1) that(2) unfolding apart_def by fast
  moreover have "wfd h x \<inter> mfd h mp = {}" if "x \<in> set (ws[i := w])" for x
    using sub [OF that] assms(1) unfolding apart_def by fast
  ultimately show ?thesis using assms(1) unfolding apart_def by simp
qed

lemma iso_heap:
  assumes "iso_inv work peer K lg n h mp qs ws"
    and "\<forall>a \<in> set qs \<union> mholds mp. data h' a = data h a" "\<forall>w \<in> set ws. \<forall>a \<in> holds True w. data h' a = data h a"
  shows "iso_inv work peer K lg n h' mp qs ws"
proof -
  have q: "sock_of h' a = sock_of h a" if "a \<in> set qs" for a
    using assms(2) that by (simp add: sock_of_def)
  have w: "wfd h' x = wfd h x" if "x \<in> set ws" for x
    using assms(3) that by (intro wfd_keeps) blast
  have m: "mfd h' mp = mfd h mp" by (rule mfd_keeps) (use assms(2) in auto)
  have "disjoint_by (sock_of h') qs" "disjoint_by (wfd h') ws"
    using assms(1) q w by (simp_all add: iso_inv_def apart_def disjoint_by_def)
  then have "apart h' mp qs ws" using assms(1) q w m by (simp add: iso_inv_def apart_def)
  moreover have "main_ok peer K lg h' mp"
    using assms(1,2) by (intro main_ok_keeps [of peer K lg h mp h' K lg]) (auto simp: iso_inv_def keeps_def)
  moreover have "frame_ok peer K lg h' a" if "a \<in> set qs" for a
    using assms(1,2) that by (intro frame_ok_keeps [of peer K lg h a h' K lg]) (auto simp: iso_inv_def keeps_def)
  moreover have "wok work peer K lg h' x" if "x \<in> set ws" for x
    using assms(1,3) that by (intro wok_keeps [of work peer K lg h x h' K lg]) (auto simp: iso_inv_def keeps_def)
  ultimately show ?thesis using assms(1) unfolding iso_inv_def by blast
qed

lemma iso_worker:
  assumes "iso_inv work peer K lg n h mp qs ws" "i < length ws" "wfd h w \<subseteq> wfd h (ws ! i)"
    and "keeps (- wfd h (ws ! i)) K lg K' lg'" "wok work peer K' lg' h w" "conns_ok K' lg' n"
    and "\<forall>c. prefix (bytes_to c lg') (expected work peer c)"
  shows "iso_inv work peer K' lg' n h mp qs (ws[i := w])"
proof -
  have mem: "ws ! i \<in> set ws" using assms(2) by simp
  have ap: "apart h mp qs ws" using assms(1) by (simp add: iso_inv_def)
  have k: "keeps X K lg K' lg'" if "X \<inter> wfd h (ws ! i) = {}" for X
    using assms(4) that by (auto simp: keeps_def)
  have "main_ok peer K' lg' h mp"
    using assms(1) ap mem by (intro main_ok_keeps [of peer K lg h mp h K' lg'] k) (auto simp: iso_inv_def apart_def)
  moreover have "frame_ok peer K' lg' h a" if "a \<in> set qs" for a
    using assms(1) ap mem that by (intro frame_ok_keeps [of peer K lg h a h K' lg'] k) (auto simp: iso_inv_def apart_def)
  moreover have "wok work peer K' lg' h x" if x: "x \<in> set (ws[i := w])" for x
  proof -
    from x obtain j where j: "j < length ws" "x = ws[i := w] ! j" by (auto simp: in_set_conv_nth)
    show ?thesis
    proof (cases "j = i")
      case False
      then have "wfd h (ws ! j) \<inter> wfd h (ws ! i) = {}" using ap j(1) assms(2) by (auto simp: apart_def disjoint_by_def)
      moreover have "wok work peer K lg h (ws ! j)" using assms(1) j(1) by (simp add: iso_inv_def)
      ultimately show ?thesis using j False by (auto intro: wok_keeps k)
    qed (use j assms(5) in simp)
  qed
  ultimately show ?thesis
    using assms(6,7) apart_worker [OF ap assms(2,3)] unfolding iso_inv_def by blast
qed

lemma keeps_refl [simp]: "keeps X K lg K lg"
  by (simp add: keeps_def)

lemma iso_silent:
  assumes "iso_inv work peer K lg n h mp qs ws" "i < length ws" "wfd h w \<subseteq> wfd h (ws ! i)" "wok work peer K lg h w"
  shows "iso_inv work peer K lg n h mp qs (ws[i := w])"
  using assms by (intro iso_worker [OF assms(1-3)]) (auto simp: iso_inv_def)

text \<open>Sending on a descriptor that the worker holds reaches its own connection only.\<close>

lemma keeps_send:
  assumes "conns_ok K lg n" "K fd = Some c"
  shows "keeps (- {fd}) K lg K (lg @ [(K fd, m)])" "conns_ok K (lg @ [(K fd, m)]) n"
proof -
  have "c' \<noteq> c" if "K fd' = Some c'" "fd' \<noteq> fd" for fd' c'
    using assms that by (auto simp: conns_ok_def inj_on_def dom_def)
  then show "keeps (- {fd}) K lg K (lg @ [(K fd, m)])"
    using assms(2) by (auto simp: keeps_def bytes_to_snoc)
  show "conns_ok K (lg @ [(K fd, m)]) n"
    using assms by (auto simp: conns_ok_def ran_def)
qed

lemma keeps_close:
  assumes "conns_ok K lg n"
  shows "keeps (- {fd}) K lg (K(fd := None)) lg" "conns_ok (K(fd := None)) lg n"
proof -
  show "keeps (- {fd}) K lg (K(fd := None)) lg" by (auto simp: keeps_def)
  have "inj_on (K(fd := None)) (dom K - {fd})"
    using assms by (auto simp: conns_ok_def inj_on_def)
  moreover have "ran (K(fd := None)) \<subseteq> ran K" by (auto simp: ran_def)
  ultimately show "conns_ok (K(fd := None)) lg n"
    using assms by (auto simp: conns_ok_def)
qed

section \<open>Steps of the main thread\<close>

lemma frame_ok_open: "frame_ok peer K lg h a \<Longrightarrow> sock_of h a \<subseteq> dom K"
  by (auto simp: frame_ok_def sock_of_def)

lemma wok_open: "wok work peer K lg h w \<Longrightarrow> wfd h w \<subseteq> dom K"
  by (cases w) (auto simp: wok_def)

lemma no_bytes_yet: "conns_ok K lg n \<Longrightarrow> bytes_to n lg = []"
  by (auto simp: conns_ok_def bytes_to_def filter_empty_conv)

lemma iso_accept:
  assumes "iso_inv work peer K lg n h MIdle qs ws" "K fd = None"
  shows "iso_inv work peer (K(fd \<mapsto> n)) lg (Suc n) h (MGot a fd n) qs ws"
proof -
  have c: "conns_ok K lg n" using assms(1) by (simp add: iso_inv_def)
  have "inj_on (K(fd \<mapsto> n)) (dom (K(fd \<mapsto> n)))"
    using c assms(2) by (auto simp: conns_ok_def inj_on_def ran_def dom_def)
  moreover have "ran (K(fd \<mapsto> n)) \<subseteq> {..<Suc n}" using c by (auto simp: conns_ok_def ran_def)
  ultimately have c': "conns_ok (K(fd \<mapsto> n)) lg (Suc n)"
    using c by (force simp: conns_ok_def)
  have k: "keeps X K lg (K(fd \<mapsto> n)) lg" if "X \<subseteq> dom K" for X
    using that assms(2) by (auto simp: keeps_def)
  have f: "frame_ok peer (K(fd \<mapsto> n)) lg h b" "fd \<notin> sock_of h b" if "b \<in> set qs" for b
  proof -
    have ok: "frame_ok peer K lg h b" using assms(1) that by (simp add: iso_inv_def)
    note op = frame_ok_open [OF ok]
    show "frame_ok peer (K(fd \<mapsto> n)) lg h b" by (rule frame_ok_keeps [OF ok refl k [OF op]])
    show "fd \<notin> sock_of h b" using op assms(2) by auto
  qed
  have w: "wok work peer (K(fd \<mapsto> n)) lg h x" "fd \<notin> wfd h x" if "x \<in> set ws" for x
  proof -
    have ok: "wok work peer K lg h x" using assms(1) that by (simp add: iso_inv_def)
    note op = wok_open [OF ok]
    show "wok work peer (K(fd \<mapsto> n)) lg h x" by (rule wok_keeps [OF ok _ k [OF op]]) simp
    show "fd \<notin> wfd h x" using op assms(2) by auto
  qed
  have "apart h (MGot a fd n) qs ws" using assms(1) f w by (auto simp: iso_inv_def apart_def)
  moreover have "main_ok peer (K(fd \<mapsto> n)) lg h (MGot a fd n)" using no_bytes_yet [OF c] by (simp add: main_ok_def)
  ultimately show ?thesis using assms(1) c' f(1) w(1) unfolding iso_inv_def by blast
qed

lemma iso_fill:
  assumes "iso_inv work peer K lg n h (MGot a fd c) qs ws"
    and "data h' a = Some (fd, fst (peer c), snd (peer c), k)" "\<forall>b. b \<noteq> a \<longrightarrow> data h' b = data h b"
    and "a \<notin> set qs" "\<forall>w \<in> set ws. a \<notin> holds True w"
  shows "iso_inv work peer K lg n h' (MFilled a) qs ws"
proof -
  have "iso_inv work peer K lg n h MIdle qs ws" using assms(1) by (simp add: iso_inv_def apart_def main_ok_def)
  then have i: "iso_inv work peer K lg n h' MIdle qs ws"
    by (rule iso_heap) (use assms(3-5) in \<open>auto; metis\<close>)+
  have s: "sock_of h' a = {fd}" using assms(2) by (simp add: sock_of_def)
  have "sock_of h' b = sock_of h b" if "b \<in> set qs" for b
    using assms(3,4) that by (auto simp: sock_of_def)
  moreover have "wfd h' x = wfd h x" if "x \<in> set ws" for x
    using assms(3,5) that by (intro wfd_keeps) metis
  ultimately have "apart h' (MFilled a) qs ws" using assms(1) i s by (simp add: iso_inv_def apart_def)
  moreover have "frame_ok peer K lg h' a"
    using assms(1,2) by (auto simp: frame_ok_def iso_inv_def main_ok_def)
  ultimately show ?thesis using i by (simp add: iso_inv_def main_ok_def)
qed

lemma iso_queue:
  assumes "iso_inv work peer K lg n h (MFilled a) qs ws"
  shows "iso_inv work peer K lg n h MIdle (qs @ [a]) ws"
proof -
  have "disjoint_by (sock_of h) (qs @ [a])"
    using assms by (fastforce simp: iso_inv_def apart_def disjoint_by_def nth_append less_Suc_eq)
  then show ?thesis using assms by (auto simp: iso_inv_def apart_def main_ok_def)
qed

lemma iso_new_thread:
  "iso_inv work peer K lg n h mp qs ws \<Longrightarrow> iso_inv work peer K lg n h mp qs (ws @ [Waiting])"
  by (auto simp: iso_inv_def apart_def wok_def intro: disjoint_by_snoc)

lemma disjoint_by_ConsD:
  assumes "disjoint_by f (x # xs)"
  shows "disjoint_by f xs \<and> (\<forall>y \<in> set xs. f x \<inter> f y = {})"
proof -
  have d: "f ((x # xs) ! i) \<inter> f ((x # xs) ! j) = {}" if "i < Suc (length xs)" "j < Suc (length xs)" "i \<noteq> j" for i j
    using assms that by (simp add: disjoint_by_def)
  have "f (xs ! i) \<inter> f (xs ! j) = {}" if "i < length xs" "j < length xs" "i \<noteq> j" for i j
    using d [of "Suc i" "Suc j"] that by simp
  moreover have "f x \<inter> f (xs ! j) = {}" if "j < length xs" for j
    using d [of 0 "Suc j"] that by simp
  ultimately show ?thesis by (simp add: disjoint_by_def all_set_conv_all_nth)
qed

lemma iso_take:
  assumes "iso_inv work peer K lg n h mp (a # qs) ws" "i < length ws" "wfd h w \<subseteq> sock_of h a"
    and "wok work peer K lg h w"
  shows "iso_inv work peer K lg n h mp qs (ws[i := w])"
proof -
  have ap: "apart h mp (a # qs) ws" using assms(1) by (simp add: iso_inv_def)
  have dq: "disjoint_by (sock_of h) (a # qs)" using ap by (simp add: apart_def)
  have d: "sock_of h a \<inter> sock_of h b = {}" if "b \<in> set qs" for b
    using disjoint_by_ConsD [OF dq] that by blast
  have "disjoint_by (wfd h) (ws[i := w])"
  proof (rule disjoint_by_update)
    fix j assume "j < length ws"
    then have "wfd h (ws ! j) \<inter> sock_of h a = {}" using ap by (simp add: apart_def)
    then show "wfd h w \<inter> wfd h (ws ! j) = {}" using assms(3) by blast
  qed (use ap assms(2) in \<open>auto simp: apart_def\<close>)
  moreover have "disjoint_by (sock_of h) qs" using disjoint_by_ConsD [OF dq] by blast
  moreover have "wfd h x \<inter> sock_of h b = {}" if "x \<in> set (ws[i := w])" "b \<in> set qs" for x b
  proof (cases "x \<in> set ws")
    case False
    then have "x = w" using that(1) set_update_subset_insert [of ws i w] by blast
    then show ?thesis using d [OF that(2)] assms(3) by blast
  qed (use ap that(2) in \<open>simp add: apart_def\<close>)
  moreover have "wfd h x \<inter> mfd h mp = {}" if "x \<in> set (ws[i := w])" for x
  proof (cases "x \<in> set ws")
    case False
    then have "x = w" using that set_update_subset_insert [of ws i w] by blast
    moreover have "sock_of h a \<inter> mfd h mp = {}" using ap by (simp add: apart_def)
    ultimately show ?thesis using assms(3) by blast
  qed (use ap in \<open>simp add: apart_def\<close>)
  ultimately have "apart h mp qs (ws[i := w])" using ap by (simp add: apart_def)
  moreover have "wok work peer K lg h x" if "x \<in> set (ws[i := w])" for x
    using that assms(1,4) set_update_subset_insert [of ws i w] by (auto simp: iso_inv_def)
  ultimately show ?thesis using assms(1) by (simp add: iso_inv_def)
qed

section \<open>The invariant of the whole server\<close>

definition full_inv :: "work \<Rightarrow> (nat \<Rightarrow> string \<times> int) \<Rightarrow> server \<Rightarrow> bool" where
  "full_inv work peer s \<longleftrightarrow>
     (\<exists>qs ps own. sinv_at True s qs ps own \<and>
        iso_inv work peer (conns s) (out s) (nconns s) (heap (sv_frames s)) (main_pc s) qs (workers s))"

lemma chain_unique: "chain h p as \<Longrightarrow> chain h p bs \<Longrightarrow> as = bs"
proof (induction as arbitrary: p bs)
  case Nil
  then show ?case by (cases bs) auto
next
  case (Cons a as)
  then show ?case by (cases bs) (auto split: sum.splits)
qed

lemma full_invI:
  assumes "sinv True s" "chain (heap (sv_frames s)) (req_queue (sv_frames s)) qs"
    and "iso_inv work peer (conns s) (out s) (nconns s) (heap (sv_frames s)) (main_pc s) qs (workers s)"
  shows "full_inv work peer s"
proof -
  obtain qs' ps own where at: "sinv_at True s qs' ps own" using assms(1) unfolding sinv_def by blast
  then have "qs' = qs" using assms(2) chain_unique by (auto simp: sinv_at_def finv_def view_def)
  then show ?thesis using at assms(3) unfolding full_inv_def by blast
qed

lemma shaped_close: "shaped (xs @ CloseE # ys) r \<Longrightarrow> ys = [] \<and> r = Inr ()"
proof -
  have f: "CloseE \<notin> set zs" if "list_all is_file zs \<or> list_all is_send zs" for zs
    using that by (auto simp: list_all_iff)
  assume "shaped (xs @ CloseE # ys) r"
  then obtain files sends where s: "list_all is_file files" "list_all is_send sends"
    "xs @ CloseE # ys = files \<or> xs @ CloseE # ys = files @ Release # sends \<or>
     xs @ CloseE # ys = (files @ Release # sends) @ [CloseE] \<and> r = Inr ()"
    unfolding shaped_def by auto
  have "CloseE \<notin> set (files @ Release # sends)" using f [of files] f [of sends] s(1,2) by simp
  moreover have "CloseE \<in> set (xs @ CloseE # ys)" by simp
  ultimately have e: "xs @ CloseE # ys = (files @ Release # sends) @ [CloseE]" "r = Inr ()"
    using s(3) by (metis UnI1 set_append)+
  have "ys = []"
  proof (rule ccontr)
    assume "ys \<noteq> []"
    then have "xs @ CloseE # butlast ys = files @ Release # sends"
      using e(1) by (metis append_butlast_last_id butlast_snoc butlast_append list.distinct(1) butlast.simps(2))
    then show False using \<open>CloseE \<notin> set (files @ Release # sends)\<close> by (metis in_set_conv_decomp)
  qed
  then show ?thesis using e(2) by simp
qed

lemma expected_prefix:
  "work c (fst (peer c)) (snd (peer c)) = Some (before @ es, r) \<Longrightarrow> prefix (sent before) (expected work peer c)"
  by (simp add: expected_def)

text \<open>The frame at the head of the queue, and the state after a dispatcher took it.\<close>

lemma taken_frame:
  assumes "iso_inv work peer (conns s) (out s) (nconns s) (heap (sv_frames s)) (main_pc s) (a # qs) (workers s)"
    and "view (sv_frames s) (a # qs) ps own" "take_frame work i s = Inr s'"
  obtains fr' fd c g where "view fr' qs ps (insert a own)" "heap fr' = heap (sv_frames s)"
    "sock_of (heap (sv_frames s)) a = {fd}" "conns s fd = Some c" "bytes_to c (out s) = []" "fr_sock g = fd"
    "start_work work s g = work c (fst (peer c)) (snd (peer c))"
    "s' = set_worker i (case start_work work s g of None \<Rightarrow> Hung | Some (es, r) \<Rightarrow> Serving a (fr_sock g) es r)
       (s\<lparr>sv_frames := fr', busy_threads := busy_threads s + 1, taken := taken s @ [fr_count g]\<rparr>)"
proof -
  obtain fr' where fr': "dequeue_frame (sv_frames s) = Inr (Some a, fr')" "view fr' qs ps (insert a own)"
    using fm.deq_ok assms(2) by blast
  have h: "heap fr' = heap (sv_frames s)" by (rule heap_dequeue [OF fr'(1)])
  have "frame_ok peer (conns s) (out s) (heap (sv_frames s)) a" using assms(1) by (simp add: iso_inv_def)
  then obtain fd c k where c: "data (heap (sv_frames s)) a = Some (fd, fst (peer c), snd (peer c), k)"
    "conns s fd = Some c" "bytes_to c (out s) = []" unfolding frame_ok_def by blast
  obtain g where g: "deref (heap (sv_frames s)) a = Inr g" using deref_live view_queue_live [OF assms(2)] by force
  have pg: "fr_sock g = fd" "fr_ipaddr g = fst (peer c)" "fr_rport g = snd (peer c)"
    using data_deref [OF g] c(1) by (simp_all add: payload_def)
  show thesis
    by (rule that [OF fr'(2) h _ c(2,3) pg(1)])
      (use c pg g h fr'(1) assms(3) in \<open>simp_all add: sock_of_def start_work_def take_frame_def\<close>)
qed

context request_worker
begin

lemma iso_effect:
  assumes "iso_inv work peer K lg n h mp qs ws" "i < length ws" "ws ! i = Serving a fd (e # es) r"
  shows "e = Release \<or> is_file e \<Longrightarrow> iso_inv work peer K lg n h mp qs (ws[i := Serving a fd es r])"
    "e = SendE m \<Longrightarrow> iso_inv work peer K (lg @ [(K fd, m)]) n h mp qs (ws[i := Serving a fd es r])"
    "e = CloseE \<Longrightarrow> iso_inv work peer (K(fd := None)) lg n h mp qs (ws[i := Serving a fd es r])"
proof -
  have "wok work peer K lg h (ws ! i)" using assms(1,2) by (simp add: iso_inv_def)
  then obtain c before where c: "K fd = Some c" "work c (fst (peer c)) (snd (peer c)) = Some (before @ e # es, r)"
    "bytes_to c lg = sent before" "is_throw r \<longrightarrow> sock_of h a = {fd}"
    unfolding assms(3) wok_def by auto
  have w: "wfd h (Serving a fd es r) \<subseteq> wfd h (ws ! i)" "wfd h (ws ! i) = {fd}" by (simp_all add: assms(3))
  have ck: "conns_ok K lg n" and pre: "\<forall>c. prefix (bytes_to c lg) (expected work peer c)"
    using assms(1) by (simp_all add: iso_inv_def)
  have work': "work c (fst (peer c)) (snd (peer c)) = Some ((before @ [e]) @ es, r)" using c(2) by simp
  show "iso_inv work peer K lg n h mp qs (ws[i := Serving a fd es r])" if "e = Release \<or> is_file e"
  proof (rule iso_silent [OF assms(1,2) w(1)])
    have "bytes_to c lg = sent (before @ [e])" using c(3) that by (cases e) auto
    then show "wok work peer K lg h (Serving a fd es r)"
      using c(1,4) work' unfolding wok_def by auto
  qed
  show "iso_inv work peer K (lg @ [(K fd, m)]) n h mp qs (ws[i := Serving a fd es r])" if e: "e = SendE m"
  proof (rule iso_worker [OF assms(1,2) w(1)])
    show "keeps (- wfd h (ws ! i)) K lg K (lg @ [(K fd, m)])" unfolding w(2) by (rule keeps_send [OF ck c(1)])
    have b: "bytes_to c (lg @ [(K fd, m)]) = sent (before @ [e])" using c(1,3) e by (simp add: bytes_to_snoc)
    then show "wok work peer K (lg @ [(K fd, m)]) h (Serving a fd es r)"
      using c(1,4) work' unfolding wok_def by auto
    show "conns_ok K (lg @ [(K fd, m)]) n" by (rule keeps_send [OF ck c(1)])
    show "\<forall>d. prefix (bytes_to d (lg @ [(K fd, m)])) (expected work peer d)"
    proof
      fix d
      show "prefix (bytes_to d (lg @ [(K fd, m)])) (expected work peer d)"
        using pre b expected_prefix [of work c peer, OF work'] c(1) by (cases "d = c") (auto simp: bytes_to_snoc)
    qed
  qed
  show "iso_inv work peer (K(fd := None)) lg n h mp qs (ws[i := Serving a fd es r])" if e: "e = CloseE"
  proof (rule iso_worker [OF assms(1,2) w(1)])
    show "keeps (- wfd h (ws ! i)) K lg (K(fd := None)) lg" unfolding w(2) by (rule keeps_close [OF ck])
    show "conns_ok (K(fd := None)) lg n" by (rule keeps_close [OF ck])
    have "es = [] \<and> r = Inr ()" using shaped_close [of before es r] work_shaped [OF c(2)] e by simp
    then show "wok work peer (K(fd := None)) lg h (Serving a fd es r)" by (simp add: wok_def)
  qed (rule pre)
qed

lemma iso_throw:
  assumes "iso_inv work peer K lg n h mp qs ws" "i < length ws" "ws ! i = Serving a fd [] (Inl (Throw k))"
  shows "iso_inv work peer K lg n h mp qs (ws[i := Catching a])"
proof -
  have "wok work peer K lg h (ws ! i)" using assms(1,2) by (simp add: iso_inv_def)
  then show ?thesis
    unfolding assms(3) by (intro iso_silent [OF assms(1,2)]) (auto simp: wok_def assms(3) is_throw_def)
qed

lemma iso_catch_send:
  assumes "iso_inv work peer K lg n h mp qs ws" "i < length ws" "ws ! i = Catching a" "deref h a = Inr f"
  shows "iso_inv work peer K (lg @ [(K (fr_sock f), err_msg)]) n h mp qs (ws[i := Closing a])"
proof -
  have "wok work peer K lg h (ws ! i)" using assms(1,2) by (simp add: iso_inv_def)
  then obtain fd c es r where c: "sock_of h a = {fd}" "K fd = Some c"
    "work c (fst (peer c)) (snd (peer c)) = Some (es, r)" "is_throw r" "bytes_to c lg = sent es"
    unfolding assms(3) wok_def by auto
  have fd: "fr_sock f = fd" using c(1) data_deref [OF assms(4)] by (simp add: sock_of_def payload_def)
  have w: "wfd h (ws ! i) = {fd}" using c(1) assms(3) by simp
  have ck: "conns_ok K lg n" and pre: "\<forall>c. prefix (bytes_to c lg) (expected work peer c)"
    using assms(1) by (simp_all add: iso_inv_def)
  show ?thesis unfolding fd
  proof (rule iso_worker [OF assms(1,2)])
    show "wfd h (Closing a) \<subseteq> wfd h (ws ! i)" using assms(3) by simp
    show "keeps (- wfd h (ws ! i)) K lg K (lg @ [(K fd, err_msg)])" unfolding w by (rule keeps_send [OF ck c(2)])
    show "conns_ok K (lg @ [(K fd, err_msg)]) n" by (rule keeps_send [OF ck c(2)])
    show "wok work peer K (lg @ [(K fd, err_msg)]) h (Closing a)" using c(1,2) by (auto simp: wok_def)
    show "\<forall>d. prefix (bytes_to d (lg @ [(K fd, err_msg)])) (expected work peer d)"
      using pre c(2-5) by (auto simp: bytes_to_snoc expected_def)
  qed
qed

lemma iso_catch_close:
  assumes "iso_inv work peer K lg n h mp qs ws" "i < length ws" "ws ! i = Closing a" "deref h a = Inr f"
  shows "iso_inv work peer (K(fr_sock f := None)) lg n h mp qs (ws[i := Ending])"
proof -
  have w: "wfd h (ws ! i) = {fr_sock f}"
    using data_deref [OF assms(4)] assms(3) by (simp add: sock_of_def payload_def)
  have ck: "conns_ok K lg n" and pre: "\<forall>c. prefix (bytes_to c lg) (expected work peer c)"
    using assms(1) by (simp_all add: iso_inv_def)
  show ?thesis
    using keeps_close [OF ck, of "fr_sock f"] pre
    by (intro iso_worker [OF assms(1,2)]) (auto simp: w wok_def)
qed

lemma full_inv_accept:
  assumes "full_inv work peer s" "main_pc s = MIdle" "conns s fd = None" "accept_conn junk fd s = Inr s'"
    and "sinv True s'"
  shows "full_inv work peer s'"
proof -
  obtain qs ps own where at: "sinv_at True s qs ps own"
    and iso: "iso_inv work peer (conns s) (out s) (nconns s) (heap (sv_frames s)) (main_pc s) qs (workers s)"
    using assms(1) unfolding full_inv_def by blast
  have f: "finv True (sv_frames s) qs ps own MIdle (workers s)" using at assms(2) by (simp add: sinv_at_def)
  obtain a fr' where a: "get_frame junk (sv_frames s) = Inr (a, fr')"
      "finv True fr' qs (tl ps) (insert a own) (MGot a fd (nconns s)) (workers s)"
    using finv_get [OF f] by metis
  have s': "s' = s\<lparr>sv_frames := fr', conns := (conns s)(fd \<mapsto> nconns s), nconns := Suc (nconns s),
      main_pc := MGot a fd (nconns s)\<rparr>" using assms(4) a(1) by (simp add: accept_conn_def)
  have live: "live (heap (sv_frames s)) b" if "b \<in> set qs \<or> b \<in> own" for b
    using f that view_queue_live [of "sv_frames s" qs ps own b] by (auto simp: finv_def view_def)
  have d: "data (heap fr') b = data (heap (sv_frames s)) b" if "b \<in> set qs \<or> b \<in> own" for b
    by (rule data_get [OF a(1) live [OF that]])
  have "iso_inv work peer (conns s) (out s) (nconns s) (heap fr') MIdle qs (workers s)"
    using iso unfolding assms(2) by (rule iso_heap) (use d f in \<open>auto simp: finv_def\<close>)
  from iso_accept [OF this assms(3)] show ?thesis
    using a(2) by (intro full_invI [OF assms(5), of qs]) (auto simp: s' finv_def view_def)
qed

lemma full_inv_fill:
  assumes "full_inv work peer s" "main_pc s = MGot a fd c" "fill_frame peer a fd c s = Inr s'" "sinv True s'"
  shows "full_inv work peer s'"
proof -
  obtain qs ps own where at: "sinv_at True s qs ps own"
    and iso: "iso_inv work peer (conns s) (out s) (nconns s) (heap (sv_frames s)) (main_pc s) qs (workers s)"
    using assms(1) unfolding full_inv_def by blast
  have f: "finv True (sv_frames s) qs ps own (MGot a fd c) (workers s)" using at assms(2) by (simp add: sinv_at_def)
  obtain g where g: "deref (heap (sv_frames s)) a = Inr g" using finv_fill [OF f] by metis
  let ?g = "g\<lparr>fr_sock := fd, fr_ipaddr := fst (peer c), fr_rport := snd (peer c), fr_count := tcount s\<rparr>"
  let ?h = "(heap (sv_frames s))[a := Some ?g]"
  have s': "s' = s\<lparr>sv_frames := (sv_frames s)\<lparr>heap := ?h\<rparr>, main_pc := MFilled a\<rparr>"
    using assms(3) g by (simp add: fill_frame_def)
  have len: "a < length (heap (sv_frames s))" using g by (simp add: deref_Inr)
  have d: "data ?h a = Some (fd, fst (peer c), snd (peer c), tcount s)"
    "\<forall>b. b \<noteq> a \<longrightarrow> data ?h b = data (heap (sv_frames s)) b"
    using len by (simp_all add: data_update payload_def)
  have n: "a \<notin> set qs" "\<forall>w \<in> set (workers s). a \<notin> holds True w"
    using f by (auto simp: finv_def view_def)
  have "iso_inv work peer (conns s) (out s) (nconns s) ?h (MFilled a) qs (workers s)"
    by (rule iso_fill [OF iso [unfolded assms(2)] d n])
  then show ?thesis
    using f n(1) by (intro full_invI [OF assms(4), of qs]) (auto simp: s' finv_def view_def)
qed

lemma full_inv_queue:
  assumes "full_inv work peer s" "main_pc s = MFilled a" "queue_frame a s = Inr s'" "sinv True s'"
  shows "full_inv work peer s'"
proof -
  obtain qs ps own where at: "sinv_at True s qs ps own"
    and iso: "iso_inv work peer (conns s) (out s) (nconns s) (heap (sv_frames s)) (main_pc s) qs (workers s)"
    using assms(1) unfolding full_inv_def by blast
  define s1 where "s1 = (if busy_threads s \<ge> int (nthreads s) then add_thread s else s)"
  have s1: "sv_frames s1 = sv_frames s" "conns s1 = conns s" "out s1 = out s" "nconns s1 = nconns s"
    by (auto simp: s1_def add_thread_def)
  have f: "finv True (sv_frames s1) qs ps own (MFilled a) (workers s)"
    using at assms(2) s1 by (simp add: sinv_at_def)
  obtain fr' where fr': "enqueue_frame (sv_frames s1) a = Inr (fr', qs = [])" "finv True fr' (qs @ [a]) ps (own - {a}) MIdle (workers s)"
    using finv_queue [OF f] by metis
  have s': "s' = s1\<lparr>sv_frames := fr', tcount := Suc (tcount s1), main_pc := MIdle\<rparr>"
    using assms(3) fr'(1) by (simp add: queue_frame_def s1_def [symmetric])
  have "iso_inv work peer (conns s) (out s) (nconns s) (heap (sv_frames s)) MIdle (qs @ [a]) (workers s)"
    using iso unfolding assms(2) by (rule iso_queue)
  then have "iso_inv work peer (conns s) (out s) (nconns s) (heap fr') MIdle (qs @ [a]) (workers s)"
    by (rule iso_heap) (use data_enqueue [OF fr'(1)] s1 in auto)
  then have "iso_inv work peer (conns s) (out s) (nconns s) (heap fr') MIdle (qs @ [a]) (workers s1)"
    using iso_new_thread by (auto simp: s1_def add_thread_def)
  then show ?thesis
    using fr'(2) s1 by (intro full_invI [OF assms(4), of "qs @ [a]"]) (auto simp: s' finv_def view_def)
qed

lemma full_inv_take:
  assumes "full_inv work peer s" "i < length (workers s)" "take_frame work i s = Inr s'" "sinv True s'"
  shows "full_inv work peer s'"
proof -
  obtain qs ps own where at: "sinv_at True s qs ps own"
    and iso: "iso_inv work peer (conns s) (out s) (nconns s) (heap (sv_frames s)) (main_pc s) qs (workers s)"
    using assms(1) unfolding full_inv_def by blast
  have v: "view (sv_frames s) qs ps own" using at by (simp add: sinv_at_def finv_def)
  show ?thesis
  proof (cases qs)
    case Nil
    then have "s' = s" using v fm.deq_empty assms(3) by (auto simp: take_frame_def)
    then show ?thesis using assms(1) by simp
  next
    case (Cons a qs')
    note iso = iso [unfolded Cons]
    obtain fr' fd c g where t: "view fr' qs' ps (insert a own)" "heap fr' = heap (sv_frames s)"
        "sock_of (heap (sv_frames s)) a = {fd}" "conns s fd = Some c" "bytes_to c (out s) = []" "fr_sock g = fd"
        "start_work work s g = work c (fst (peer c)) (snd (peer c))"
        "s' = set_worker i (case start_work work s g of None \<Rightarrow> Hung | Some (es, r) \<Rightarrow> Serving a (fr_sock g) es r)
          (s\<lparr>sv_frames := fr', busy_threads := busy_threads s + 1, taken := taken s @ [fr_count g]\<rparr>)"
      using taken_frame [OF iso v [unfolded Cons] assms(3)] .
    let ?w = "case start_work work s g of None \<Rightarrow> Hung | Some (es, r) \<Rightarrow> Serving a (fr_sock g) es r"
    have w: "wfd (heap (sv_frames s)) ?w \<subseteq> sock_of (heap (sv_frames s)) a"
      using t(3,6) by (auto split: option.splits)
    have "wok work peer (conns s) (out s) (heap (sv_frames s)) ?w"
      using t(3-7) by (force simp: wok_def split: option.splits)
    from iso_take [OF iso assms(2) w this]
    have "iso_inv work peer (conns s) (out s) (nconns s) (heap (sv_frames s)) (main_pc s) qs' ((workers s)[i := ?w])" .
    then show ?thesis
      using t(1,2,8) by (intro full_invI [OF assms(4), of qs']) (auto simp: set_worker_def view_def)
  qed
qed

lemma full_inv_worker:
  assumes "full_inv work peer s" "sinv True (set_worker i w s')"
    and "\<And>qs. iso_inv work peer (conns s) (out s) (nconns s) (heap (sv_frames s)) (main_pc s) qs (workers s) \<Longrightarrow>
      iso_inv work peer (conns s') (out s') (nconns s') (heap (sv_frames s)) (main_pc s') qs ((workers s)[i := w])"
    and "workers s' = workers s" "req_queue (sv_frames s') = req_queue (sv_frames s)"
    and "\<forall>a. data (heap (sv_frames s')) a = data (heap (sv_frames s)) a"
    and "\<And>qs. chain (heap (sv_frames s)) (req_queue (sv_frames s)) qs \<Longrightarrow>
      chain (heap (sv_frames s')) (req_queue (sv_frames s')) qs"
  shows "full_inv work peer (set_worker i w s')"
proof -
  obtain qs ps own where at: "sinv_at True s qs ps own"
    and iso: "iso_inv work peer (conns s) (out s) (nconns s) (heap (sv_frames s)) (main_pc s) qs (workers s)"
    using assms(1) unfolding full_inv_def by blast
  have "chain (heap (sv_frames s')) (req_queue (sv_frames s')) qs"
    using at by (intro assms(7)) (simp add: sinv_at_def finv_def view_def)
  moreover have "iso_inv work peer (conns s') (out s') (nconns s') (heap (sv_frames s')) (main_pc s') qs ((workers s)[i := w])"
    using assms(3) [OF iso] by (rule iso_heap) (use assms(6) in auto)
  ultimately show ?thesis
    using assms(4) by (intro full_invI [OF assms(2), of qs]) (simp_all add: set_worker_def)
qed

lemma release_keeps_queue:
  assumes "full_inv work peer s" "i < length (workers s)" "workers s ! i = Serving a fd (Release # es) r"
    and "release_frame (sv_frames s) a = Inr fr'" "chain (heap (sv_frames s)) (req_queue (sv_frames s)) qs"
  shows "chain (heap fr') (req_queue fr') qs"
proof -
  obtain qs' ps own where at: "sinv_at True s qs' ps own" using assms(1) unfolding full_inv_def by blast
  then have f: "finv True (sv_frames s) qs' ps own (main_pc s) (workers s)" by (simp add: sinv_at_def)
  have "qs' = qs" using f assms(5) chain_unique by (auto simp: finv_def view_def)
  then show ?thesis
    using finv_release [OF f assms(2,3)] assms(4) by (metis Inr_inject finv_def view_def)
qed

lemma full_inv_effect:
  assumes "full_inv work peer s" "i < length (workers s)" "workers s ! i = Serving a fd (e # es) r"
    and "perform a fd e s = Inr s'" "sinv True (set_worker i (Serving a fd es r) s')"
  shows "full_inv work peer (set_worker i (Serving a fd es r) s')"
proof (cases e)
  case Release
  then obtain fr' where fr': "release_frame (sv_frames s) a = Inr fr'" "s' = s\<lparr>sv_frames := fr'\<rparr>"
    using assms(4) by (auto simp: perform_def bindR_eq_Inr)
  have q: "req_queue fr' = req_queue (sv_frames s)"
    using fr'(1) by (auto simp: release_frame_def bindR_eq_Inr split: if_splits)
  show ?thesis
    by (rule full_inv_worker [OF assms(1,5)])
      (use iso_effect(1) [OF _ assms(2,3)] fr' q data_release [OF fr'(1)] Release
        release_keeps_queue [OF assms(1,2) assms(3) [unfolded Release] fr'(1)] in auto)
next
  case (SendE m)
  then show ?thesis
    using assms(4) iso_effect(2) [OF _ assms(2,3)]
    by (intro full_inv_worker [OF assms(1,5)]) (auto simp: perform_def send_to_def)
next
  case CloseE
  then show ?thesis
    using assms(4) iso_effect(3) [OF _ assms(2,3)]
    by (intro full_inv_worker [OF assms(1,5)]) (auto simp: perform_def close_fd_def)
next
  case (FileE p c)
  then show ?thesis
    using assms(4) iso_effect(1) [OF _ assms(2,3)]
    by (intro full_inv_worker [OF assms(1,5)]) (auto simp: perform_def)
qed

lemma full_inv_step:
  assumes "sstep work peer s s'" "full_inv work peer s" "no_late_throw work"
  shows "full_inv work peer s'"
proof -
  have "sinv True s" using assms(2) unfolding full_inv_def sinv_def by blast
  then have sinv: "sinv True s'" using sinv_step [OF assms(1)] assms(3) by blast
  note worker = full_inv_worker [OF assms(2)]
  from assms(1) show ?thesis
  proof cases
    case (accept fd junk)
    then show ?thesis using full_inv_accept [OF assms(2)] sinv by blast
  next
    case (fill a fd c)
    then show ?thesis using full_inv_fill [OF assms(2)] sinv by blast
  next
    case (queue a)
    then show ?thesis using full_inv_queue [OF assms(2)] sinv by blast
  next
    case (take i)
    then show ?thesis using full_inv_take [OF assms(2)] sinv by blast
  next
    case (effect i a fd e es r s1)
    then show ?thesis using full_inv_effect [OF assms(2) effect(3-5)] sinv by simp
  next
    case (finish i a fd)
    show ?thesis unfolding finish(1)
      by (rule worker) (use sinv finish iso_silent [of work peer _ _ _ _ _ _ _ i Ending] in \<open>auto simp: wok_def\<close>)
  next
    case (throw i a fd k)
    show ?thesis unfolding throw(1)
      by (rule worker) (use sinv throw iso_throw in auto)
  next
    case (crash i a fd e)
    then show ?thesis using assms(2) by (simp add: full_inv_def sinv_at_def)
  next
    case (catch_send i a s1)
    then obtain f where f: "deref (heap (sv_frames s)) a = Inr f" "s1 = send_to (fr_sock f) err_msg s"
      by (auto simp: catch_send_def bindR_eq_Inr)
    show ?thesis unfolding catch_send(1)
      by (rule worker) (use sinv catch_send f iso_catch_send [OF _ catch_send(3,4) f(1)] in \<open>auto simp: send_to_def\<close>)
  next
    case (catch_close i a s1)
    then obtain f where f: "deref (heap (sv_frames s)) a = Inr f" "s1 = close_fd (fr_sock f) s"
      by (auto simp: catch_close_def bindR_eq_Inr)
    show ?thesis unfolding catch_close(1)
      by (rule worker) (use sinv catch_close f iso_catch_close [OF _ catch_close(3,4) f(1)] in \<open>auto simp: close_fd_def\<close>)
  next
    case (read_busy i)
    show ?thesis unfolding read_busy(1)
      by (rule worker) (use sinv read_busy iso_silent [of work peer _ _ _ _ _ _ _ i "Storing (busy_threads s)"] in \<open>auto simp: wok_def\<close>)
  next
    case (store_busy i v)
    show ?thesis unfolding store_busy(1)
      by (rule worker) (use sinv store_busy iso_silent [of work peer _ _ _ _ _ _ _ i Waiting] in \<open>auto simp: wok_def\<close>)
  qed
qed

lemma full_inv_init: "full_inv work peer (init_server maxt)"
proof (rule full_invI [OF sinv_init, where qs = "[]"])
  show "iso_inv work peer (conns (init_server maxt)) (out (init_server maxt)) (nconns (init_server maxt))
      (heap (sv_frames (init_server maxt))) (main_pc (init_server maxt)) [] (workers (init_server maxt))"
    by (simp add: init_server_def iso_inv_def apart_def conns_ok_def main_ok_def disjoint_by_def)
qed (simp add: init_server_def init_frames_def)

lemma full_inv_start: "full_inv work peer s \<Longrightarrow> full_inv work peer (start_threads n s)"
proof (induction n arbitrary: s)
  case (Suc n)
  then obtain qs ps own where at: "sinv_at True s qs ps own"
    and iso: "iso_inv work peer (conns s) (out s) (nconns s) (heap (sv_frames s)) (main_pc s) qs (workers s)"
    unfolding full_inv_def by blast
  have "full_inv work peer (add_thread s)"
    unfolding full_inv_def using sinv_at_add_thread [OF at] iso iso_new_thread [OF iso]
    by (intro exI [of _ qs] exI [of _ ps] exI [of _ own]) (simp add: add_thread_def)
  then show ?case using Suc.IH by simp
qed simp

lemma isolation:
  assumes "reachable work peer maxt cpus s" "no_late_throw work"
  shows "(\<forall>c. prefix (bytes_to c (out s)) (expected work peer c)) \<and> (\<forall>x \<in> set (out s). fst x \<noteq> None)"
proof -
  have "full_inv work peer s"
    using assms by (induction rule: reachable.induct) (blast intro: full_inv_init full_inv_start full_inv_step)+
  then obtain qs where "iso_inv work peer (conns s) (out s) (nconns s) (heap (sv_frames s)) (main_pc s) qs (workers s)"
    unfolding full_inv_def by blast
  then show ?thesis by (auto simp: iso_inv_def conns_ok_def)
qed

end

lemma max_threads_constant: "reachable work peer maxt cpus s \<Longrightarrow> max_threads s = maxt"
proof (induction rule: reachable.induct)
  case (further s s')
  from further(2) have "max_threads s' = max_threads s"
    by cases (auto simp: accept_conn_def fill_frame_def queue_frame_def add_thread_def take_frame_def perform_def
        catch_send_def catch_close_def send_to_def close_fd_def set_worker_def bindR_eq_Inr Let_def
        split: option.splits eff.splits if_splits)
  then show ?case using further by simp
next
  case start
  have "max_threads (start_threads n s) = max_threads s" for n s
    by (induction n arbitrary: s) (simp_all add: add_thread_def)
  then show ?case by (simp add: init_server_def)
qed

text \<open>The server with \<open>process_request\<close> as its work.\<close>

abbreviation gusher :: "(nat \<Rightarrow> env) \<Rightarrow> htable \<Rightarrow> (nat \<Rightarrow> inev list) \<Rightarrow> work" where
  "gusher env t inp \<equiv> \<lambda>c ip p. process_request (env c) t ip p (inp c)"

section \<open>Traces\<close>

text \<open>The states of the traces below, as explicit records.\<close>

definition frame_at :: "(nat \<Rightarrow> string \<times> int) \<Rightarrow> int \<Rightarrow> nat \<Rightarrow> nat \<Rightarrow> rframe" where
  "frame_at peer fd c n =
     \<lparr>fr_sock = fd, fr_ipaddr = fst (peer c), fr_rport = snd (peer c), fr_count = n, fr_next = None\<rparr>"

definition frames_at :: "rframe list \<Rightarrow> nat option \<Rightarrow> nat option \<Rightarrow> nat option \<Rightarrow> frames" where
  "frames_at fs pool queue last_in =
     \<lparr>heap = Some zero_frame # map Some fs, req_pool = pool, req_queue = queue, req_tail = last_in, threading = True\<rparr>"

definition server_at :: "nat \<Rightarrow> frames \<Rightarrow> nat \<Rightarrow> int \<Rightarrow> nat \<Rightarrow> (int \<rightharpoonup> nat) \<Rightarrow> nat \<Rightarrow> main_pc \<Rightarrow> worker list \<Rightarrow>
    (nat option \<times> string) list \<Rightarrow> nat list \<Rightarrow> server" where
  "server_at maxt fr nt busy tc K n mp ws lg tk =
     \<lparr>sv_frames = fr, nthreads = nt, busy_threads = busy, max_threads = maxt, tcount = tc, conns = K, nconns = n,
      main_pc = mp, workers = ws, out = lg, taken = tk, crashed = False\<rparr>"

lemmas trace_defs = server_at_def frames_at_def frame_at_def init_server_def init_frames_def zero_frame_def
  accept_conn_def fill_frame_def queue_frame_def add_thread_def take_frame_def perform_def catch_send_def
  catch_close_def send_to_def close_fd_def set_worker_def start_work_def get_frame_def release_frame_def
  enqueue_frame_def dequeue_frame_def deref_def

lemma first_request_taken:
  assumes "work 0 (fst (peer 0)) (snd (peer 0)) = Some (es, r)" "0 < maxt"
  shows "reachable work peer maxt 1 (server_at maxt (frames_at [frame_at peer 3 0 0] None None (Some 1)) 1 1 1
    [3 \<mapsto> 0] 1 MIdle [Serving 1 3 es r] [] [0])"
proof -
  let ?f = "frame_at peer 3 0 0"
  let ?s1 = "server_at maxt (frames_at [zero_frame] None None None) 1 0 0 [3 \<mapsto> 0] 1 (MGot 1 3 0) [Waiting] [] []"
  let ?s2 = "server_at maxt (frames_at [?f] None None None) 1 0 0 [3 \<mapsto> 0] 1 (MFilled 1) [Waiting] [] []"
  let ?s3 = "server_at maxt (frames_at [?f] None (Some 1) (Some 1)) 1 0 1 [3 \<mapsto> 0] 1 MIdle [Waiting] [] []"
  have "reachable work peer maxt 1 ?s1"
    by (rule further [OF start accept [where fd = 3 and junk = zero_frame]])
      (use assms(2) in \<open>simp_all add: trace_defs\<close>)
  then have "reachable work peer maxt 1 ?s2"
    by (rule further [OF _ fill [where a = 1 and fd = 3 and c = 0]]) (simp_all add: trace_defs)
  then have "reachable work peer maxt 1 ?s3"
    by (rule further [OF _ queue [where a = 1]]) (simp_all add: trace_defs)
  then show ?thesis
    by (rule further [OF _ take [where i = 0]]) (use assms(1) in \<open>simp_all add: trace_defs\<close>)
qed

lemma empty_connection: "process_request env t ip p [] = Some ([], Inr ())"
  by (simp add: process_request_def build_request.simps mygetline.simps BUF_SIZE_def)

lemma empty_connections_quiet: "no_late_throw (gusher env t (\<lambda>_. []))"
  by (simp add: no_late_throw_def empty_connection is_throw_def)

lemma empty_connection_taken:
  "reachable (gusher env t (\<lambda>_. [])) peer 2 1 (server_at 2 (frames_at [frame_at peer 3 0 0] None None (Some 1)) 1 1 1
     [3 \<mapsto> 0] 1 MIdle [Serving 1 3 [] (Inr ())] [] [0])"
  by (rule first_request_taken) (simp_all add: empty_connection)

lemma throwing_request:
  "process_request (sample_env\<lparr>e_app := \<lambda>_ _. Inl (Throw ''boom'')\<rparr>) (register_all [(''/'', SProc 1)]) ip p
     [Bytes (''GET / HTTP/1.1'' @ CRLF @ CRLF)] = Some ([Release], Inl (Throw ''boom''))"
proof -
  let ?t = "register_all [(''/'', SProc 1)]" and ?req = "get_request ip p ''GET'' ''/'' []"
  have s: "stream [Bytes (''GET / HTTP/1.1'' @ CRLF @ CRLF)] =
      request_line ''GET'' ''/'' ''HTTP/1.1'' @ CRLF @ render_headers [] @ CRLF @ []"
    by (simp add: request_line_def render_headers_def)
  have l: "ok_request_line ''GET'' ''/'' ''HTTP/1.1''"
    by (simp add: ok_request_line_def clean_def request_line_def BUF_SIZE_def)
  have p: "plain_headers []" "well_escaped (url_query ''/'')" by code_simp+
  have f: "find_entry (handlers ?t) (url_path ''/'') = Some (SProc 1, [])" by code_simp
  have "find_handler ?t ?req = Inr (SCons (SProc 1) (SStr []))"
    using find_handler_get [OF l p(1)] f by simp
  moreover have "session_cookie ?req = Inr None"
    by (simp add: session_cookie_def get_request_def header_fields_def line_fields_def assq_ref_def acons_def)
  ultimately show ?thesis
    using process_get [OF s l _ p(1) _ p(2)] run_responder_found by simp
qed

section \<open>Properties\<close>

text \<open>
  C1: response isolation. If the application does not throw once it has the request, then in
  every interleaving of the main thread and any number of dispatchers, with every reuse of
  frames and socket descriptors, the bytes that reach a connection are a prefix of the reply to
  its own request (or of the error page for its own malformed request), and nothing is ever sent
  on a descriptor that is not open.
\<close>

theorem response_isolation:
  assumes "reachable (gusher env t inp) peer maxt cpus s" "no_late_throw (gusher env t inp)"
  shows "(\<forall>c. prefix (bytes_to c (out s)) (expected (gusher env t inp) peer c)) \<and>
    (\<forall>x \<in> set (out s). fst x \<noteq> None)"
  using assms by (rule rw.isolation)

theorem response_isolation_witness:
  "\<exists>s. reachable (gusher (\<lambda>_. sample_env) empty_table (\<lambda>_. [])) (\<lambda>c. (''10.0.0.1'', 5000)) 2 1 s \<and> taken s = [0] \<and>
     (\<forall>c. prefix (bytes_to c (out s)) (expected (gusher (\<lambda>_. sample_env) empty_table (\<lambda>_. [])) (\<lambda>c. (''10.0.0.1'', 5000)) c))"
  using response_isolation [OF empty_connection_taken empty_connections_quiet]
    empty_connection_taken [of "\<lambda>_. sample_env" empty_table "\<lambda>c. (''10.0.0.1'', 5000)"]
  by (fastforce simp: server_at_def)

text \<open>
  C12: frames are never lost track of. Whatever the application does, in every reachable state of
  the threaded server the queue, the pool and the frames in use are disjoint chains of live
  frames, no frame is held by two threads, and no operation on the shared structures that a
  thread is about to perform can fault.
\<close>

theorem server_frames_safe:
  assumes "reachable (gusher env t inp) peer maxt cpus s"
  shows "(\<exists>qs ps own. finv False (sv_frames s) qs ps own (main_pc s) (workers s)) \<and>
    (main_pc s = MIdle \<longrightarrow> (\<exists>s'. accept_conn junk fd s = Inr s')) \<and>
    (\<forall>a fd c. main_pc s = MGot a fd c \<longrightarrow> (\<exists>s'. fill_frame peer a fd c s = Inr s')) \<and>
    (\<forall>a. main_pc s = MFilled a \<longrightarrow> (\<exists>s'. queue_frame a s = Inr s')) \<and>
    (\<forall>i < length (workers s).
       (workers s ! i = Waiting \<longrightarrow> (\<exists>s'. take_frame (gusher env t inp) i s = Inr s')) \<and>
       (\<forall>a fd e es r. workers s ! i = Serving a fd (e # es) r \<longrightarrow> (\<exists>s'. perform a fd e s = Inr s')) \<and>
       (\<forall>a. workers s ! i = Catching a \<longrightarrow> (\<exists>s'. catch_send a s = Inr s')) \<and>
       (\<forall>a. workers s ! i = Closing a \<longrightarrow> (\<exists>s'. catch_close a s = Inr s')))"
proof -
  have inv: "sinv False s" using rw.sinv_reachable [OF assms] by simp
  note go = rw.steps_enabled [OF inv, of env t inp, simplified]
  have "\<exists>qs ps own. finv False (sv_frames s) qs ps own (main_pc s) (workers s)"
    using inv unfolding sinv_def sinv_at_def by blast
  then show ?thesis by (intro conjI allI impI) (assumption | erule go | rule go, assumption+)+
qed

theorem server_frames_safe_witness:
  "\<exists>s. reachable (gusher (\<lambda>_. sample_env) empty_table (\<lambda>_. [])) (\<lambda>c. (''10.0.0.1'', 5000)) 2 1 s \<and>
     (\<exists>s'. accept_conn zero_frame 4 s = Inr s')"
  using server_frames_safe [OF empty_connection_taken, where junk = zero_frame and fd = 4]
    empty_connection_taken [of "\<lambda>_. sample_env" empty_table "\<lambda>c. (''10.0.0.1'', 5000)"]
  by (fastforce simp: server_at_def)

text \<open>
  C13: no request is lost, duplicated or overtaken in the queue: in every reachable state the
  requests the dispatchers have taken, in the order they took them, followed by the ones still
  queued, are exactly the requests accepted so far in the order of their arrival.
\<close>

theorem requests_in_order:
  assumes "reachable (gusher env t inp) peer maxt cpus s"
  shows "\<exists>qs. chain (heap (sv_frames s)) (req_queue (sv_frames s)) qs \<and>
    taken s @ map (frame_count (sv_frames s)) qs = [0..<tcount s]"
proof -
  have "sinv False s" using rw.sinv_reachable [OF assms] by simp
  then show ?thesis unfolding sinv_def sinv_at_def finv_def view_def by blast
qed

theorem requests_in_order_witness:
  "\<exists>s qs. reachable (gusher (\<lambda>_. sample_env) empty_table (\<lambda>_. [])) (\<lambda>c. (''10.0.0.1'', 5000)) 2 1 s \<and> tcount s = 1 \<and>
     taken s @ map (frame_count (sv_frames s)) qs = [0..<1]"
  using requests_in_order [OF empty_connection_taken]
    empty_connection_taken [of "\<lambda>_. sample_env" empty_table "\<lambda>c. (''10.0.0.1'', 5000)"]
  by (fastforce simp: server_at_def)

text \<open>
  the thread pool is bounded: there are exactly \<open>nthreads\<close> dispatchers, never more than the
  configured maximum, in spite of the unprotected \<open>busy_threads\<close> that decides about new ones.
\<close>

theorem threads_bounded:
  assumes "reachable (gusher env t inp) peer maxt cpus s"
  shows "length (workers s) = nthreads s \<and> nthreads s \<le> maxt"
proof -
  have "sinv False s" using rw.sinv_reachable [OF assms] by simp
  then show ?thesis using max_threads_constant [OF assms] unfolding sinv_def sinv_at_def by auto
qed

theorem threads_bounded_witness:
  "\<exists>s. reachable (gusher (\<lambda>_. sample_env) empty_table (\<lambda>_. [])) (\<lambda>c. (''10.0.0.1'', 5000)) 2 1 s \<and>
     length (workers s) = 1 \<and> nthreads s = 1"
  using threads_bounded [OF empty_connection_taken]
    empty_connection_taken [of "\<lambda>_. sample_env" empty_table "\<lambda>c. (''10.0.0.1'', 5000)"]
  by (fastforce simp: server_at_def)

text \<open>
  C25: the error page goes to the wrong client. When a handler throws after its frame went back
  to the pool, \<open>catch_req\<close> uses the socket that is in the frame by then: there is an
  interleaving in which the next client receives the error page and is disconnected before a
  thread has even looked at its request, while the client whose request failed gets nothing and
  its socket stays open.
\<close>

theorem error_page_crosstalk:
  assumes "\<forall>ip p. gusher env t inp 0 ip p = Some ([Release], Inl (Throw k))" "0 < maxt"
  shows "\<exists>s. reachable (gusher env t inp) peer maxt 1 s \<and> out s = [(Some 1, err_msg)] \<and>
    conns s = [3 \<mapsto> 0] \<and> taken s = [0]"
proof -
  let ?work = "gusher env t inp" and ?f = "frame_at peer 3 0 0" and ?g = "frame_at peer 4 1 1"
  let ?r = "Inl (Throw k) :: unit res"
  let ?K = "[3 \<mapsto> 0, 4 \<mapsto> 1] :: int \<rightharpoonup> nat"
  let ?t1 = "server_at maxt (frames_at [?f] (Some 1) None (Some 1)) 1 1 1 [3 \<mapsto> 0] 1 MIdle [Serving 1 3 [] ?r] [] [0]"
  let ?t2 = "server_at maxt (frames_at [?f] None None (Some 1)) 1 1 1 ?K 2 (MGot 1 4 1) [Serving 1 3 [] ?r] [] [0]"
  let ?t3 = "server_at maxt (frames_at [?g] None None (Some 1)) 1 1 1 ?K 2 (MFilled 1) [Serving 1 3 [] ?r] [] [0]"
  let ?t4 = "server_at maxt (frames_at [?g] None None (Some 1)) 1 1 1 ?K 2 (MFilled 1) [Catching 1] [] [0]"
  let ?t5 = "server_at maxt (frames_at [?g] None None (Some 1)) 1 1 1 ?K 2 (MFilled 1) [Closing 1] [(Some 1, err_msg)] [0]"
  let ?t6 = "server_at maxt (frames_at [?g] None None (Some 1)) 1 1 1 (?K(4 := None)) 2 (MFilled 1) [Ending] [(Some 1, err_msg)] [0]"
  have "reachable ?work peer maxt 1 (server_at maxt (frames_at [?f] None None (Some 1)) 1 1 1
      [3 \<mapsto> 0] 1 MIdle [Serving 1 3 [Release] ?r] [] [0])"
    by (rule first_request_taken) (use assms in auto)
  moreover have "sstep ?work peer (server_at maxt (frames_at [?f] None None (Some 1)) 1 1 1
      [3 \<mapsto> 0] 1 MIdle [Serving 1 3 [Release] ?r] [] [0]) ?t1"
    using effect [where i = 0 and a = 1 and fd = 3 and e = Release and es = "[]" and r = ?r and work = ?work and peer = peer,
      of "server_at maxt (frames_at [?f] None None (Some 1)) 1 1 1 [3 \<mapsto> 0] 1 MIdle [Serving 1 3 [Release] ?r] [] [0]"]
    by (simp add: trace_defs)
  ultimately have "reachable ?work peer maxt 1 ?t1" by (rule further)
  then have "reachable ?work peer maxt 1 ?t2"
    by (rule further [OF _ accept [where fd = 4 and junk = zero_frame]]) (simp_all add: trace_defs)
  then have "reachable ?work peer maxt 1 ?t3"
    by (rule further [OF _ fill [where a = 1 and fd = 4 and c = 1]]) (simp_all add: trace_defs)
  moreover have "sstep ?work peer ?t3 ?t4"
    using throw [where i = 0 and a = 1 and fd = 3 and k = k and work = ?work and peer = peer, of ?t3]
    by (simp add: trace_defs)
  ultimately have "reachable ?work peer maxt 1 ?t4" by (rule further)
  moreover have "sstep ?work peer ?t4 ?t5"
    using catch_send [where i = 0 and a = 1 and work = ?work and peer = peer, of ?t4] by (simp add: trace_defs)
  ultimately have "reachable ?work peer maxt 1 ?t5" by (rule further)
  moreover have "sstep ?work peer ?t5 ?t6"
    using catch_close [where i = 0 and a = 1 and work = ?work and peer = peer, of ?t5] by (simp add: trace_defs)
  ultimately have "reachable ?work peer maxt 1 ?t6" by (rule further)
  then show ?thesis by (intro exI [of _ ?t6]) (simp add: server_at_def fun_eq_iff)
qed

theorem error_page_crosstalk_witness:
  "\<exists>s. reachable (gusher (\<lambda>_. sample_env\<lparr>e_app := \<lambda>_ _. Inl (Throw ''boom'')\<rparr>) (register_all [(''/'', SProc 1)])
       (\<lambda>_. [Bytes (''GET / HTTP/1.1'' @ CRLF @ CRLF)])) (\<lambda>c. (''10.0.0.1'', 5000)) 8 1 s \<and>
     out s = [(Some 1, err_msg)] \<and> conns s = [3 \<mapsto> 0] \<and> taken s = [0]"
  by (rule error_page_crosstalk [where k = "''boom''"]) (simp_all add: throwing_request [simplified])

text \<open>
  the unprotected decrement of \<open>busy_threads\<close> loses an increment that falls between its read
  and its store: a reachable state counts no busy thread while a dispatcher is serving a
  request, so \<open>process_http\<close> no longer sees that it should start another one.
\<close>

theorem busy_threads_drifts:
  assumes "\<forall>ip p. gusher env t inp 0 ip p = Some ([], Inr ())"
    and "\<forall>ip p. gusher env t inp 1 ip p = Some (es, r)" "2 \<le> maxt"
  shows "\<exists>s. reachable (gusher env t inp) peer maxt 1 s \<and> busy_threads s = 0 \<and> nthreads s = 2 \<and>
    workers s = [Waiting, Serving 2 4 es r]"
proof -
  let ?work = "gusher env t inp" and ?f = "frame_at peer 3 0 0" and ?g = "frame_at peer 4 1 1"
  let ?K = "[3 \<mapsto> 0, 4 \<mapsto> 1] :: int \<rightharpoonup> nat"
  let ?u = "\<lambda>w. server_at maxt (frames_at [?f] None None (Some 1)) 1 1 1 [3 \<mapsto> 0] 1 MIdle [w] [] [0]"
  let ?u3 = "server_at maxt (frames_at [?f, zero_frame] None None (Some 1)) 1 1 1 ?K 2 (MGot 2 4 1) [Storing 1] [] [0]"
  let ?u4 = "server_at maxt (frames_at [?f, ?g] None None (Some 1)) 1 1 1 ?K 2 (MFilled 2) [Storing 1] [] [0]"
  let ?u5 = "server_at maxt (frames_at [?f, ?g] None (Some 2) (Some 2)) 2 1 2 ?K 2 MIdle [Storing 1, Waiting] [] [0]"
  let ?u6 = "server_at maxt (frames_at [?f, ?g] None None (Some 2)) 2 2 2 ?K 2 MIdle [Storing 1, Serving 2 4 es r] [] [0, 1]"
  let ?u7 = "server_at maxt (frames_at [?f, ?g] None None (Some 2)) 2 0 2 ?K 2 MIdle [Waiting, Serving 2 4 es r] [] [0, 1]"
  have "reachable ?work peer maxt 1 (?u (Serving 1 3 [] (Inr ())))"
    by (rule first_request_taken) (use assms in auto)
  moreover have "sstep ?work peer (?u (Serving 1 3 [] (Inr ()))) (?u Ending)"
    using finish [where i = 0 and a = 1 and fd = 3 and work = ?work and peer = peer, of "?u (Serving 1 3 [] (Inr ()))"]
    by (simp add: trace_defs)
  ultimately have "reachable ?work peer maxt 1 (?u Ending)" by (rule further)
  moreover have "sstep ?work peer (?u Ending) (?u (Storing 1))"
    using read_busy [where i = 0 and work = ?work and peer = peer, of "?u Ending"] by (simp add: trace_defs)
  ultimately have "reachable ?work peer maxt 1 (?u (Storing 1))" by (rule further)
  then have "reachable ?work peer maxt 1 ?u3"
    by (rule further [OF _ accept [where fd = 4 and junk = zero_frame]]) (simp_all add: trace_defs)
  then have "reachable ?work peer maxt 1 ?u4"
    by (rule further [OF _ fill [where a = 2 and fd = 4 and c = 1]]) (simp_all add: trace_defs)
  then have "reachable ?work peer maxt 1 ?u5"
    by (rule further [OF _ queue [where a = 2]]) (use assms(3) in \<open>simp_all add: trace_defs\<close>)
  then have "reachable ?work peer maxt 1 ?u6"
    by (rule further [OF _ take [where i = 1]]) (use assms(2) in \<open>simp_all add: trace_defs\<close>)
  moreover have "sstep ?work peer ?u6 ?u7"
    using store_busy [where i = 0 and v = 1 and work = ?work and peer = peer, of ?u6] by (simp add: trace_defs)
  ultimately have "reachable ?work peer maxt 1 ?u7" by (rule further)
  then show ?thesis by (intro exI [of _ ?u7]) (simp add: server_at_def)
qed

theorem busy_threads_drifts_witness:
  "\<exists>s. reachable (gusher (\<lambda>_. sample_env) empty_table (\<lambda>_. [])) (\<lambda>c. (''10.0.0.1'', 5000)) 8 1 s \<and>
     busy_threads s = 0 \<and> nthreads s = 2 \<and> workers s = [Waiting, Serving 2 4 [] (Inr ())]"
  by (rule busy_threads_drifts) (simp_all add: empty_connection)

end
