(* ===== verification/Liveness.thy ===== *)
theory Liveness
  imports Isolation
begin

text \<open>
  Every accepted request is answered. Between two connections the server does a bounded amount of
  work: the steps that change the state and accept nothing (\<open>drain\<close>) decrease a lexicographic measure,
  so no schedule of the threads can postpone an answer for ever; and where no such step is left,
  every connection has received its whole reply.
\<close>

section \<open>Draining\<close>

definition drain :: "work \<Rightarrow> (nat \<Rightarrow> string \<times> int) \<Rightarrow> server \<Rightarrow> server \<Rightarrow> bool" where
  "drain work peer s s' \<longleftrightarrow> sstep work peer s s' \<and> s' \<noteq> s \<and> nconns s' = nconns s"

fun main_rank :: "main_pc \<Rightarrow> nat" where
  "main_rank MIdle = 0"
| "main_rank (MGot a fd c) = 3"
| "main_rank (MFilled a) = 2"

fun worker_rank :: "worker \<Rightarrow> nat" where
  "worker_rank (Serving a fd es r) = 5 + length es"
| "worker_rank (Catching a) = 4"
| "worker_rank (Closing a) = 3"
| "worker_rank Ending = 2"
| "worker_rank (Storing v) = 1"
| "worker_rank _ = 0"

definition unqueued :: "server \<Rightarrow> nat" where
  "unqueued s = main_rank (main_pc s) + (tcount s - length (taken s))"

definition unserved :: "server \<Rightarrow> nat" where
  "unserved s = sum_list (map worker_rank (workers s))"

definition drain_order :: "(server \<times> server) set" where
  "drain_order = measures [\<lambda>s. if crashed s then 0 else 1, unqueued, unserved]"

text \<open>A step that neither queues nor takes a frame.\<close>

definition serve_drain :: "work \<Rightarrow> (nat \<Rightarrow> string \<times> int) \<Rightarrow> server \<Rightarrow> server \<Rightarrow> bool" where
  "serve_drain work peer s s' \<longleftrightarrow> drain work peer s s' \<and> tcount s' = tcount s \<and> taken s' = taken s"

lemma wf_drain_order: "wf drain_order"
  by (simp add: drain_order_def)

lemma sum_list_rank:
  fixes f :: "'a \<Rightarrow> nat"
  shows "i < length xs \<Longrightarrow> f x < f (xs ! i) \<Longrightarrow> sum_list (map f (xs[i := x])) < sum_list (map f xs)"
  by (induction xs arbitrary: i) (auto split: nat.splits)

lemma drain_worker:
  assumes "i < length (workers s)" "worker_rank w < worker_rank (workers s ! i)"
    and "workers s' = workers s" "crashed s' = crashed s" "main_pc s' = main_pc s" "tcount s' = tcount s"
      "taken s' = taken s"
  shows "(set_worker i w s', s) \<in> drain_order"
  using assms sum_list_rank [of i "workers s" worker_rank w]
  by (simp add: drain_order_def set_worker_def unqueued_def unserved_def)

lemma perform_keeps:
  "perform a fd e s = Inr s' \<Longrightarrow> workers s' = workers s \<and> crashed s' = crashed s \<and> main_pc s' = main_pc s \<and>
     tcount s' = tcount s \<and> taken s' = taken s \<and> nconns s' = nconns s \<and> nthreads s' = nthreads s"
  by (cases e) (auto simp: perform_def send_to_def close_fd_def bindR_eq_Inr)

lemma catch_send_keeps:
  "catch_send a s = Inr s' \<Longrightarrow> workers s' = workers s \<and> crashed s' = crashed s \<and> main_pc s' = main_pc s \<and>
     tcount s' = tcount s \<and> taken s' = taken s \<and> nconns s' = nconns s \<and> nthreads s' = nthreads s"
  by (auto simp: catch_send_def send_to_def bindR_eq_Inr)

lemma catch_close_keeps:
  "catch_close a s = Inr s' \<Longrightarrow> workers s' = workers s \<and> crashed s' = crashed s \<and> main_pc s' = main_pc s \<and>
     tcount s' = tcount s \<and> taken s' = taken s \<and> nconns s' = nconns s \<and> nthreads s' = nthreads s"
  by (auto simp: catch_close_def close_fd_def bindR_eq_Inr)

lemma drain_take:
  assumes "sinv strict s" "take_frame work i s = Inr s'" "s' \<noteq> s"
  shows "(s', s) \<in> drain_order"
proof -
  obtain qs ps own where at: "sinv_at strict s qs ps own" using assms(1) unfolding sinv_def by blast
  then have v: "view (sv_frames s) qs ps own" by (simp add: sinv_at_def finv_def)
  obtain r fr where r: "dequeue_frame (sv_frames s) = Inr (r, fr)"
    using assms(2) by (auto simp: take_frame_def bindR_eq_Inr)
  have "qs \<noteq> []"
  proof
    assume "qs = []"
    then have "s' = s" using v fm.deq_empty assms(2) by (auto simp: take_frame_def)
    with assms(3) show False by simp
  qed
  moreover have "length (taken s) + length qs = tcount s"
    using at by (metis diff_zero length_append length_map length_upt sinv_at_def)
  ultimately have "length (taken s) < tcount s" by (cases qs) auto
  then show ?thesis
    using assms(2,3) by (auto simp: take_frame_def bindR_eq_Inr drain_order_def unqueued_def set_worker_def
        split: option.splits)
qed

lemma drain_queue:
  assumes "main_pc s = MFilled a" "queue_frame a s = Inr s'"
  shows "(s', s) \<in> drain_order"
  using assms
  by (auto simp: queue_frame_def add_thread_def bindR_eq_Inr drain_order_def unqueued_def Let_def split: if_splits)

context request_worker
begin

lemma drain_decreases:
  assumes "drain work peer s s'" "sinv strict s"
  shows "(s', s) \<in> drain_order"
proof -
  have st: "sstep work peer s s'" "s' \<noteq> s" "nconns s' = nconns s" using assms(1) by (simp_all add: drain_def)
  from st(1) show ?thesis
  proof cases
    case (accept fd junk)
    then show ?thesis using st(3) by (auto simp: accept_conn_def bindR_eq_Inr)
  next
    case (fill a fd c)
    then show ?thesis by (auto simp: fill_frame_def bindR_eq_Inr Let_def drain_order_def unqueued_def)
  next
    case (queue a)
    then show ?thesis using drain_queue by blast
  next
    case (take i)
    then show ?thesis using drain_take [OF assms(2)] st(2) by blast
  next
    case (effect i a fd e es r s1)
    show ?thesis unfolding effect(1) by (rule drain_worker) (use effect perform_keeps [OF effect(5)] in auto)
  next
    case (finish i a fd)
    show ?thesis unfolding finish(1) by (rule drain_worker) (use finish in auto)
  next
    case (throw i a fd k)
    show ?thesis unfolding throw(1) by (rule drain_worker) (use throw in auto)
  next
    case (crash i a fd e)
    then show ?thesis by (simp add: drain_order_def)
  next
    case (catch_send i a s1)
    show ?thesis unfolding catch_send(1)
      by (rule drain_worker) (use catch_send catch_send_keeps [OF catch_send(5)] in auto)
  next
    case (catch_close i a s1)
    show ?thesis unfolding catch_close(1)
      by (rule drain_worker) (use catch_close catch_close_keeps [OF catch_close(5)] in auto)
  next
    case (read_busy i)
    show ?thesis unfolding read_busy(1) by (rule drain_worker) (use read_busy in auto)
  next
    case (store_busy i v)
    show ?thesis unfolding store_busy(1) by (rule drain_worker) (use store_busy in auto)
  qed
qed

lemma drain_ends:
  assumes "reachable work peer maxt cpus (f 0)"
  shows "\<not> (\<forall>i. drain work peer (f i) (f (Suc i)))"
proof
  assume run: "\<forall>i. drain work peer (f i) (f (Suc i))"
  have "reachable work peer maxt cpus (f i)" for i
    by (induction i) (use assms run in \<open>auto simp: drain_def intro: further\<close>)
  then have "sinv False (f i)" for i using sinv_reachable [of peer maxt cpus "f i" False] by simp
  then have "(f (Suc i), f i) \<in> drain_order" for i using run drain_decreases by blast
  then show False using wf_drain_order unfolding wf_iff_no_infinite_down_chain by blast
qed

lemma drainI: "sstep work peer s s' \<Longrightarrow> (s', s) \<in> drain_order \<Longrightarrow> nconns s' = nconns s \<Longrightarrow> drain work peer s s'"
  using wf_drain_order by (auto simp: drain_def)

lemma serve_drainI:
  "sstep work peer s s' \<Longrightarrow> (s', s) \<in> drain_order \<Longrightarrow> nconns s' = nconns s \<Longrightarrow> tcount s' = tcount s \<Longrightarrow>
   taken s' = taken s \<Longrightarrow> serve_drain work peer s s'"
  by (simp add: serve_drain_def drainI)

text \<open>Progress: only a state in which nothing is left to do has no step.\<close>

lemma serving_worker_drains:
  assumes "sinv strict s" "strict \<longrightarrow> no_late_throw work" "\<not> crashed s" "i < length (workers s)"
    and "workers s ! i = Serving a fd es r"
  shows "\<exists>s'. serve_drain work peer s s'"
proof -
  note dw = drain_worker [OF assms(4)] and st = assms(3,4)
  consider e es' where "es = e # es'" | "es = []" "r = Inr ()" | k where "es = []" "r = Inl (Throw k)"
    | e where "es = []" "r = Inl e" "e = BadAccess \<or> e = NullDeref"
    by (metis cerror.exhaust list.exhaust old.unit.exhaust sum.exhaust)
  then show ?thesis
  proof cases
    case 1
    then obtain s1 where s1: "perform a fd e s = Inr s1" using steps_enabled(5) [OF assms(1,2,4)] assms(5) by blast
    have "serve_drain work peer s (set_worker i (Serving a fd es' r) s1)"
      by (rule serve_drainI [OF effect [OF st _ s1] dw]) (use assms(5) 1 perform_keeps [OF s1] in \<open>auto simp: set_worker_def\<close>)
    then show ?thesis by blast
  next
    case 2
    have "serve_drain work peer s (set_worker i Ending s)"
      by (rule serve_drainI [OF finish [OF st] dw]) (use assms(5) 2 in \<open>auto simp: set_worker_def\<close>)
    then show ?thesis by blast
  next
    case 3
    have "serve_drain work peer s (set_worker i (Catching a) s)"
      by (rule serve_drainI [OF throw [OF st] dw]) (use assms(5) 3 in \<open>auto simp: set_worker_def\<close>)
    then show ?thesis by blast
  next
    case 4
    have "serve_drain work peer s (s\<lparr>crashed := True\<rparr>)"
      by (rule serve_drainI [OF crash [OF st assms(5) [unfolded 4] 4(3)]]) (use assms(3) in \<open>auto simp: drain_order_def\<close>)
    then show ?thesis by blast
  qed
qed

lemma busy_worker_drains:
  assumes "sinv strict s" "strict \<longrightarrow> no_late_throw work" "\<not> crashed s"
    and "i < length (workers s)" "workers s ! i \<noteq> Waiting" "workers s ! i \<noteq> Hung"
  shows "\<exists>s'. serve_drain work peer s s'"
proof -
  note en = steps_enabled [OF assms(1,2)] and dw = drain_worker [OF assms(4)] and st = assms(3,4)
  show ?thesis
  proof (cases "workers s ! i")
    case (Serving a fd es r)
    then show ?thesis by (rule serving_worker_drains [OF assms(1-4)])
  next
    case (Catching a)
    then obtain s1 where s1: "catch_send a s = Inr s1" using en(6) [OF assms(4)] by blast
    have "serve_drain work peer s (set_worker i (Closing a) s1)"
      by (rule serve_drainI [OF sstep.catch_send [OF st _ s1] dw])
        (use Catching catch_send_keeps [OF s1] in \<open>auto simp: set_worker_def\<close>)
    then show ?thesis by blast
  next
    case (Closing a)
    then obtain s1 where s1: "catch_close a s = Inr s1" using en(7) [OF assms(4)] by blast
    have "serve_drain work peer s (set_worker i Ending s1)"
      by (rule serve_drainI [OF sstep.catch_close [OF st _ s1] dw])
        (use Closing catch_close_keeps [OF s1] in \<open>auto simp: set_worker_def\<close>)
    then show ?thesis by blast
  next
    case Ending
    have "serve_drain work peer s (set_worker i (Storing (busy_threads s)) s)"
      by (rule serve_drainI [OF read_busy [OF st] dw]) (use Ending in \<open>auto simp: set_worker_def\<close>)
    then show ?thesis by blast
  next
    case (Storing v)
    have "serve_drain work peer s (set_worker i Waiting (s\<lparr>busy_threads := v - 1\<rparr>))"
      by (rule serve_drainI [OF store_busy [OF st] dw]) (use Storing in \<open>auto simp: set_worker_def\<close>)
    then show ?thesis by blast
  qed (use assms in simp_all)
qed

lemma main_drains:
  assumes "sinv strict s" "strict \<longrightarrow> no_late_throw work" "\<not> crashed s" "main_pc s \<noteq> MIdle"
  shows "\<exists>s'. drain work peer s s'"
proof (cases "main_pc s")
  case (MGot a fd c)
  then obtain s' where s': "fill_frame peer a fd c s = Inr s'" using steps_enabled(2) [OF assms(1,2)] by blast
  have "drain work peer s s'"
    by (rule drainI [OF fill [OF assms(3) MGot s']])
      (use s' MGot in \<open>auto simp: fill_frame_def bindR_eq_Inr Let_def drain_order_def unqueued_def\<close>)
  then show ?thesis by blast
next
  case (MFilled a)
  then obtain s' where s': "queue_frame a s = Inr s'" using steps_enabled(3) [OF assms(1,2)] by blast
  have "drain work peer s s'"
    by (rule drainI [OF queue [OF assms(3) MFilled s'] drain_queue [OF MFilled s']])
      (use s' in \<open>auto simp: queue_frame_def add_thread_def bindR_eq_Inr Let_def split: if_splits\<close>)
  then show ?thesis by blast
qed (use assms(4) in simp)

lemma waiting_worker_drains:
  assumes "sinv strict s" "strict \<longrightarrow> no_late_throw work" "\<not> crashed s" "i < length (workers s)"
    and "workers s ! i = Waiting" "length (taken s) < tcount s"
  shows "\<exists>s'. drain work peer s s'"
proof -
  obtain qs ps own where at: "sinv_at strict s qs ps own" using assms(1) unfolding sinv_def by blast
  obtain s' where s': "take_frame work i s = Inr s'" using steps_enabled(4) [OF assms(1,2,4,5)] by blast
  have "length (taken s) + length qs = tcount s"
    using at by (metis diff_zero length_append length_map length_upt sinv_at_def)
  then have "qs \<noteq> []" using assms(6) by auto
  then obtain a fr where "dequeue_frame (sv_frames s) = Inr (Some a, fr)"
    using at fm.deq_ok by (cases qs) (auto simp: sinv_at_def finv_def, blast)
  then have "length (taken s') = Suc (length (taken s))" "nconns s' = nconns s"
    using s' by (auto simp: take_frame_def bindR_eq_Inr set_worker_def)
  then have "drain work peer s s'"
    using take [OF assms(3-5) s'] by (auto simp: drain_def)
  then show ?thesis by blast
qed

lemma quiet_when_drained:
  assumes "sinv strict s" "strict \<longrightarrow> no_late_throw work" "\<not> crashed s" "\<not> (\<exists>s'. drain work peer s s')"
  shows "main_pc s = MIdle" "set (workers s) \<subseteq> {Waiting, Hung}"
    "Waiting \<in> set (workers s) \<Longrightarrow> taken s = [0..<tcount s]"
proof -
  obtain qs ps own where at: "sinv_at strict s qs ps own" using assms(1) unfolding sinv_def by blast
  show "main_pc s = MIdle" using main_drains [OF assms(1-3)] assms(4) by blast
  show "set (workers s) \<subseteq> {Waiting, Hung}"
    using busy_worker_drains [OF assms(1-3), of _ peer] assms(4) by (force simp: serve_drain_def in_set_conv_nth)
  show "taken s = [0..<tcount s]" if "Waiting \<in> set (workers s)"
  proof -
    have "\<not> length (taken s) < tcount s"
      using that waiting_worker_drains [OF assms(1-3)] assms(4) by (metis in_set_conv_nth)
    moreover have e: "taken s @ map (frame_count (sv_frames s)) qs = [0..<tcount s]"
      using at by (simp add: sinv_at_def)
    ultimately have "qs = []" by (metis add_diff_cancel_left' diff_zero length_0_conv length_append length_map
        length_upt less_add_same_cancel1 not_gr_zero)
    then show ?thesis using e by simp
  qed
qed

end

section \<open>Connections that still wait for bytes\<close>

fun wtok :: "fheap \<Rightarrow> worker \<Rightarrow> int set" where
  "wtok h (Closing a) = {}"
| "wtok h w = wfd h w"

definition pending :: "fheap \<Rightarrow> main_pc \<Rightarrow> nat list \<Rightarrow> worker list \<Rightarrow> int set" where
  "pending h mp qs ws = mfd h mp \<union> (\<Union>a \<in> set qs. sock_of h a) \<union> (\<Union>w \<in> set ws. wtok h w)"

text \<open>Each connection has its whole reply, or somebody who serves it holds its descriptor.\<close>

definition settled :: "work \<Rightarrow> (nat \<Rightarrow> string \<times> int) \<Rightarrow> (int \<rightharpoonup> nat) \<Rightarrow> outlog \<Rightarrow> nat \<Rightarrow> int set \<Rightarrow> bool" where
  "settled work peer K lg n X \<longleftrightarrow>
     (\<forall>c < n. bytes_to c lg = expected work peer c \<or> (\<exists>fd \<in> X. K fd = Some c))"

definition served_inv :: "work \<Rightarrow> (nat \<Rightarrow> string \<times> int) \<Rightarrow> server \<Rightarrow> bool" where
  "served_inv work peer s \<longleftrightarrow>
     (\<exists>qs. chain (heap (sv_frames s)) (req_queue (sv_frames s)) qs \<and>
        settled work peer (conns s) (out s) (nconns s) (pending (heap (sv_frames s)) (main_pc s) qs (workers s)))"

lemma wtok_wfd: "wtok h w \<subseteq> wfd h w"
  by (cases w) auto

lemma wtok_keeps: "\<forall>a \<in> holds True w. data h' a = data h a \<Longrightarrow> wtok h' w = wtok h w"
  by (cases w) (auto simp: sock_of_def)

lemma settled_mono: "settled work peer K lg n X \<Longrightarrow> X \<subseteq> Y \<Longrightarrow> settled work peer K lg n Y"
  by (fastforce simp: settled_def)

lemma settled_new:
  assumes "settled work peer K lg n X" "K fd = None" "K' = K(fd \<mapsto> n)" "lg' = lg" "n' = Suc n" "X \<union> {fd} \<subseteq> Y"
  shows "settled work peer K' lg' n' Y"
  unfolding settled_def
proof (intro allI impI)
  fix c assume "c < n'"
  then consider "c = n" | "c < n" using assms(5) by linarith
  then show "bytes_to c lg' = expected work peer c \<or> (\<exists>x \<in> Y. K' x = Some c)"
  proof cases
    case 1
    then show ?thesis using assms(3,6) by (intro disjI2 bexI [of _ fd]) auto
  next
    case 2
    then have "bytes_to c lg = expected work peer c \<or> (\<exists>x \<in> X. K x = Some c)"
      using assms(1) by (simp add: settled_def)
    then show ?thesis
    proof
      assume "\<exists>x \<in> X. K x = Some c"
      then obtain x where "x \<in> X" "K x = Some c" by blast
      then show ?thesis using assms(2,3,6) by (intro disjI2 bexI [of _ x]) auto
    qed (use assms(4) in simp)
  qed
qed

lemma settled_touch:
  assumes "settled work peer K lg n X" "X - D \<subseteq> Y" "\<And>fd. fd \<notin> D \<Longrightarrow> K' fd = K fd"
    and "\<And>c. (\<forall>fd \<in> D. K fd \<noteq> Some c) \<Longrightarrow> bytes_to c lg' = bytes_to c lg"
    and "\<And>c fd. fd \<in> D \<Longrightarrow> K fd = Some c \<Longrightarrow> bytes_to c lg' = expected work peer c \<or> (\<exists>fd \<in> Y. K' fd = Some c)"
  shows "settled work peer K' lg' n Y"
  unfolding settled_def
proof (intro allI impI)
  fix c assume c: "c < n"
  show "bytes_to c lg' = expected work peer c \<or> (\<exists>fd \<in> Y. K' fd = Some c)"
  proof (cases "\<exists>fd \<in> D. K fd = Some c")
    case True
    then show ?thesis using assms(5) by blast
  next
    case False
    then have "bytes_to c lg' = bytes_to c lg" using assms(4) by blast
    moreover have "bytes_to c lg = expected work peer c \<or> (\<exists>fd \<in> X. K fd = Some c)"
      using assms(1) c by (simp add: settled_def)
    ultimately show ?thesis using False assms(2,3) by (metis DiffI subsetD)
  qed
qed

lemma pending_heap:
  assumes "\<forall>a \<in> set qs \<union> mholds mp. data h' a = data h a" "\<forall>w \<in> set ws. \<forall>a \<in> holds True w. data h' a = data h a"
  shows "pending h' mp qs ws = pending h mp qs ws"
proof -
  have "mfd h' mp = mfd h mp" by (rule mfd_keeps) (use assms(1) in auto)
  moreover have "sock_of h' a = sock_of h a" if "a \<in> set qs" for a using assms(1) that by (simp add: sock_of_def)
  moreover have "wtok h' w = wtok h w" if "w \<in> set ws" for w using assms(2) that by (intro wtok_keeps) blast
  ultimately show ?thesis by (simp add: pending_def)
qed

text \<open>A worker's step touches at most the descriptor it holds.\<close>

lemma pending_worker:
  assumes "i < length ws"
  shows "pending h mp qs ws - wfd h (ws ! i) \<subseteq> pending h mp qs (ws[i := w])"
    "wtok h w \<subseteq> pending h mp qs (ws[i := w])"
proof -
  have "x \<in> set (ws[i := w])" if x: "x \<in> set ws" "x \<noteq> ws ! i" for x
  proof -
    obtain j where "j < length ws" "x = ws ! j" using x(1) by (auto simp: in_set_conv_nth)
    then show ?thesis using x(2) by (metis length_list_update nth_list_update_neq nth_mem)
  qed
  then show "pending h mp qs ws - wfd h (ws ! i) \<subseteq> pending h mp qs (ws[i := w])"
    using wtok_wfd by (fastforce simp: pending_def)
  show "wtok h w \<subseteq> pending h mp qs (ws[i := w])"
    using assms by (auto simp: pending_def set_update_memI)
qed

lemma served_invE:
  assumes "served_inv work peer s" "full_inv work peer s"
  obtains qs ps own where "sinv_at True s qs ps own"
    "iso_inv work peer (conns s) (out s) (nconns s) (heap (sv_frames s)) (main_pc s) qs (workers s)"
    "settled work peer (conns s) (out s) (nconns s) (pending (heap (sv_frames s)) (main_pc s) qs (workers s))"
proof -
  obtain qs ps own where at: "sinv_at True s qs ps own"
    and iso: "iso_inv work peer (conns s) (out s) (nconns s) (heap (sv_frames s)) (main_pc s) qs (workers s)"
    using assms(2) unfolding full_inv_def by blast
  obtain qs' where qs': "chain (heap (sv_frames s)) (req_queue (sv_frames s)) qs'"
    "settled work peer (conns s) (out s) (nconns s) (pending (heap (sv_frames s)) (main_pc s) qs' (workers s))"
    using assms(1) unfolding served_inv_def by blast
  have "qs' = qs" using qs'(1) at chain_unique by (auto simp: sinv_at_def finv_def view_def)
  then show thesis using that at iso qs'(2) by blast
qed

lemma closing_done:
  assumes "iso_inv work peer K lg n h mp qs ws" "settled work peer K lg n (pending h mp qs ws)"
    and "i < length ws" "ws ! i = Closing a" "fd \<in> sock_of h a" "K fd = Some c"
  shows "bytes_to c lg = expected work peer c"
proof (rule ccontr)
  assume open_: "bytes_to c lg \<noteq> expected work peer c"
  have ck: "conns_ok K lg n" and ap: "apart h mp qs ws" using assms(1) by (simp_all add: iso_inv_def)
  have "c < n" using ck assms(6) by (auto simp: conns_ok_def ran_def)
  then obtain fd' where fd': "fd' \<in> pending h mp qs ws" "K fd' = Some c"
    using assms(2) open_ unfolding settled_def by blast
  have "fd' = fd" using ck fd'(2) assms(6) by (auto simp: conns_ok_def inj_on_def dom_def)
  then have p: "fd \<in> pending h mp qs ws" using fd'(1) by simp
  have w: "fd \<in> wfd h (ws ! i)" "ws ! i \<in> set ws" using assms(4,5) nth_mem [OF assms(3)] by simp_all
  have "fd \<notin> mfd h mp" "\<forall>b \<in> set qs. fd \<notin> sock_of h b" using ap w unfolding apart_def by blast+
  then obtain x where x: "x \<in> set ws" "fd \<in> wtok h x" using p by (auto simp: pending_def)
  then obtain j where j: "j < length ws" "x = ws ! j" by (auto simp: in_set_conv_nth)
  have "j \<noteq> i" using x(2) j(2) assms(4) by auto
  then have "wfd h (ws ! j) \<inter> wfd h (ws ! i) = {}" using ap j(1) assms(3) by (auto simp: apart_def disjoint_by_def)
  then show False using w(1) x(2) j(2) wtok_wfd by blast
qed

lemma served_worker:
  assumes "served_inv work peer s" "full_inv work peer s" "i < length (workers s)"
    and "workers s' = workers s" "main_pc s' = main_pc s" "nconns s' = nconns s"
    and "\<forall>a. data (heap (sv_frames s')) a = data (heap (sv_frames s)) a"
    and "\<And>qs. chain (heap (sv_frames s)) (req_queue (sv_frames s)) qs \<Longrightarrow>
      chain (heap (sv_frames s')) (req_queue (sv_frames s')) qs"
    and "\<And>fd. fd \<notin> wfd (heap (sv_frames s)) (workers s ! i) \<Longrightarrow> conns s' fd = conns s fd"
    and "\<And>c. (\<forall>fd \<in> wfd (heap (sv_frames s)) (workers s ! i). conns s fd \<noteq> Some c) \<Longrightarrow>
      bytes_to c (out s') = bytes_to c (out s)"
    and "\<And>c fd. fd \<in> wfd (heap (sv_frames s)) (workers s ! i) \<Longrightarrow> conns s fd = Some c \<Longrightarrow>
      wok work peer (conns s) (out s) (heap (sv_frames s)) (workers s ! i) \<Longrightarrow>
      (\<forall>a. workers s ! i = Closing a \<longrightarrow> bytes_to c (out s) = expected work peer c) \<Longrightarrow>
      bytes_to c (out s') = expected work peer c \<or> fd \<in> wtok (heap (sv_frames s)) w \<and> conns s' fd = Some c"
  shows "served_inv work peer (set_worker i w s')"
proof -
  let ?h = "heap (sv_frames s)" and ?ws = "(workers s)[i := w]"
  obtain qs ps own where q: "sinv_at True s qs ps own"
    "iso_inv work peer (conns s) (out s) (nconns s) ?h (main_pc s) qs (workers s)"
    "settled work peer (conns s) (out s) (nconns s) (pending ?h (main_pc s) qs (workers s))"
    using served_invE [OF assms(1,2)] .
  have ok: "wok work peer (conns s) (out s) ?h (workers s ! i)" using q(2) assms(3) by (simp add: iso_inv_def)
  have "settled work peer (conns s') (out s') (nconns s) (pending ?h (main_pc s) qs ?ws)"
  proof (rule settled_touch [OF q(3) pending_worker(1) [OF assms(3)] assms(9,10)])
    fix c fd
    assume f: "fd \<in> wfd ?h (workers s ! i)" "conns s fd = Some c"
    have "\<forall>a. workers s ! i = Closing a \<longrightarrow> bytes_to c (out s) = expected work peer c"
      using closing_done [OF q(2,3) assms(3)] f by auto
    then show "bytes_to c (out s') = expected work peer c \<or>
        (\<exists>fd \<in> pending ?h (main_pc s) qs ?ws. conns s' fd = Some c)"
      using assms(11) [OF f ok] pending_worker(2) [OF assms(3), of ?h w] by blast
  qed auto
  moreover have "chain (heap (sv_frames s')) (req_queue (sv_frames s')) qs"
    by (rule assms(8)) (use q(1) in \<open>simp add: sinv_at_def finv_def view_def\<close>)
  moreover have "pending (heap (sv_frames s')) (main_pc s) qs ?ws = pending ?h (main_pc s) qs ?ws"
    by (rule pending_heap) (use assms(7) in auto)
  ultimately show ?thesis using assms(4-6) unfolding served_inv_def by (auto simp: set_worker_def)
qed

section \<open>Every step keeps connections settled\<close>

lemma served_accept:
  assumes "served_inv work peer s" "full_inv work peer s" "main_pc s = MIdle" "conns s fd = None"
    and "accept_conn junk fd s = Inr s'"
  shows "served_inv work peer s'"
proof -
  obtain qs ps own where q: "sinv_at True s qs ps own"
    "settled work peer (conns s) (out s) (nconns s) (pending (heap (sv_frames s)) (main_pc s) qs (workers s))"
    using served_invE [OF assms(1,2)] by metis
  have f: "finv True (sv_frames s) qs ps own MIdle (workers s)" using q(1) assms(3) by (simp add: sinv_at_def)
  obtain a fr' where a: "get_frame junk (sv_frames s) = Inr (a, fr')"
      "finv True fr' qs (tl ps) (insert a own) (MGot a fd (nconns s)) (workers s)"
    using finv_get [OF f] by metis
  have s': "s' = s\<lparr>sv_frames := fr', conns := (conns s)(fd \<mapsto> nconns s), nconns := Suc (nconns s),
      main_pc := MGot a fd (nconns s)\<rparr>" using assms(5) a(1) by (simp add: accept_conn_def)
  have d: "data (heap fr') b = data (heap (sv_frames s)) b" if "b \<in> set qs \<or> b \<in> own" for b
    using f that view_queue_live [of "sv_frames s" qs ps own b]
    by (intro data_get [OF a(1)]) (auto simp: finv_def view_def)
  have "pending (heap fr') MIdle qs (workers s) = pending (heap (sv_frames s)) MIdle qs (workers s)"
    by (rule pending_heap) (use d f in \<open>auto simp: finv_def\<close>)
  then have "settled work peer (conns s) (out s) (nconns s) (pending (heap fr') MIdle qs (workers s))"
    using q(2) assms(3) by simp
  then have "settled work peer (conns s') (out s') (nconns s') (pending (heap fr') (main_pc s') qs (workers s'))"
  proof (rule settled_new [where fd = fd])
    show "pending (heap fr') MIdle qs (workers s) \<union> {fd} \<subseteq> pending (heap fr') (main_pc s') qs (workers s')"
      by (auto simp: s' pending_def)
  qed (use assms(4) in \<open>simp_all add: s'\<close>)
  then show ?thesis using a(2) unfolding served_inv_def by (auto simp: s' finv_def view_def)
qed

lemma served_fill:
  assumes "served_inv work peer s" "full_inv work peer s" "main_pc s = MGot a fd c" "fill_frame peer a fd c s = Inr s'"
  shows "served_inv work peer s'"
proof -
  obtain qs ps own where q: "sinv_at True s qs ps own"
    "settled work peer (conns s) (out s) (nconns s) (pending (heap (sv_frames s)) (main_pc s) qs (workers s))"
    using served_invE [OF assms(1,2)] by metis
  have f: "finv True (sv_frames s) qs ps own (MGot a fd c) (workers s)" using q(1) assms(3) by (simp add: sinv_at_def)
  obtain g where g: "deref (heap (sv_frames s)) a = Inr g" using finv_fill [OF f] by metis
  let ?h = "heap (sv_frames s)"
  let ?h' = "?h[a := Some (g\<lparr>fr_sock := fd, fr_ipaddr := fst (peer c), fr_rport := snd (peer c), fr_count := tcount s\<rparr>)]"
  have s': "s' = s\<lparr>sv_frames := (sv_frames s)\<lparr>heap := ?h'\<rparr>, main_pc := MFilled a\<rparr>"
    using assms(4) g by (simp add: fill_frame_def)
  have len: "a < length ?h" using g by (simp add: deref_Inr)
  have n: "a \<notin> set qs" "\<forall>w \<in> set (workers s). a \<notin> holds True w" using f by (auto simp: finv_def view_def)
  have "pending ?h' MIdle qs (workers s) = pending ?h MIdle qs (workers s)"
    by (rule pending_heap) (use n in \<open>auto simp: data_update\<close>)
  moreover have "mfd ?h' (MFilled a) = {fd}" using len by (simp add: sock_of_def data_update payload_def)
  ultimately have "pending ?h' (MFilled a) qs (workers s) = pending ?h (MGot a fd c) qs (workers s)"
    by (auto simp: pending_def)
  then show ?thesis
    using q(2) f n(1) assms(3) unfolding served_inv_def
    by (intro exI [of _ qs]) (auto simp: s' finv_def view_def)
qed

lemma served_queue:
  assumes "served_inv work peer s" "full_inv work peer s" "main_pc s = MFilled a" "queue_frame a s = Inr s'"
  shows "served_inv work peer s'"
proof -
  obtain qs ps own where q: "sinv_at True s qs ps own"
    "settled work peer (conns s) (out s) (nconns s) (pending (heap (sv_frames s)) (main_pc s) qs (workers s))"
    using served_invE [OF assms(1,2)] by metis
  define s1 where "s1 = (if busy_threads s \<ge> int (nthreads s) then add_thread s else s)"
  have s1: "sv_frames s1 = sv_frames s" "conns s1 = conns s" "out s1 = out s" "nconns s1 = nconns s"
      "set (workers s) \<subseteq> set (workers s1)"
    by (auto simp: s1_def add_thread_def)
  have f: "finv True (sv_frames s1) qs ps own (MFilled a) (workers s)"
    using q(1) assms(3) s1 by (simp add: sinv_at_def)
  obtain fr' where fr': "enqueue_frame (sv_frames s1) a = Inr (fr', qs = [])"
      "finv True fr' (qs @ [a]) ps (own - {a}) MIdle (workers s)"
    using finv_queue [OF f] by metis
  have s': "s' = s1\<lparr>sv_frames := fr', tcount := Suc (tcount s1), main_pc := MIdle\<rparr>"
    using assms(4) fr'(1) by (simp add: queue_frame_def s1_def [symmetric])
  have "pending (heap (sv_frames s)) (MFilled a) qs (workers s) = pending (heap (sv_frames s)) MIdle (qs @ [a]) (workers s)"
    by (auto simp: pending_def)
  also have "\<dots> = pending (heap fr') MIdle (qs @ [a]) (workers s)"
    by (rule pending_heap [symmetric]) (use data_enqueue [OF fr'(1)] s1 in auto)
  also have "\<dots> \<subseteq> pending (heap fr') MIdle (qs @ [a]) (workers s1)"
    using s1(5) by (auto simp: pending_def)
  finally have "settled work peer (conns s) (out s) (nconns s) (pending (heap fr') MIdle (qs @ [a]) (workers s1))"
    using settled_mono q(2) assms(3) by metis
  then show ?thesis
    using fr'(2) s1 unfolding served_inv_def by (auto simp: s' finv_def view_def)
qed

lemma served_take:
  assumes "served_inv work peer s" "full_inv work peer s" "i < length (workers s)" "workers s ! i = Waiting"
    and "take_frame work i s = Inr s'"
  shows "served_inv work peer s'"
proof -
  let ?h = "heap (sv_frames s)"
  obtain qs ps own where q: "sinv_at True s qs ps own"
    "iso_inv work peer (conns s) (out s) (nconns s) ?h (main_pc s) qs (workers s)"
    "settled work peer (conns s) (out s) (nconns s) (pending ?h (main_pc s) qs (workers s))"
    using served_invE [OF assms(1,2)] .
  have v: "view (sv_frames s) qs ps own" using q(1) by (simp add: sinv_at_def finv_def)
  show ?thesis
  proof (cases qs)
    case Nil
    then have "s' = s" using v fm.deq_empty assms(5) by (auto simp: take_frame_def)
    then show ?thesis using assms(1) by simp
  next
    case (Cons a qs')
    obtain fr' fd c g where t: "view fr' qs' ps (insert a own)" "heap fr' = ?h" "sock_of ?h a = {fd}" "conns s fd = Some c"
        "bytes_to c (out s) = []" "fr_sock g = fd" "start_work work s g = work c (fst (peer c)) (snd (peer c))"
        "s' = set_worker i (case start_work work s g of None \<Rightarrow> Hung | Some (es, r) \<Rightarrow> Serving a (fr_sock g) es r)
          (s\<lparr>sv_frames := fr', busy_threads := busy_threads s + 1, taken := taken s @ [fr_count g]\<rparr>)"
      using taken_frame [OF q(2) [unfolded Cons] v [unfolded Cons] assms(5)] .
    let ?w = "case start_work work s g of None \<Rightarrow> Hung | Some (es, r) \<Rightarrow> Serving a (fr_sock g) es r"
    let ?X = "pending ?h (main_pc s) qs' ((workers s)[i := ?w])"
    have "pending ?h (main_pc s) qs (workers s) - {fd} \<subseteq> pending ?h (main_pc s) qs' (workers s)"
      using t(3) Cons by (auto simp: pending_def)
    also have "\<dots> \<subseteq> ?X"
      using pending_worker(1) [OF assms(3), of ?h "main_pc s" qs' ?w] assms(4) by simp
    finally have "settled work peer (conns s) (out s) (nconns s) ?X"
    proof (rule settled_touch [OF q(3)])
      fix d fd' assume "fd' \<in> {fd}" "conns s fd' = Some d"
      then have d: "d = c" using t(4) by simp
      have "expected work peer c = []" if "fd \<notin> wtok ?h ?w"
        using that t(6,7) by (auto simp: expected_def is_throw_def split: option.splits if_splits)
      then show "bytes_to d (out s) = expected work peer d \<or> (\<exists>x \<in> ?X. conns s x = Some d)"
        using pending_worker(2) [OF assms(3), of ?h ?w] t(4,5) d by (cases "fd \<in> wtok ?h ?w") auto
    qed auto
    then show ?thesis
      using t(1,2) unfolding served_inv_def by (auto simp: t(8) set_worker_def view_def)
  qed
qed

lemma expected_sent:
  "work c (fst (peer c)) (snd (peer c)) = Some (es, Inr ()) \<Longrightarrow> expected work peer c = sent es"
  by (simp add: expected_def is_throw_def)

lemma bytes_to_other: "K fd \<noteq> Some c \<Longrightarrow> bytes_to c (lg @ [(K fd, m)]) = bytes_to c lg"
  by (simp add: bytes_to_snoc)

context request_worker
begin

lemma serving_done:
  assumes "wok work peer K lg h (Serving a fd (e # es) r)" "K fd = Some c" "lg' = lg @ (case e of SendE m \<Rightarrow> [(K fd, m)] | _ \<Rightarrow> [])"
  shows "bytes_to c lg' = expected work peer c \<or> fd \<in> wtok h (Serving a fd es r) \<and> e \<noteq> CloseE"
proof -
  obtain before where b: "work c (fst (peer c)) (snd (peer c)) = Some (before @ e # es, r)" "bytes_to c lg = sent before"
    using assms(1,2) by (auto simp: wok_def)
  have "bytes_to c lg' = sent (before @ [e])"
    using b(2) assms(2,3) by (cases e) (auto simp: bytes_to_snoc)
  moreover have "es = [] \<and> r = Inr ()" if "e = CloseE"
    using shaped_close [of before es r] work_shaped [OF b(1)] that by simp
  ultimately show ?thesis using expected_sent [of work c peer] b(1) by (cases "es = [] \<and> r = Inr ()") auto
qed

lemma served_effect:
  assumes "served_inv work peer s" "full_inv work peer s" "i < length (workers s)"
    and "workers s ! i = Serving a fd (e # es) r" "perform a fd e s = Inr s'"
  shows "served_inv work peer (set_worker i (Serving a fd es r) s')"
proof (rule served_worker [OF assms(1-3)])
  note defs = perform_def send_to_def close_fd_def bindR_eq_Inr
  show "\<forall>b. data (heap (sv_frames s')) b = data (heap (sv_frames s)) b"
    using assms(5) data_release by (cases e) (auto simp: defs)
  show "chain (heap (sv_frames s')) (req_queue (sv_frames s')) qs"
    if "chain (heap (sv_frames s)) (req_queue (sv_frames s)) qs" for qs
  proof (cases "e = Release")
    case True
    then obtain fr' where "release_frame (sv_frames s) a = Inr fr'" "s' = s\<lparr>sv_frames := fr'\<rparr>"
      using assms(5) by (auto simp: defs)
    then show ?thesis using release_keeps_queue [OF assms(2,3) assms(4) [unfolded True] _ that] by simp
  qed (use that assms(5) in \<open>cases e; auto simp: defs\<close>)
  have o: "out s' = out s @ (case e of SendE m \<Rightarrow> [(conns s fd, m)] | _ \<Rightarrow> [])"
    using assms(5) by (cases e) (auto simp: defs)
  have k: "conns s' = (if e = CloseE then (conns s)(fd := None) else conns s)"
    using assms(5) by (cases e) (auto simp: defs)
  show "conns s' x = conns s x" if "x \<notin> wfd (heap (sv_frames s)) (workers s ! i)" for x
    using that k assms(4) by auto
  show "bytes_to c (out s') = bytes_to c (out s)"
    if "\<forall>x \<in> wfd (heap (sv_frames s)) (workers s ! i). conns s x \<noteq> Some c" for c
    using that o assms(4) by (cases e) (auto simp: bytes_to_snoc)
  show "bytes_to c (out s') = expected work peer c \<or>
      x \<in> wtok (heap (sv_frames s)) (Serving a fd es r) \<and> conns s' x = Some c"
    if "x \<in> wfd (heap (sv_frames s)) (workers s ! i)" "conns s x = Some c"
      "wok work peer (conns s) (out s) (heap (sv_frames s)) (workers s ! i)" for c x
    using that serving_done [of peer "conns s" "out s" "heap (sv_frames s)" a fd e es r c "out s'"] o k assms(4) by auto
qed (use perform_keeps [OF assms(5)] in simp_all)

lemma served_step:
  assumes "sstep work peer s s'" "full_inv work peer s" "served_inv work peer s"
  shows "served_inv work peer s'"
proof -
  note worker = served_worker [OF assms(3,2)]
  from assms(1) show ?thesis
  proof cases
    case (accept fd junk)
    then show ?thesis using served_accept [OF assms(3,2)] by blast
  next
    case (fill a fd c)
    then show ?thesis using served_fill [OF assms(3,2)] by blast
  next
    case (queue a)
    then show ?thesis using served_queue [OF assms(3,2)] by blast
  next
    case (take i)
    then show ?thesis using served_take [OF assms(3,2)] by blast
  next
    case (effect i a fd e es r s1)
    then show ?thesis using served_effect [OF assms(3,2)] by blast
  next
    case (finish i a fd)
    show ?thesis unfolding finish(1) by (rule worker) (use finish in auto)
  next
    case (throw i a fd k)
    show ?thesis unfolding throw(1)
      by (rule worker) (use throw in \<open>auto simp: wok_def is_throw_def\<close>)
  next
    case (crash i a fd e)
    then show ?thesis using assms(3) by (simp add: served_inv_def)
  next
    case (catch_send i a s1)
    then obtain f where f: "deref (heap (sv_frames s)) a = Inr f" "s1 = send_to (fr_sock f) err_msg s"
      by (auto simp: catch_send_def bindR_eq_Inr)
    have so: "sock_of (heap (sv_frames s)) a = {fr_sock f}"
      using data_deref [OF f(1)] by (simp add: sock_of_def payload_def)
    show ?thesis unfolding catch_send(1)
      by (rule worker) (use catch_send f so in \<open>auto simp: send_to_def bytes_to_snoc wok_def expected_def\<close>)
  next
    case (catch_close i a s1)
    then obtain f where f: "deref (heap (sv_frames s)) a = Inr f" "s1 = close_fd (fr_sock f) s"
      by (auto simp: catch_close_def bindR_eq_Inr)
    have so: "sock_of (heap (sv_frames s)) a = {fr_sock f}"
      using data_deref [OF f(1)] by (simp add: sock_of_def payload_def)
    show ?thesis unfolding catch_close(1)
      by (rule worker) (use catch_close f so in \<open>auto simp: close_fd_def\<close>)
  next
    case (read_busy i)
    show ?thesis unfolding read_busy(1) by (rule worker) (use read_busy in auto)
  next
    case (store_busy i v)
    show ?thesis unfolding store_busy(1) by (rule worker) (use store_busy in auto)
  qed
qed

lemma served_start: "served_inv work peer (start_threads n (init_server maxt))"
proof -
  have e: "nconns (start_threads n s) = nconns s" "sv_frames (start_threads n s) = sv_frames s" for s
    by (induction n arbitrary: s) (simp_all add: add_thread_def)
  then show ?thesis
    by (auto simp: served_inv_def settled_def init_server_def init_frames_def intro: exI [of _ "[]"])
qed

lemma served_reachable:
  assumes "reachable work peer maxt cpus s" "no_late_throw work"
  shows "full_inv work peer s \<and> served_inv work peer s"
  using assms
proof (induction rule: reachable.induct)
  case start
  show ?case using full_inv_start [OF full_inv_init] served_start by blast
next
  case (further s s')
  then show ?case using full_inv_step served_step by blast
qed

end

section \<open>Applications that answer\<close>

text \<open>\<open>process_request\<close> returns, and not with an access outside an object.\<close>

definition answers :: "work \<Rightarrow> bool" where
  "answers work \<longleftrightarrow>
     (\<forall>c ip p. case work c ip p of None \<Rightarrow> False | Some (es, r) \<Rightarrow> r \<noteq> Inl BadAccess \<and> r \<noteq> Inl NullDeref)"

fun worker_fine :: "worker \<Rightarrow> bool" where
  "worker_fine Hung = False"
| "worker_fine (Serving a fd es r) \<longleftrightarrow> r \<noteq> Inl BadAccess \<and> r \<noteq> Inl NullDeref"
| "worker_fine _ = True"

definition up :: "server \<Rightarrow> bool" where
  "up s \<longleftrightarrow> (\<forall>w \<in> set (workers s). worker_fine w) \<and> \<not> crashed s \<and> 0 < nthreads s \<and>
     nconns s = tcount s + (if main_pc s = MIdle then 0 else 1)"

lemma answersD: "answers work \<Longrightarrow> \<exists>es r. work c ip p = Some (es, r) \<and> r \<noteq> Inl BadAccess \<and> r \<noteq> Inl NullDeref"
  by (cases "work c ip p") (auto simp: answers_def dest!: spec [of _ c] spec [of _ ip] spec [of _ p])

lemma start_work_fine:
  assumes "answers work"
  shows "worker_fine (case start_work work s f of None \<Rightarrow> Hung | Some (es, r) \<Rightarrow> Serving a fd es r)"
proof (cases "conns s (fr_sock f)")
  case (Some c)
  then show ?thesis using answersD [OF assms, of c "fr_ipaddr f" "fr_rport f"] by (auto simp: start_work_def)
qed (simp add: start_work_def)

lemma up_worker:
  "up s \<Longrightarrow> worker_fine w \<Longrightarrow> workers s' = workers s \<Longrightarrow> crashed s' = crashed s \<Longrightarrow> nthreads s' = nthreads s \<Longrightarrow>
   nconns s' = nconns s \<Longrightarrow> tcount s' = tcount s \<Longrightarrow> main_pc s' = main_pc s \<Longrightarrow> up (set_worker i w s')"
  using set_update_subset_insert [of "workers s" i w] by (auto simp: up_def set_worker_def)

lemma up_step:
  assumes "sstep work peer s s'" "up s" "answers work"
  shows "up s'"
  using assms(1)
proof cases
  case (accept fd junk)
  then show ?thesis using assms(2) by (auto simp: up_def accept_conn_def bindR_eq_Inr)
next
  case (fill a fd c)
  then show ?thesis using assms(2) by (auto simp: up_def fill_frame_def bindR_eq_Inr Let_def)
next
  case (queue a)
  then show ?thesis
    using assms(2) by (auto simp: up_def queue_frame_def add_thread_def bindR_eq_Inr Let_def split: if_splits)
next
  case (take i)
  obtain r fr where r: "dequeue_frame (sv_frames s) = Inr (r, fr)"
    using take(4) by (auto simp: take_frame_def bindR_eq_Inr)
  show ?thesis
  proof (cases r)
    case None
    then show ?thesis using take(4) r assms(2) by (simp add: take_frame_def)
  next
    case (Some a)
    then obtain f where "s' = set_worker i
        (case start_work work s f of None \<Rightarrow> Hung | Some (es, r) \<Rightarrow> Serving a (fr_sock f) es r)
        (s\<lparr>sv_frames := fr, busy_threads := busy_threads s + 1, taken := taken s @ [fr_count f]\<rparr>)"
      using take(4) r by (auto simp: take_frame_def bindR_eq_Inr)
    then show ?thesis using start_work_fine [OF assms(3)] by (auto intro!: up_worker [OF assms(2)])
  qed
next
  case (effect i a fd e es r s1)
  have "worker_fine (workers s ! i)" using assms(2) effect(3) by (simp add: up_def)
  then show ?thesis
    using effect perform_keeps [OF effect(5)] by (auto intro!: up_worker [OF assms(2)])
next
  case (finish i a fd)
  then show ?thesis by (auto intro!: up_worker [OF assms(2)])
next
  case (throw i a fd k)
  then show ?thesis by (auto intro!: up_worker [OF assms(2)])
next
  case (crash i a fd e)
  have "worker_fine (workers s ! i)" using assms(2) crash(3) by (simp add: up_def)
  then show ?thesis using crash by auto
next
  case (catch_send i a s1)
  then show ?thesis using catch_send_keeps [OF catch_send(5)] by (auto intro!: up_worker [OF assms(2)])
next
  case (catch_close i a s1)
  then show ?thesis using catch_close_keeps [OF catch_close(5)] by (auto intro!: up_worker [OF assms(2)])
next
  case (read_busy i)
  then show ?thesis by (auto intro!: up_worker [OF assms(2)])
next
  case (store_busy i v)
  then show ?thesis by (auto intro!: up_worker [OF assms(2)])
qed

lemma up_start:
  assumes "0 < maxt" "0 < cpus"
  shows "up (start_threads cpus (init_server maxt))"
proof -
  let ?s = "init_server maxt"
  have "up (add_thread s)" if "up s" for s using that by (simp add: up_def add_thread_def)
  then have one: "up (start_threads n s)" if "up s" for n s
    using that by (induction n arbitrary: s) simp_all
  have "up (add_thread ?s)" using assms(1) by (simp add: up_def add_thread_def init_server_def)
  then show ?thesis using one assms(2) by (cases cpus) simp_all
qed

lemma up_reachable:
  assumes "reachable work peer maxt cpus s" "answers work" "0 < maxt" "0 < cpus"
  shows "up s"
  using assms by (induction rule: reachable.induct) (auto intro: up_start up_step)

context request_worker
begin

lemma drained_reachable:
  "(drain work peer)\<^sup>*\<^sup>* s s' \<Longrightarrow> reachable work peer maxt cpus s \<Longrightarrow> reachable work peer maxt cpus s' \<and> nconns s' = nconns s"
  by (induction rule: rtranclp_induct) (auto simp: drain_def intro: further)

lemma all_answered:
  assumes "reachable work peer maxt cpus s" "no_late_throw work" "answers work" "0 < maxt" "0 < cpus"
    and "\<not> (\<exists>s'. drain work peer s s')"
  shows "main_pc s = MIdle" "set (workers s) = {Waiting}" "taken s = [0..<nconns s]"
    "c < nconns s \<Longrightarrow> bytes_to c (out s) = expected work peer c"
proof -
  have up: "up s" by (rule up_reachable [OF assms(1,3-5)])
  have inv: "full_inv work peer s" "served_inv work peer s" using served_reachable [OF assms(1,2)] by simp_all
  then have sinv: "sinv True s" unfolding full_inv_def sinv_def by blast
  note q = quiet_when_drained [OF sinv impI [OF assms(2)] _ assms(6)]
  have nc: "\<not> crashed s" using up by (simp add: up_def)
  show mp: "main_pc s = MIdle" by (rule q(1) [OF nc])
  have "workers s \<noteq> []" using up sinv by (auto simp: up_def sinv_def sinv_at_def)
  moreover have "Hung \<notin> set (workers s)" using up by (auto simp: up_def)
  ultimately show ws: "set (workers s) = {Waiting}"
    using q(2) [OF nc] by (metis insert_absorb insert_not_empty set_empty subset_insert subset_singletonD insert_commute)
  then show "taken s = [0..<nconns s]" using q(3) [OF nc] up mp by (simp add: up_def)
  obtain qs ps own where at: "sinv_at True s qs ps own"
    and st: "settled work peer (conns s) (out s) (nconns s) (pending (heap (sv_frames s)) (main_pc s) qs (workers s))"
    using served_invE [OF inv(2,1)] by metis
  have "qs = []" using at q(3) [OF nc] ws by (simp add: sinv_at_def)
  then have "pending (heap (sv_frames s)) (main_pc s) qs (workers s) = {}"
    using mp ws by (simp add: pending_def)
  then show "bytes_to c (out s) = expected work peer c" if "c < nconns s"
    using st that by (simp add: settled_def)
qed

end

section \<open>A sample application\<close>

text \<open>Every client asks for a path that nobody handles.\<close>

abbreviation not_found_app :: work where
  "not_found_app \<equiv> gusher (\<lambda>_. sample_env) empty_table (\<lambda>_. [Bytes (''GET /x HTTP/1.0'' @ CRLF @ CRLF)])"

abbreviation not_found_reply :: string where
  "not_found_reply \<equiv> reply_text ''404 Not Found'' [(''content-type'', ''text/plain'')] ''Not Found''"

lemma not_found_served:
  "\<exists>effs. not_found_app c ip p = Some (Release # effs @ [CloseE], Inr ()) \<and> sent effs = not_found_reply"
proof -
  have s: "stream [Bytes (''GET /x HTTP/1.0'' @ CRLF @ CRLF)] =
      request_line ''GET'' ''/x'' ''HTTP/1.0'' @ CRLF @ render_headers [] @ CRLF @ []"
    by (simp add: request_line_def render_headers_def)
  have l: "ok_request_line ''GET'' ''/x'' ''HTTP/1.0''"
    by (simp add: ok_request_line_def clean_def request_line_def BUF_SIZE_def)
  have p: "plain_headers []" "well_escaped (url_query ''/x'')" by code_simp+
  have f: "find_entry (handlers empty_table) (url_path ''/x'') = None" by code_simp
  show ?thesis using unknown_path_not_found [OF s l _ p(1) _ p(2) f, of sample_env ip p] by auto
qed

lemma not_found_app: "no_late_throw not_found_app" "answers not_found_app" "expected not_found_app peer c = not_found_reply"
proof -
  obtain E where E: "\<And>ip q. process_request sample_env empty_table ip q [Bytes (''GET /x HTTP/1.0'' @ CRLF @ CRLF)] =
      Some (Release # E ip q @ [CloseE], Inr ())" "\<And>ip q. sent (E ip q) = not_found_reply"
    using not_found_served by metis
  show "no_late_throw not_found_app" unfolding no_late_throw_def E by (simp add: is_throw_def)
  show "answers not_found_app" unfolding answers_def E by simp
  show "expected not_found_app peer c = not_found_reply" unfolding expected_def E by (simp add: is_throw_def E(2))
qed

section \<open>Properties\<close>



end
