(* ===== verification/Cache.thy ===== *)
theory Cache
  imports Scm
begin

text \<open>
  The document cache (\<open>cache.c\<close>): a graph of nodes in the manner of \<open>make\<close>. A node is a datum,
  a file or a recipe over other nodes; \<open>ascendants\<close> points from a node to the nodes made from it.
  A node is an index into the list of nodes. The recipes are code of the application: the
  parameter \<open>call\<close> runs one and may change the cache. \<open>fs\<close> is the file system.

  A mutex holds the number of the thread that locked it. Locking a mutex that another thread
  holds blocks; Guile raises an error when the same thread locks it again.
\<close>

section \<open>State\<close>

datatype node_type = TYPE_DATUM | TYPE_FILE | TYPE_CHAIN

datatype fpath = NoPath | Path string | Freed

record make_node =
  callback :: scm
  payload :: scm
  ascendants :: "nat list"
  mutex :: "nat option"
  filepath :: fpath
  ntype :: node_type
  dirty :: bool

record file_node =
  fn_node :: nat
  mtime :: int

record cache =
  nodes :: "make_node list"
  file_nodes :: "file_node list"

datatype fread = CannotOpen | ReadFails | Content string

record fsys =
  fs_stat :: "string \<Rightarrow> int option"
  fs_read :: "string \<Rightarrow> fread"

datatype 'a run = Ret 'a | Exc cerror | Blocks

type_synonym 'a crun = "cache \<times> 'a run"

definition empty_cache :: cache where
  "empty_cache = \<lparr>nodes = [], file_nodes = []\<rparr>"

definition upd_node :: "nat \<Rightarrow> (make_node \<Rightarrow> make_node) \<Rightarrow> cache \<Rightarrow> cache" where
  "upd_node i f c = c\<lparr>nodes := (nodes c)[i := f (nodes c ! i)]\<rparr>"

definition bindC :: "'a crun \<Rightarrow> (cache \<Rightarrow> 'a \<Rightarrow> 'b crun) \<Rightarrow> 'b crun" where
  "bindC m f = (case snd m of Ret x \<Rightarrow> f (fst m) x | Exc e \<Rightarrow> (fst m, Exc e) | Blocks \<Rightarrow> (fst m, Blocks))"

text \<open>\<open>SCM_SMOB_DATA\<close> of something that is not a node reads whatever is there.\<close>

definition node_of :: "cache \<Rightarrow> scm \<Rightarrow> nat crun" where
  "node_of c doc =
     (case doc of
        SSmob tag i \<Rightarrow> if tag = ''make-node'' \<and> i < length (nodes c) then (c, Ret i) else (c, Exc BadAccess)
      | _ \<Rightarrow> (c, Exc BadAccess))"

definition lock_node :: "nat \<Rightarrow> nat \<Rightarrow> cache \<Rightarrow> unit crun" where
  "lock_node tid i c =
     (case mutex (nodes c ! i) of
        None \<Rightarrow> (upd_node i (\<lambda>n. n\<lparr>mutex := Some tid\<rparr>) c, Ret ())
      | Some t \<Rightarrow> if t = tid then (c, Exc misc_error) else (c, Blocks))"

definition unlock_node :: "nat \<Rightarrow> cache \<Rightarrow> cache" where
  "unlock_node i c = upd_node i (\<lambda>n. n\<lparr>mutex := None\<rparr>) c"

section \<open>Invalidation\<close>

text \<open>
  \<open>invalidate\<close> with its call stack made explicit: the head of the list is the node being marked,
  the rest are the calls still to come. On a cyclic graph it would not end.
\<close>

partial_function (option) invalidate_stack :: "make_node list \<Rightarrow> nat list \<Rightarrow> make_node list res option" where
  "invalidate_stack ns st =
     (case st of
        [] \<Rightarrow> Some (Inr ns)
      | i # rest \<Rightarrow>
          if i < length ns
          then invalidate_stack (ns[i := (ns ! i)\<lparr>dirty := True\<rparr>]) (ascendants (ns ! i) @ rest)
          else Some (Inl BadAccess))"

definition invalidate :: "nat \<Rightarrow> cache \<Rightarrow> unit crun option" where
  "invalidate i c =
     (case invalidate_stack (nodes c) [i] of
        None \<Rightarrow> None
      | Some (Inl e) \<Rightarrow> Some (c, Exc e)
      | Some (Inr ns) \<Rightarrow> Some (c\<lparr>nodes := ns\<rparr>, Ret ()))"

section \<open>Operations\<close>

definition touched_node :: "scm \<Rightarrow> cache \<Rightarrow> scm crun" where
  "touched_node doc c = bindC (node_of c doc) (\<lambda>c i. (c, Ret (SBool (dirty (nodes c ! i)))))"

text \<open>
  \<open>touch_node\<close>, \<open>args\<close> being the rest arguments. A new path that is not a string raises after the
  old one was freed, with the mutex held.
\<close>

definition touch_node :: "nat \<Rightarrow> scm \<Rightarrow> scm list \<Rightarrow> cache \<Rightarrow> scm crun option" where
  "touch_node tid doc args c =
     (case node_of c doc of
        (_, Ret i) \<Rightarrow>
          (case lock_node tid i c of
             (c1, Ret _) \<Rightarrow>
               (case invalidate i c1 of
                  None \<Rightarrow> None
                | Some (c2, Ret _) \<Rightarrow>
                    Some (case args of
                      [] \<Rightarrow> (unlock_node i c2, Ret (SBool True))
                    | a # _ \<Rightarrow>
                        (case ntype (nodes c2 ! i) of
                           TYPE_DATUM \<Rightarrow>
                             (unlock_node i (upd_node i (\<lambda>n. n\<lparr>payload := a\<rparr>) c2), Ret (SBool True))
                         | TYPE_FILE \<Rightarrow>
                             (case scm_to_cstring a of
                                Inl e \<Rightarrow> (upd_node i (\<lambda>n. n\<lparr>filepath := Freed\<rparr>) c2, Exc e)
                              | Inr p \<Rightarrow>
                                  (unlock_node i (upd_node i (\<lambda>n. n\<lparr>filepath := Path p\<rparr>) c2), Ret (SBool True)))
                         | TYPE_CHAIN \<Rightarrow> (unlock_node i c2, Ret (SBool True))))
                | Some (c2, Exc e) \<Rightarrow> Some (c2, Exc e)
                | Some (c2, Blocks) \<Rightarrow> Some (c2, Blocks))
           | (c1, Exc e) \<Rightarrow> Some (c1, Exc e)
           | (c1, Blocks) \<Rightarrow> Some (c1, Blocks))
      | (c1, Exc e) \<Rightarrow> Some (c1, Exc e)
      | (c1, Blocks) \<Rightarrow> Some (c1, Blocks))"

text \<open>A failing \<open>read\<close> makes the code store the terminator in front of the buffer.\<close>

definition load_from_file :: "fsys \<Rightarrow> fpath \<Rightarrow> string option res" where
  "load_from_file fs fp =
     (case fp of
        Path p \<Rightarrow>
          (case fs_stat fs p of
             None \<Rightarrow> Inr None
           | Some _ \<Rightarrow>
               (case fs_read fs p of
                  CannotOpen \<Rightarrow> Inr None
                | ReadFails \<Rightarrow> Inl BadAccess
                | Content s \<Rightarrow> Inr (Some (cstr (s @ [NUL]) 0))))
      | NoPath \<Rightarrow> Inr None
      | Freed \<Rightarrow> Inl BadAccess)"

type_synonym recipe = "scm \<Rightarrow> scm list \<Rightarrow> cache \<Rightarrow> scm crun"

text \<open>
  \<open>fetch_node\<close>. The node is marked clean before the recipe runs; when the recipe raises, it stays
  clean and its mutex stays locked.
\<close>

definition regenerate :: "recipe \<Rightarrow> fsys \<Rightarrow> nat \<Rightarrow> scm list \<Rightarrow> cache \<Rightarrow> scm crun" where
  "regenerate call fs i args c =
     (let n = nodes c ! i in
      case ntype n of
        TYPE_DATUM \<Rightarrow> (c, Ret (payload n))
      | TYPE_FILE \<Rightarrow>
          (case load_from_file fs (filepath n) of
             Inl e \<Rightarrow> (c, Exc e)
           | Inr (Some s) \<Rightarrow> (c, Ret (SStr s))
           | Inr None \<Rightarrow> (c, Ret (SBool False)))
      | TYPE_CHAIN \<Rightarrow> call (callback n) args c)"

definition fetch_node :: "recipe \<Rightarrow> fsys \<Rightarrow> nat \<Rightarrow> scm \<Rightarrow> scm list \<Rightarrow> cache \<Rightarrow> scm crun" where
  "fetch_node call fs tid doc args c =
     bindC (node_of c doc) (\<lambda>c i.
     bindC (lock_node tid i c) (\<lambda>c _.
       if \<not> dirty (nodes c ! i) then (unlock_node i c, Ret (payload (nodes c ! i)))
       else bindC (regenerate call fs i args (upd_node i (\<lambda>n. n\<lparr>dirty := False\<rparr>) c)) (\<lambda>c p.
         (unlock_node i (upd_node i (\<lambda>n. n\<lparr>payload := p\<rparr>) c), Ret p))))"

definition new_node :: "node_type \<Rightarrow> make_node" where
  "new_node t =
     \<lparr>callback = SBool False, payload = SBool False, ascendants = [], mutex = None, filepath = NoPath,
      ntype = t, dirty = False\<rparr>"

definition add_ascendant :: "nat \<Rightarrow> scm \<Rightarrow> nat \<Rightarrow> cache \<Rightarrow> unit crun" where
  "add_ascendant tid dep self c =
     bindC (node_of c dep) (\<lambda>c i.
     bindC (lock_node tid i c) (\<lambda>c _.
       if self \<in> set (ascendants (nodes c ! i)) then (unlock_node i c, Ret ())
       else (unlock_node i (upd_node i (\<lambda>n. n\<lparr>ascendants := self # ascendants n\<rparr>) c), Ret ())))"

fun add_ascendants :: "nat \<Rightarrow> scm \<Rightarrow> nat \<Rightarrow> cache \<Rightarrow> unit crun" where
  "add_ascendants tid SEol self c = (c, Ret ())"
| "add_ascendants tid (SCons d ds) self c =
     bindC (add_ascendant tid d self c) (\<lambda>c _. add_ascendants tid ds self c)"
| "add_ascendants tid _ self c = (c, Exc BadAccess)"

definition new_smob :: "make_node \<Rightarrow> cache \<Rightarrow> cache \<times> nat" where
  "new_smob n c = (c\<lparr>nodes := nodes c @ [n]\<rparr>, length (nodes c))"

definition make_doc :: "nat \<Rightarrow> scm \<Rightarrow> scm \<Rightarrow> cache \<Rightarrow> scm crun" where
  "make_doc tid ingredients recipe c =
     (case ingredients of
        SSym s \<Rightarrow>
          if s = ''file'' then
            (case scm_to_cstring recipe of
               Inl e \<Rightarrow> (c, Exc e)
             | Inr p \<Rightarrow>
                 let (c1, i) = new_smob ((new_node TYPE_FILE)\<lparr>filepath := Path p, dirty := True\<rparr>) c
                 in (c1\<lparr>file_nodes := \<lparr>fn_node = i, mtime = 0\<rparr> # file_nodes c1\<rparr>, Ret (SSmob ''make-node'' i)))
          else
            let (c1, i) = new_smob ((new_node TYPE_DATUM)\<lparr>payload := recipe\<rparr>) c
            in (c1, Ret (SSmob ''make-node'' i))
      | _ \<Rightarrow>
          let (c1, i) = new_smob ((new_node TYPE_CHAIN)\<lparr>callback := recipe, dirty := True\<rparr>) c
          in bindC (add_ascendants tid ingredients i c1) (\<lambda>c2 _. (c2, Ret (SSmob ''make-node'' i))))"

text \<open>\<open>police_cache\<close>: one pass over the file nodes; \<open>done\<close> are the ones already visited.\<close>

fun police_loop :: "fsys \<Rightarrow> file_node list \<Rightarrow> file_node list \<Rightarrow> cache \<Rightarrow> unit crun option" where
  "police_loop fs visited [] c = Some (c\<lparr>file_nodes := visited\<rparr>, Ret ())"
| "police_loop fs visited (f # rest) c =
     (case filepath (nodes c ! fn_node f) of
        Path p \<Rightarrow>
          (case fs_stat fs p of
             None \<Rightarrow> police_loop fs (visited @ [f]) rest c
           | Some m \<Rightarrow>
               if mtime f = 0 then police_loop fs (visited @ [f\<lparr>mtime := m\<rparr>]) rest c
               else if m \<le> mtime f then police_loop fs (visited @ [f]) rest c
               else case invalidate (fn_node f) c of
                      None \<Rightarrow> None
                    | Some (c1, Ret _) \<Rightarrow> police_loop fs (visited @ [f\<lparr>mtime := m\<rparr>]) rest c1
                    | Some r \<Rightarrow> Some r)
      | NoPath \<Rightarrow> police_loop fs (visited @ [f]) rest c
      | Freed \<Rightarrow> Some (c, Exc BadAccess))"

definition police_cache :: "fsys \<Rightarrow> cache \<Rightarrow> unit crun option" where
  "police_cache fs c = police_loop fs [] (file_nodes c) c"

text \<open>The collector's callback for a node; \<open>free\<close> of a null pointer does nothing.\<close>

definition free_node :: "nat \<Rightarrow> cache \<Rightarrow> cache res" where
  "free_node i c =
     (case filepath (nodes c ! i) of
        NoPath \<Rightarrow> Inr c
      | Path p \<Rightarrow> Inr (upd_node i (\<lambda>n. n\<lparr>filepath := Freed\<rparr>) c)
      | Freed \<Rightarrow> Inl BadAccess)"

text \<open>What the collector is told to keep for a node; the mutex of node \<open>i\<close> is the object \<open>i\<close>.\<close>

definition mark_node :: "nat \<Rightarrow> make_node \<Rightarrow> scm list" where
  "mark_node i n = [callback n, payload n, scm_of_list (map (SSmob ''make-node'') (ascendants n)), SSmob ''mutex'' i]"

definition shutdown_cache :: "cache \<Rightarrow> cache" where
  "shutdown_cache c = c\<lparr>file_nodes := []\<rparr>"


section \<open>Recipes as programs\<close>

text \<open>
  What a recipe can do to a document it reads: a program of \<open>fetch-doc\<close> calls. \<open>body\<close> gives the
  program of a procedure value. \<open>call_depth n\<close> runs recipes nested at most \<open>n\<close> deep; deeper is
  Guile's stack overflow.
\<close>

datatype prog = Return scm | Raise cerror | Fetch scm "scm \<Rightarrow> prog"

type_synonym bodies = "scm \<Rightarrow> scm list \<Rightarrow> prog"

primrec run_prog :: "(scm \<Rightarrow> cache \<Rightarrow> scm crun) \<Rightarrow> prog \<Rightarrow> cache \<Rightarrow> scm crun" where
  "run_prog ft (Return v) c = (c, Ret v)"
| "run_prog ft (Raise e) c = (c, Exc e)"
| "run_prog ft (Fetch d k) c =
     (case ft d c of (c1, Ret x) \<Rightarrow> run_prog ft (k x) c1 | (c1, Exc e) \<Rightarrow> (c1, Exc e) | (c1, Blocks) \<Rightarrow> (c1, Blocks))"

primrec call_depth :: "nat \<Rightarrow> bodies \<Rightarrow> fsys \<Rightarrow> nat \<Rightarrow> recipe" where
  "call_depth 0 body fs tid = (\<lambda>cb args c. (c, Exc (Throw ''stack-overflow'')))"
| "call_depth (Suc n) body fs tid =
     (\<lambda>cb args c. run_prog (\<lambda>d. fetch_node (call_depth n body fs tid) fs tid d []) (body cb args) c)"

section \<open>The dependency graph\<close>

text \<open>
  An edge leads from a node to a node made from it. A node can only be made from nodes that exist,
  so edges lead from older to newer nodes: that is the invariant that makes the graph acyclic.
\<close>

definition edges :: "make_node list \<Rightarrow> (nat \<times> nat) set" where
  "edges ns = {(i, j). i < length ns \<and> j \<in> set (ascendants (ns ! i))}"

definition wf_nodes :: "make_node list \<Rightarrow> bool" where
  "wf_nodes ns \<longleftrightarrow> (\<forall>i < length ns. \<forall>j \<in> set (ascendants (ns ! i)). i < j \<and> j < length ns)"

definition wf_cache :: "cache \<Rightarrow> bool" where
  "wf_cache c \<longleftrightarrow> wf_nodes (nodes c) \<and> (\<forall>f \<in> set (file_nodes c). fn_node f < length (nodes c))"

lemma wf_nodesD:
  "\<lbrakk>wf_nodes ns; i < length ns; j \<in> set (ascendants (ns ! i))\<rbrakk> \<Longrightarrow> i < j \<and> j < length ns"
  unfolding wf_nodes_def by blast

lemma wf_nodes_edges: "wf_nodes ns \<longleftrightarrow> (\<forall>(i, j) \<in> edges ns. i < j \<and> j < length ns)"
  unfolding wf_nodes_def edges_def by blast

text \<open>The nodes that are made from \<open>i\<close>, directly or not, with \<open>i\<close> itself.\<close>

definition downstream :: "make_node list \<Rightarrow> nat \<Rightarrow> nat set" where
  "downstream ns i = {j. (i, j) \<in> (edges ns)\<^sup>*}"

definition mark :: "nat set \<Rightarrow> make_node list \<Rightarrow> make_node list" where
  "mark S ns = map (\<lambda>j. if j \<in> S then (ns ! j)\<lparr>dirty := True\<rparr> else ns ! j) [0..<length ns]"

lemma length_mark [simp]: "length (mark S ns) = length ns"
  by (simp add: mark_def)

lemma nth_mark: "j < length ns \<Longrightarrow> mark S ns ! j = (if j \<in> S then (ns ! j)\<lparr>dirty := True\<rparr> else ns ! j)"
  by (simp add: mark_def)

lemma ascendants_mark [simp]: "j < length ns \<Longrightarrow> ascendants (mark S ns ! j) = ascendants (ns ! j)"
  by (simp add: nth_mark)

lemma edges_mark [simp]: "edges (mark S ns) = edges ns"
  by (auto simp: edges_def)

lemma downstream_mark [simp]: "downstream (mark S ns) i = downstream ns i"
  by (simp add: downstream_def)

lemma wf_nodes_mark [simp]: "wf_nodes (mark S ns) = wf_nodes ns"
  by (simp add: wf_nodes_def)

lemma mark_mark: "mark S (mark T ns) = mark (S \<union> T) ns"
  by (rule nth_equalityI) (auto simp: nth_mark)

lemma mark_empty [simp]: "mark {} ns = ns"
  by (rule nth_equalityI) (auto simp: nth_mark)

lemma mark_single: "i < length ns \<Longrightarrow> ns[i := (ns ! i)\<lparr>dirty := True\<rparr>] = mark {i} ns"
  by (rule nth_equalityI) (auto simp: nth_mark nth_list_update)

lemma downstream_self [simp]: "i \<in> downstream ns i"
  by (simp add: downstream_def)

lemma downstream_unfold:
  "i < length ns \<Longrightarrow> downstream ns i = insert i (\<Union>j \<in> set (ascendants (ns ! i)). downstream ns j)"
  by (auto simp: downstream_def edges_def elim: converse_rtranclE intro: converse_rtrancl_into_rtrancl)

lemma downstream_bound:
  assumes "wf_nodes ns" "i < length ns" "j \<in> downstream ns i"
  shows "i \<le> j \<and> j < length ns"
proof -
  have "(i, j) \<in> (edges ns)\<^sup>*" using assms(3) by (simp add: downstream_def)
  then show ?thesis
  proof (induction rule: rtrancl_induct)
    case (step j k)
    then have "j < length ns" "k \<in> set (ascendants (ns ! j))" by (simp_all add: edges_def)
    then have "j < k" "k < length ns" using wf_nodesD [OF assms(1)] by blast+
    then show ?case using step.IH by simp
  qed (use assms in simp)
qed

text \<open>The traversal marks one node's dependents before it goes on with the rest of its stack.\<close>

lemma invalidate_stack_many:
  assumes "\<And>ns' rest. \<lbrakk>length ns' = length ns; edges ns' = edges ns; wf_nodes ns'\<rbrakk> \<Longrightarrow>
             \<forall>x \<in> set xs. invalidate_stack ns' (x # rest) = invalidate_stack (mark (downstream ns' x) ns') rest"
    and "wf_nodes ns"
  shows "invalidate_stack ns (xs @ rest) = invalidate_stack (mark (\<Union>x \<in> set xs. downstream ns x) ns) rest"
  using assms
proof (induction xs arbitrary: ns)
  case (Cons x xs)
  have "invalidate_stack ns ((x # xs) @ rest) = invalidate_stack (mark (downstream ns x) ns) (xs @ rest)"
    using Cons.prems(1) [OF refl refl Cons.prems(2)] by simp
  also have "\<dots> = invalidate_stack
      (mark (\<Union>y \<in> set xs. downstream (mark (downstream ns x) ns) y) (mark (downstream ns x) ns)) rest"
  proof (rule Cons.IH)
    fix ns' rest
    assume "length ns' = length (mark (downstream ns x) ns)" "edges ns' = edges (mark (downstream ns x) ns)" "wf_nodes ns'"
    then show "\<forall>x \<in> set xs.
        invalidate_stack ns' (x # rest) = invalidate_stack (mark (downstream ns' x) ns') rest"
      by (intro ballI) (rule Cons.prems(1) [THEN bspec], simp_all)
  qed (use Cons.prems(2) in simp)
  finally show ?case by (simp add: mark_mark Un_commute)
qed simp

lemma invalidate_stack_one:
  "\<lbrakk>wf_nodes ns; i < length ns\<rbrakk> \<Longrightarrow>
   invalidate_stack ns (i # rest) = invalidate_stack (mark (downstream ns i) ns) rest"
proof (induction "length ns - i" arbitrary: ns i rest rule: less_induct)
  case less
  let ?m = "mark {i} ns"
  have step: "invalidate_stack ns (i # rest) = invalidate_stack ?m (ascendants (ns ! i) @ rest)"
    using less.prems by (subst invalidate_stack.simps) (simp add: mark_single)
  have kids: "\<forall>x \<in> set (ascendants (ns ! i)). i < x \<and> x < length ns"
    using wf_nodesD [OF less.prems] by blast
  have "invalidate_stack ?m (ascendants (ns ! i) @ rest) =
      invalidate_stack (mark (\<Union>x \<in> set (ascendants (ns ! i)). downstream ?m x) ?m) rest"
  proof (rule invalidate_stack_many)
    fix ns' rest
    assume "length ns' = length ?m" "wf_nodes ns'"
    then show "\<forall>x \<in> set (ascendants (ns ! i)).
        invalidate_stack ns' (x # rest) = invalidate_stack (mark (downstream ns' x) ns') rest"
      using kids less.prems by (intro ballI less.hyps) auto
  qed (use less.prems in simp)
  then show ?case
    using step less.prems by (simp add: mark_mark downstream_unfold [of i])
qed

lemma invalidate_marks:
  assumes "wf_nodes (nodes c)" "i < length (nodes c)"
  shows "invalidate i c = Some (c\<lparr>nodes := mark (downstream (nodes c) i) (nodes c)\<rparr>, Ret ())"
  using invalidate_stack_one [OF assms, of "[]"] by (simp add: invalidate_def invalidate_stack.simps)


section \<open>What a document is worth\<close>

text \<open>
  The value a document would have if nothing were cached: the payload of a datum, the content of a
  file, the result of a recipe run on the values of the documents it fetches.
\<close>

inductive val :: "fsys \<Rightarrow> bodies \<Rightarrow> make_node list \<Rightarrow> nat \<Rightarrow> scm \<Rightarrow> bool"
  and pval :: "fsys \<Rightarrow> bodies \<Rightarrow> make_node list \<Rightarrow> prog \<Rightarrow> scm \<Rightarrow> bool"
  for fs body ns where
  val_datum: "\<lbrakk>i < length ns; ntype (ns ! i) = TYPE_DATUM\<rbrakk> \<Longrightarrow> val fs body ns i (payload (ns ! i))"
| val_file: "\<lbrakk>i < length ns; ntype (ns ! i) = TYPE_FILE; load_from_file fs (filepath (ns ! i)) = Inr r\<rbrakk> \<Longrightarrow>
     val fs body ns i (case r of None \<Rightarrow> SBool False | Some s \<Rightarrow> SStr s)"
| val_chain: "\<lbrakk>i < length ns; ntype (ns ! i) = TYPE_CHAIN; pval fs body ns (body (callback (ns ! i)) []) v\<rbrakk> \<Longrightarrow>
     val fs body ns i v"
| pval_return: "pval fs body ns (Return v) v"
| pval_fetch: "\<lbrakk>val fs body ns j x; pval fs body ns (k x) v\<rbrakk> \<Longrightarrow>
     pval fs body ns (Fetch (SSmob ''make-node'' j) k) v"

inductive_cases val_E: "val fs body ns i v"
inductive_cases pval_ReturnE: "pval fs body ns (Return w) v"
inductive_cases pval_RaiseE: "pval fs body ns (Raise e) v"
inductive_cases pval_FetchE: "pval fs body ns (Fetch d k) v"

lemma val_unique_aux:
  "val fs body ns i v \<Longrightarrow> (\<forall>w. val fs body ns i w \<longrightarrow> w = v)"
  "pval fs body ns p v \<Longrightarrow> (\<forall>w. pval fs body ns p w \<longrightarrow> w = v)"
proof (induction rule: val_pval.inducts)
  case (val_datum i)
  then show ?case by (auto elim: val_E)
next
  case (val_file i r)
  then show ?case by (auto elim: val_E)
next
  case (val_chain i v)
  then show ?case by (metis node_type.distinct(3,5) val_E)
next
  case (pval_return v)
  then show ?case by (auto elim: pval_ReturnE)
next
  case (pval_fetch j x k v)
  show ?case
  proof (intro allI impI)
    fix w
    assume "pval fs body ns (Fetch (SSmob ''make-node'' j) k) w"
    then obtain y where "val fs body ns j y" "pval fs body ns (k y) w" 
      by (auto elim: pval_FetchE)
    with pval_fetch.IH show "w = v" by metis
  qed
qed

lemmas val_unique = val_unique_aux(1) [rule_format]

text \<open>A recipe that keeps to its ingredients: it fetches only documents it was made from.\<close>

primrec fetches_only :: "(nat \<Rightarrow> bool) \<Rightarrow> prog \<Rightarrow> bool" where
  "fetches_only P (Return v) = True"
| "fetches_only P (Raise e) = False"
| "fetches_only P (Fetch d k) = ((\<exists>j. d = SSmob ''make-node'' j \<and> P j) \<and> (\<forall>x. fetches_only P (k x)))"

definition disciplined :: "bodies \<Rightarrow> make_node list \<Rightarrow> bool" where
  "disciplined body ns \<longleftrightarrow> (\<forall>i < length ns. ntype (ns ! i) = TYPE_CHAIN \<longrightarrow>
     fetches_only (\<lambda>j. (j, i) \<in> edges ns) (body (callback (ns ! i)) []))"

text \<open>Two node lists that describe the same documents: they differ in what is cached only.\<close>

definition same_doc :: "make_node \<Rightarrow> make_node \<Rightarrow> bool" where
  "same_doc m n \<longleftrightarrow> callback m = callback n \<and> ascendants m = ascendants n \<and> filepath m = filepath n \<and>
     ntype m = ntype n \<and> (ntype m = TYPE_DATUM \<longrightarrow> payload m = payload n)"

definition same_docs :: "make_node list \<Rightarrow> make_node list \<Rightarrow> bool" where
  "same_docs ms ns \<longleftrightarrow> list_all2 same_doc ms ns"

text \<open>The promise of the cache: a clean document at rest holds its value.\<close>

definition coherent :: "fsys \<Rightarrow> bodies \<Rightarrow> make_node list \<Rightarrow> bool" where
  "coherent fs body ns \<longleftrightarrow>
     (\<forall>i < length ns. \<not> dirty (ns ! i) \<longrightarrow> mutex (ns ! i) = None \<longrightarrow> val fs body ns i (payload (ns ! i)))"

lemma same_docs_refl [simp]: "same_docs ns ns"
  by (simp add: same_docs_def same_doc_def list_all2_refl)

lemma same_docs_sym: "same_docs ms ns \<Longrightarrow> same_docs ns ms"
  by (auto simp: same_docs_def same_doc_def list_all2_conv_all_nth)

lemma same_docs_trans: "same_docs ls ms \<Longrightarrow> same_docs ms ns \<Longrightarrow> same_docs ls ns"
  by (auto simp: same_docs_def same_doc_def list_all2_conv_all_nth)

lemma same_docs_length: "same_docs ms ns \<Longrightarrow> length ms = length ns"
  by (auto simp: same_docs_def dest: list_all2_lengthD)

lemma same_docs_nth: "same_docs ms ns \<Longrightarrow> i < length ns \<Longrightarrow> same_doc (ms ! i) (ns ! i)"
  by (simp add: same_docs_def list_all2_conv_all_nth)

lemma same_doc_refl [simp]: "same_doc n n"
  by (simp add: same_doc_def)

lemma same_docs_update: "same_doc (ns ! i) n \<Longrightarrow> same_docs ns (ns[i := n])"
  by (cases "i < length ns") (auto simp: same_docs_def list_all2_conv_all_nth nth_list_update)

lemma same_docs_fields:
  assumes "same_docs ms ns" "i < length ns"
  shows "callback (ms ! i) = callback (ns ! i)" "ascendants (ms ! i) = ascendants (ns ! i)"
    "filepath (ms ! i) = filepath (ns ! i)" "ntype (ms ! i) = ntype (ns ! i)"
    "ntype (ns ! i) = TYPE_DATUM \<Longrightarrow> payload (ms ! i) = payload (ns ! i)"
  using same_docs_nth [OF assms] by (simp_all add: same_doc_def)

lemma same_docs_edges: "same_docs ms ns \<Longrightarrow> edges ms = edges ns"
  by (auto simp: edges_def same_docs_length same_docs_fields)

lemma same_docs_wf: "same_docs ms ns \<Longrightarrow> wf_nodes ms = wf_nodes ns"
  by (simp add: wf_nodes_edges same_docs_edges same_docs_length)

lemma same_docs_disciplined: "same_docs ms ns \<Longrightarrow> disciplined body ms = disciplined body ns"
  unfolding disciplined_def
  using same_docs_length [of ms ns] same_docs_fields(1,4) [of ms ns] same_docs_edges [of ms ns]
  by (metis (no_types))

lemma same_docs_val_aux:
  "val fs body ms i v \<Longrightarrow> same_docs ms ns \<Longrightarrow> val fs body ns i v"
  "pval fs body ms p v \<Longrightarrow> same_docs ms ns \<Longrightarrow> pval fs body ns p v"
proof (induction rule: val_pval.inducts)
  case (val_datum i)
  then have "i < length ns" by (simp add: same_docs_length)
  with val_datum show ?case
    using val_pval.val_datum [of i ns] same_docs_fields(4,5) [OF val_datum.prems] by simp
next
  case (val_file i r)
  then have "i < length ns" by (simp add: same_docs_length)
  with val_file show ?case
    using val_pval.val_file [of i ns] same_docs_fields(3,4) [OF val_file.prems] by simp
next
  case (val_chain i v)
  then have "i < length ns" by (simp add: same_docs_length)
  with val_chain show ?case
    using val_pval.val_chain [of i ns] same_docs_fields(1,4) [OF val_chain.prems] by simp
qed (auto intro: val_pval.intros)

lemma same_docs_val: "same_docs ms ns \<Longrightarrow> val fs body ms i v = val fs body ns i v"
  using same_docs_val_aux(1) same_docs_sym by blast


section \<open>Fetching\<close>

text \<open>Files that can be read: no file node has lost its path and no read fails half way.\<close>

definition readable :: "fsys \<Rightarrow> make_node list \<Rightarrow> bool" where
  "readable fs ns \<longleftrightarrow> (\<forall>i < length ns. filepath (ns ! i) \<noteq> Freed) \<and> (\<forall>p. fs_read fs p \<noteq> ReadFails)"

definition sound :: "fsys \<Rightarrow> bodies \<Rightarrow> cache \<Rightarrow> bool" where
  "sound fs body c \<longleftrightarrow> wf_nodes (nodes c) \<and> disciplined body (nodes c) \<and> readable fs (nodes c) \<and>
     coherent fs body (nodes c)"

text \<open>All mutexes free: no operation is under way.\<close>

definition at_rest :: "cache \<Rightarrow> bool" where
  "at_rest c \<longleftrightarrow> (\<forall>i < length (nodes c). mutex (nodes c ! i) = None)"

definition keeps :: "cache \<Rightarrow> cache \<Rightarrow> bool" where
  "keeps c c' \<longleftrightarrow> same_docs (nodes c) (nodes c') \<and> map mutex (nodes c) = map mutex (nodes c') \<and>
     file_nodes c = file_nodes c'"

lemma cache_keeps_refl [simp]: "keeps c c"
  by (simp add: keeps_def)

lemma keeps_trans: "keeps a b \<Longrightarrow> keeps b c \<Longrightarrow> keeps a c"
  by (auto simp: keeps_def intro: same_docs_trans)

lemma keeps_length: "keeps c c' \<Longrightarrow> length (nodes c') = length (nodes c)"
  unfolding keeps_def using same_docs_length by metis

lemma keeps_mutex: "keeps c c' \<Longrightarrow> i < length (nodes c) \<Longrightarrow> mutex (nodes c' ! i) = mutex (nodes c ! i)"
  unfolding keeps_def by (metis length_map nth_map)

lemma keeps_val: "keeps c c' \<Longrightarrow> val fs body (nodes c') i v = val fs body (nodes c) i v"
  unfolding keeps_def using same_docs_val by metis

lemma keeps_pval: "keeps c c' \<Longrightarrow> pval fs body (nodes c') p v \<Longrightarrow> pval fs body (nodes c) p v"
  unfolding keeps_def using same_docs_val_aux(2) same_docs_sym by blast

lemma nodes_upd_node [simp]: "nodes (upd_node i f c) = (nodes c)[i := f (nodes c ! i)]"
  by (simp add: upd_node_def)

lemma upd_node_upd_node [simp]: "upd_node i f (upd_node i g c) = upd_node i (\<lambda>n. f (g n)) c"
  by (cases "i < length (nodes c)") (simp_all add: upd_node_def list_update_beyond)

lemma file_nodes_upd_node [simp]: "file_nodes (upd_node i f c) = file_nodes c"
  by (simp add: upd_node_def)

lemma readable_same_docs: "same_docs ms ns \<Longrightarrow> readable fs ms = readable fs ns"
  unfolding readable_def using same_docs_length [of ms ns] same_docs_fields(3) [of ms ns] by (metis (no_types))

lemma coherent_upd:
  assumes "coherent fs body ns" "same_doc (ns ! i) n"
    and "\<lbrakk>i < length ns; \<not> dirty n; mutex n = None\<rbrakk> \<Longrightarrow> val fs body ns i (payload n)"
  shows "coherent fs body (ns[i := n])"
  unfolding coherent_def
proof (intro allI impI)
  fix j
  assume j: "j < length (ns[i := n])" "\<not> dirty (ns[i := n] ! j)" "mutex (ns[i := n] ! j) = None"
  have "val fs body ns j (payload (ns[i := n] ! j))"
    using assms(1,3) j by (cases "j = i") (auto simp: coherent_def)
  then show "val fs body (ns[i := n]) j (payload (ns[i := n] ! j))"
    using same_docs_val [OF same_docs_update [OF assms(2)]] by simp
qed

lemma sound_upd:
  assumes "sound fs body c" "same_doc (nodes c ! i) n"
    and "\<lbrakk>i < length (nodes c); \<not> dirty n; mutex n = None\<rbrakk> \<Longrightarrow> val fs body (nodes c) i (payload n)"
  shows "sound fs body (c\<lparr>nodes := (nodes c)[i := n]\<rparr>)"
proof -
  note sd = same_docs_update [OF assms(2)]
  have "coherent fs body ((nodes c)[i := n])"
    using assms(1) by (intro coherent_upd [OF _ assms(2,3)]) (simp_all add: sound_def)
  then show ?thesis
    using assms(1) same_docs_wf [OF sd] same_docs_disciplined [OF sd] readable_same_docs [OF sd]
    by (simp add: sound_def)
qed

text \<open>What \<open>fetch_node\<close> promises for every document older than \<open>i\<close>; the recipe of \<open>i\<close> relies on it.\<close>

definition fetch_ok :: "(scm \<Rightarrow> cache \<Rightarrow> scm crun) \<Rightarrow> fsys \<Rightarrow> bodies \<Rightarrow> nat \<Rightarrow> bool" where
  "fetch_ok ft fs body i \<longleftrightarrow> (\<forall>c. sound fs body c \<longrightarrow> i < length (nodes c) \<longrightarrow>
     (\<forall>j \<le> i. mutex (nodes c ! j) = None) \<longrightarrow>
     (\<exists>c' v. ft (SSmob ''make-node'' i) c = (c', Ret v) \<and> val fs body (nodes c) i v \<and> keeps c c' \<and>
        sound fs body c'))"

lemma fetches_only_mono:
  "\<lbrakk>fetches_only P p; \<And>j. P j \<Longrightarrow> Q j\<rbrakk> \<Longrightarrow> fetches_only Q p"
  by (induction p) auto

lemma fetch_okD:
  "\<lbrakk>fetch_ok ft fs body i; sound fs body c; i < length (nodes c); \<forall>j \<le> i. mutex (nodes c ! j) = None\<rbrakk> \<Longrightarrow>
   \<exists>c' v. ft (SSmob ''make-node'' i) c = (c', Ret v) \<and> val fs body (nodes c) i v \<and> keeps c c' \<and>
     sound fs body c'"
  unfolding fetch_ok_def by blast

text \<open>
  The interface a recipe works against: a way to fetch documents that keeps the promise for every
  document older than \<open>bound\<close>.
\<close>

locale document_reader =
  fixes ft :: "scm \<Rightarrow> cache \<Rightarrow> scm crun" and fs :: fsys and body :: bodies and bound :: nat
  assumes reads: "j < bound \<Longrightarrow> fetch_ok ft fs body j"
begin

lemma run_prog_ok:
  "\<lbrakk>fetches_only (\<lambda>j. j < bound) p; sound fs body c; bound \<le> length (nodes c);
    \<forall>j < bound. mutex (nodes c ! j) = None\<rbrakk> \<Longrightarrow>
   \<exists>c' v. run_prog ft p c = (c', Ret v) \<and> pval fs body (nodes c) p v \<and> keeps c c' \<and> sound fs body c'"
proof (induction p arbitrary: c)
  case (Fetch d k)
  then obtain j where j: "d = SSmob ''make-node'' j" "j < bound" by auto
  obtain c1 x where c1: "ft d c = (c1, Ret x)" "val fs body (nodes c) j x" "keeps c c1" "sound fs body c1"
    using fetch_okD [OF reads [OF j(2)] Fetch.prems(2)] Fetch.prems(3,4) j by auto
  have "\<forall>l < bound. mutex (nodes c1 ! l) = None" "bound \<le> length (nodes c1)"
    using Fetch.prems keeps_mutex [OF c1(3)] keeps_length [OF c1(3)] by auto
  then obtain c2 v where "run_prog ft (k x) c1 = (c2, Ret v)" "pval fs body (nodes c1) (k x) v"
      "keeps c1 c2" "sound fs body c2"
    using Fetch.IH [of "k x" c1] Fetch.prems(1) c1(4) by auto
  then show ?case
    using c1 j keeps_trans keeps_pval [OF c1(3)] by (auto intro: val_pval.intros)
qed (auto intro: val_pval.intros)

end

lemma fetch_clean:
  assumes "i < length (nodes c)" "mutex (nodes c ! i) = None" "\<not> dirty (nodes c ! i)"
  shows "fetch_node call fs tid (SSmob ''make-node'' i) args c = (c, Ret (payload (nodes c ! i)))"
proof -
  have "(nodes c)[i := (nodes c ! i)\<lparr>mutex := None\<rparr>] = nodes c"
    using assms(2) by (metis (no_types, lifting) list_update_id make_node.surjective make_node.update_convs(4))
  then show ?thesis
    using assms
    by (simp add: fetch_node_def bindC_def node_of_def lock_node_def unlock_node_def upd_node_def)
qed


lemma readable_loads:
  assumes "readable fs ns" "i < length ns"
  obtains r where "load_from_file fs (filepath (ns ! i)) = Inr r"
proof -
  have "filepath (ns ! i) \<noteq> Freed" "\<And>p. fs_read fs p \<noteq> ReadFails" using assms by (simp_all add: readable_def)
  then have "\<exists>r. load_from_file fs (filepath (ns ! i)) = Inr r"
    by (simp add: load_from_file_def split: fpath.splits option.splits fread.splits)
  then show ?thesis using that by blast
qed

text \<open>The state in which the recipe of a dirty document runs: it is locked and already marked clean.\<close>

definition begun :: "nat \<Rightarrow> nat \<Rightarrow> cache \<Rightarrow> cache" where
  "begun tid i c = upd_node i (\<lambda>n. n\<lparr>mutex := Some tid, dirty := False\<rparr>) c"

lemma fetch_dirty:
  assumes "i < length (nodes c)" "mutex (nodes c ! i) = None" "dirty (nodes c ! i)"
  shows "fetch_node call fs tid (SSmob ''make-node'' i) args c =
    bindC (regenerate call fs i args (begun tid i c))
      (\<lambda>c p. (upd_node i (\<lambda>n. n\<lparr>payload := p, mutex := None\<rparr>) c, Ret p))"
  using assms
  by (simp add: fetch_node_def bindC_def node_of_def lock_node_def unlock_node_def begun_def)

lemma regenerate_ok:
  assumes "sound fs body c" "i < length (nodes c)" "\<forall>j < i. mutex (nodes c ! j) = None"
    and "mutex (nodes c ! i) \<noteq> None"
    and "\<And>j. j < i \<Longrightarrow> fetch_ok (\<lambda>d. fetch_node (call_depth n body fs tid) fs tid d []) fs body j"
  shows "\<exists>c' v. regenerate (call_depth (Suc n) body fs tid) fs i [] c = (c', Ret v) \<and>
    val fs body (nodes c) i v \<and> keeps c c' \<and> sound fs body c'"
proof (cases "ntype (nodes c ! i)")
  case TYPE_DATUM
  then show ?thesis using assms(1,2) by (auto simp: regenerate_def intro: val_pval.intros)
next
  case TYPE_FILE
  obtain r where r: "load_from_file fs (filepath (nodes c ! i)) = Inr r"
    using assms(1) readable_loads [OF _ assms(2)] unfolding sound_def by blast
  show ?thesis
    using assms(1) TYPE_FILE r val_file [OF assms(2) TYPE_FILE r]
    by (cases r) (auto simp: regenerate_def)
next
  case TYPE_CHAIN
  let ?p = "body (callback (nodes c ! i)) []"
  have "fetches_only (\<lambda>j. (j, i) \<in> edges (nodes c)) ?p"
    using assms(1,2) TYPE_CHAIN by (simp add: sound_def disciplined_def)
  moreover have "(j, i) \<in> edges (nodes c) \<Longrightarrow> j < i" for j
    using assms(1) wf_nodesD [of "nodes c" j i] unfolding sound_def edges_def by blast
  ultimately have "fetches_only (\<lambda>j. j < i) ?p" by (rule fetches_only_mono)
  then obtain c' v where "run_prog (\<lambda>d. fetch_node (call_depth n body fs tid) fs tid d []) ?p c = (c', Ret v)"
      "pval fs body (nodes c) ?p v" "keeps c c'" "sound fs body c'"
    using document_reader.run_prog_ok [OF document_reader.intro [OF assms(5)]] assms(1-3) by (metis less_imp_le)
  then show ?thesis
    using assms(2) TYPE_CHAIN by (auto simp: regenerate_def intro: val_pval.intros)
qed


lemma begun_ok:
  assumes "sound fs body c" "i < length (nodes c)"
  shows "sound fs body (begun tid i c)" "same_docs (nodes c) (nodes (begun tid i c))"
  using assms sound_upd [OF assms(1), of i "(nodes c ! i)\<lparr>mutex := Some tid, dirty := False\<rparr>"]
  by (simp_all add: begun_def upd_node_def same_docs_update same_doc_def)

lemma stored_ok:
  assumes "sound fs body c" "i < length (nodes c)" "val fs body (nodes c) i v"
  shows "sound fs body (upd_node i (\<lambda>n. n\<lparr>payload := v, mutex := None\<rparr>) c)"
    "same_docs (nodes c) (nodes (upd_node i (\<lambda>n. n\<lparr>payload := v, mutex := None\<rparr>) c))"
proof -
  have "ntype (nodes c ! i) = TYPE_DATUM \<Longrightarrow> v = payload (nodes c ! i)"
    using val_unique [OF assms(3) val_datum [OF assms(2)]] by simp
  then have sd: "same_doc (nodes c ! i) ((nodes c ! i)\<lparr>payload := v, mutex := None\<rparr>)"
    by (auto simp: same_doc_def)
  show "sound fs body (upd_node i (\<lambda>n. n\<lparr>payload := v, mutex := None\<rparr>) c)"
    using sound_upd [OF assms(1) sd] assms(3) by (simp add: upd_node_def)
  show "same_docs (nodes c) (nodes (upd_node i (\<lambda>n. n\<lparr>payload := v, mutex := None\<rparr>) c))"
    by (simp add: same_docs_update sd)
qed

lemma fetch_mutex_back:
  assumes "keeps (begun tid i c) c1" "i < length (nodes c)" "mutex (nodes c ! i) = None"
  shows "map mutex (nodes (upd_node i (\<lambda>n. n\<lparr>payload := v, mutex := None\<rparr>) c1)) = map mutex (nodes c)"
proof -
  have "map mutex (nodes c1) = (map mutex (nodes c))[i := Some tid]"
    using assms(1) by (simp add: keeps_def begun_def map_update)
  then have "map mutex (nodes (upd_node i (\<lambda>n. n\<lparr>payload := v, mutex := None\<rparr>) c1)) =
      (map mutex (nodes c))[i := None]"
    by (simp add: map_update)
  also have "\<dots> = map mutex (nodes c)"
    using assms(2,3) list_update_id [of "map mutex (nodes c)" i] by simp
  finally show ?thesis .
qed

lemma fetch_node_ok: "i < n \<Longrightarrow> fetch_ok (\<lambda>d. fetch_node (call_depth n body fs tid) fs tid d []) fs body i"
proof (induction i arbitrary: n rule: less_induct)
  case (less i)
  then obtain k where k: "n = Suc k" by (cases n) auto
  show ?case
    unfolding fetch_ok_def
  proof (intro allI impI)
    fix c
    assume c: "sound fs body c" "i < length (nodes c)" "\<forall>j \<le> i. mutex (nodes c ! j) = None"
    let ?ft = "fetch_node (call_depth n body fs tid) fs tid (SSmob ''make-node'' i) []"
    show "\<exists>c' v. ?ft c = (c', Ret v) \<and> val fs body (nodes c) i v \<and> keeps c c' \<and> sound fs body c'"
    proof (cases "dirty (nodes c ! i)")
      case False
      then have "val fs body (nodes c) i (payload (nodes c ! i))"
        using c by (simp add: sound_def coherent_def)
      then show ?thesis using fetch_clean [of i c] c False by auto
    next
      case True
      note b = begun_ok [OF c(1,2), of tid]
      have "\<exists>c' v. regenerate (call_depth (Suc k) body fs tid) fs i [] (begun tid i c) = (c', Ret v) \<and>
          val fs body (nodes (begun tid i c)) i v \<and> keeps (begun tid i c) c' \<and> sound fs body c'"
      proof (rule regenerate_ok)
        show "fetch_ok (\<lambda>d. fetch_node (call_depth k body fs tid) fs tid d []) fs body j" if "j < i" for j
          using less.IH [OF that] less.prems k that by simp
      qed (use b(1) c(2,3) in \<open>simp_all add: begun_def\<close>)
      then obtain c1 v where c1: "regenerate (call_depth n body fs tid) fs i [] (begun tid i c) = (c1, Ret v)"
          "val fs body (nodes (begun tid i c)) i v" "keeps (begun tid i c) c1" "sound fs body c1"
        unfolding k by blast
      define c2 where "c2 = upd_node i (\<lambda>n. n\<lparr>payload := v, mutex := None\<rparr>) c1"
      have v: "val fs body (nodes c) i v" "val fs body (nodes c1) i v"
        using c1(2) same_docs_val [OF b(2)] keeps_val [OF c1(3)] by simp_all
      have len: "i < length (nodes c1)" using c(2) keeps_length [OF c1(3)] by (simp add: begun_def)
      have "same_docs (nodes c) (nodes c2)"
        using b(2) c1(3) stored_ok(2) [OF c1(4) len v(2)] unfolding c2_def keeps_def by (blast intro: same_docs_trans)
      moreover have "map mutex (nodes c2) = map mutex (nodes c)"
        unfolding c2_def by (rule fetch_mutex_back [OF c1(3) c(2)]) (use c(3) in simp)
      moreover have "file_nodes c2 = file_nodes c" using c1(3) by (simp add: keeps_def c2_def begun_def)
      ultimately have "keeps c c2" by (simp add: keeps_def)
      moreover have "?ft c = (c2, Ret v)" using fetch_dirty [of i c] c True c1(1) by (simp add: bindC_def c2_def)
      moreover have "sound fs body c2" using stored_ok(1) [OF c1(4) len v(2)] by (simp add: c2_def)
      ultimately show ?thesis using v(1) by blast
    qed
  qed
qed


text \<open>\<open>fetch_node\<close> keeps the promise, so any script of fetches gets current values.\<close>

interpretation docs: document_reader "\<lambda>d. fetch_node (call_depth n body fs tid) fs tid d []" fs body n
  by unfold_locales (rule fetch_node_ok)

lemma script_reads_current:
  assumes "sound fs body c" "at_rest c" "fetches_only (\<lambda>j. j < length (nodes c)) p"
  shows "\<exists>c' v. run_prog (\<lambda>d. fetch_node (call_depth (length (nodes c)) body fs tid) fs tid d []) p c = (c', Ret v) \<and>
    pval fs body (nodes c) p v \<and> keeps c c'"
  using docs.run_prog_ok [OF assms(3,1), of tid] assms(2) unfolding at_rest_def by blast

section \<open>Touching\<close>

lemma edges_downstream: "j \<in> downstream ns i \<Longrightarrow> (j, k) \<in> edges ns \<Longrightarrow> k \<in> downstream ns i"
  by (auto simp: downstream_def intro: rtrancl_into_rtrancl)

text \<open>A document that is not made from \<open>i\<close> does not depend on what \<open>i\<close> holds.\<close>

lemma val_elsewhere_aux:
  "val fs body ns j v \<Longrightarrow> disciplined body ns \<Longrightarrow> j \<notin> downstream ns i \<Longrightarrow> val fs body (ns[i := n]) j v"
  "pval fs body ns p v \<Longrightarrow> disciplined body ns \<Longrightarrow> fetches_only (\<lambda>k. k \<notin> downstream ns i) p \<Longrightarrow>
   pval fs body (ns[i := n]) p v"
proof (induction rule: val_pval.inducts)
  case (val_datum j)
  then have "j \<noteq> i" by auto
  then show ?case using val_pval.val_datum [of j "ns[i := n]"] val_datum by simp
next
  case (val_file j r)
  then have "j \<noteq> i" by auto
  then show ?case using val_pval.val_file [of j "ns[i := n]"] val_file by simp
next
  case (val_chain j v)
  then have "j \<noteq> i" by auto
  have "fetches_only (\<lambda>k. (k, j) \<in> edges ns) (body (callback (ns ! j)) [])"
    using val_chain by (simp add: disciplined_def)
  then have "fetches_only (\<lambda>k. k \<notin> downstream ns i) (body (callback (ns ! j)) [])"
    by (rule fetches_only_mono) (use val_chain.prems(2) edges_downstream in blast)
  then show ?case using val_pval.val_chain [of j "ns[i := n]"] val_chain \<open>j \<noteq> i\<close> by simp
qed (auto intro: val_pval.intros)

lemma same_docs_mark: "same_docs ns (mark S ns)"
  by (auto simp: same_docs_def same_doc_def list_all2_conv_all_nth nth_mark)

lemma coherent_mark: "coherent fs body ns \<Longrightarrow> coherent fs body (mark S ns)"
  unfolding coherent_def using same_docs_val [OF same_docs_mark, of fs body ns] by (auto simp: nth_mark)

lemma sound_mark: "sound fs body c \<Longrightarrow> sound fs body (c\<lparr>nodes := mark S (nodes c)\<rparr>)"
  using coherent_mark same_docs_disciplined [OF same_docs_mark] readable_same_docs [OF same_docs_mark]
  by (auto simp: sound_def)

text \<open>Giving a document a new source after everything made from it was marked.\<close>

lemma sound_replace:
  assumes "sound fs body c" "i < length (nodes c)"
    and "callback n = callback (nodes c ! i)" "ascendants n = ascendants (nodes c ! i)"
      "ntype n = ntype (nodes c ! i)" "filepath n \<noteq> Freed" "dirty n"
    and "\<And>j. \<lbrakk>j \<in> downstream (nodes c) i; j < length (nodes c)\<rbrakk> \<Longrightarrow> dirty (nodes c ! j)"
  shows "sound fs body (c\<lparr>nodes := (nodes c)[i := n]\<rparr>)"
proof -
  let ?ns = "nodes c" and ?ns' = "(nodes c)[i := n]"
  have e: "edges ?ns' = edges ?ns" using assms(2,4) by (auto simp: edges_def nth_list_update split: if_splits)
  have d: "disciplined body ?ns" using assms(1) by (simp add: sound_def)
  have "disciplined body ?ns'"
    using d assms(2,3,5) by (auto simp: disciplined_def e nth_list_update)
  moreover have "wf_nodes ?ns'"
    using assms(1) e by (simp add: sound_def wf_nodes_edges)
  moreover have "readable fs ?ns'"
    using assms(1,2,6) by (auto simp: sound_def readable_def nth_list_update)
  moreover have "coherent fs body ?ns'"
    unfolding coherent_def
  proof (intro allI impI)
    fix j
    assume j: "j < length ?ns'" "\<not> dirty (?ns' ! j)" "mutex (?ns' ! j) = None"
    then have ji: "j \<noteq> i" "j < length ?ns" using assms(2,7) by auto
    then have "j \<notin> downstream ?ns i" using assms(8) [of j] j by auto
    moreover have "val fs body ?ns j (payload (?ns ! j))"
      using assms(1) j ji by (simp add: sound_def coherent_def)
    ultimately show "val fs body ?ns' j (payload (?ns' ! j))"
      using val_elsewhere_aux(1) [OF _ d] ji by simp
  qed
  ultimately show ?thesis by (simp add: sound_def)
qed


definition cache_ok :: "fsys \<Rightarrow> bodies \<Rightarrow> cache \<Rightarrow> bool" where
  "cache_ok fs body c \<longleftrightarrow> sound fs body c \<and> at_rest c \<and> (\<forall>f \<in> set (file_nodes c). fn_node f < length (nodes c))"

lemma node_of_Ret: "node_of c d = (c', Ret i) \<longleftrightarrow> d = SSmob ''make-node'' i \<and> i < length (nodes c) \<and> c' = c"
  by (auto simp: node_of_def split: scm.splits)

text \<open>One call of \<open>touch_node\<close> on a free document: the marking, then the new source, if any.\<close>

definition retarget :: "scm list \<Rightarrow> make_node \<Rightarrow> make_node" where
  "retarget args n =
     (case args of
        [] \<Rightarrow> n
      | a # _ \<Rightarrow> (case ntype n of
                    TYPE_DATUM \<Rightarrow> n\<lparr>payload := a\<rparr>
                  | TYPE_FILE \<Rightarrow> (case a of SStr p \<Rightarrow> n\<lparr>filepath := Path p\<rparr> | _ \<Rightarrow> n)
                  | TYPE_CHAIN \<Rightarrow> n))"

lemma mutex_None_id: "mutex n = None \<Longrightarrow> n\<lparr>mutex := None\<rparr> = n"
  by (cases n) simp

lemma touch_node_Ret:
  assumes "wf_nodes (nodes c)" "at_rest c" "touch_node tid d args c = Some (c', Ret v)"
  obtains i where "d = SSmob ''make-node'' i" "i < length (nodes c)"
    "c' = upd_node i (retarget args) (c\<lparr>nodes := mark (downstream (nodes c) i) (nodes c)\<rparr>)"
    "v = SBool True"
proof -
  obtain i where i: "d = SSmob ''make-node'' i" "i < length (nodes c)"
    using assms(3) by (auto simp: touch_node_def node_of_def split: scm.splits if_splits)
  let ?L = "upd_node i (\<lambda>n. n\<lparr>mutex := Some tid\<rparr>) c" and ?D = "downstream (nodes c) i"
  have free: "mutex (nodes c ! i) = None" using assms(2) i by (simp add: at_rest_def)
  have "same_docs (nodes c) (nodes ?L)" by (simp add: same_docs_update same_doc_def)
  then have D: "downstream (nodes ?L) i = ?D" "wf_nodes (nodes ?L)"
    using assms(1) same_docs_edges same_docs_wf unfolding downstream_def by metis+
  have inv: "invalidate i ?L = Some (?L\<lparr>nodes := mark ?D (nodes ?L)\<rparr>, Ret ())"
    using invalidate_marks [OF D(2), of i] i D(1) by simp
  define m where "m = (nodes c ! i)\<lparr>dirty := True\<rparr>"
  have unlock: "(mark ?D (nodes ?L))[i := retarget args m] = (mark ?D (nodes c))[i := retarget args m]"
    using i(2) by (intro nth_equalityI) (auto simp: nth_mark nth_list_update)
  have m: "mark ?D (nodes ?L) ! i = m\<lparr>mutex := Some tid\<rparr>" "mark ?D (nodes c) ! i = m" "mutex m = None"
    using i free by (simp_all add: nth_mark m_def)
  have "c' = c\<lparr>nodes := (mark ?D (nodes ?L))[i := retarget args m]\<rparr> \<and> v = SBool True"
  proof (cases args)
    case Nil
    then show ?thesis
      using assms(3) i free inv m(1,3)
      by (simp add: touch_node_def node_of_def lock_node_def unlock_node_def retarget_def upd_node_def mutex_None_id)
  next
    case (Cons a as)
    note touch = assms(3) [unfolded touch_node_def Cons]
    show ?thesis
    proof (cases "ntype m")
      case TYPE_DATUM
      then show ?thesis
        using touch i free inv m(1,3) Cons
        by (simp add: node_of_def lock_node_def unlock_node_def retarget_def upd_node_def mutex_None_id)
    next
      case TYPE_FILE
      then show ?thesis
        using touch i free inv m(1,3) Cons
        by (cases "scm_to_cstring a")
          (simp_all add: node_of_def lock_node_def unlock_node_def retarget_def upd_node_def mutex_None_id scm_to_cstring_Inr)
    next
      case TYPE_CHAIN
      then show ?thesis
        using touch i free inv m(1,3) Cons
        by (simp add: node_of_def lock_node_def unlock_node_def retarget_def upd_node_def mutex_None_id)
    qed
  qed
  then show ?thesis
    using that [of i] i unlock m(2) by (simp add: upd_node_def)
qed

lemma touch_node_plain:
  assumes "wf_nodes (nodes c)" "at_rest c" "i < length (nodes c)"
  shows "touch_node tid (SSmob ''make-node'' i) [] c =
    Some (c\<lparr>nodes := mark (downstream (nodes c) i) (nodes c)\<rparr>, Ret (SBool True))"
proof -
  let ?L = "upd_node i (\<lambda>n. n\<lparr>mutex := Some tid\<rparr>) c" and ?D = "downstream (nodes c) i"
  have free: "mutex (nodes c ! i) = None" using assms(2,3) by (simp add: at_rest_def)
  have sd: "same_docs (nodes c) (nodes ?L)" by (simp add: same_docs_update same_doc_def)
  have "invalidate i ?L = Some (?L\<lparr>nodes := mark ?D (nodes ?L)\<rparr>, Ret ())"
    using invalidate_marks [of ?L i] assms(1,3) same_docs_wf [OF sd] same_docs_edges [OF sd]
    by (simp add: downstream_def)
  moreover have "unlock_node i (?L\<lparr>nodes := mark ?D (nodes ?L)\<rparr>) = c\<lparr>nodes := mark ?D (nodes c)\<rparr>"
  proof -
    have "(mark ?D (nodes ?L))[i := (mark ?D (nodes ?L) ! i)\<lparr>mutex := None\<rparr>] = mark ?D (nodes c)"
      using assms(3) free by (intro nth_equalityI) (auto simp: nth_mark nth_list_update mutex_None_id)
    then show ?thesis by (simp add: unlock_node_def upd_node_def)
  qed
  ultimately show ?thesis
    using assms(3) free by (simp add: touch_node_def node_of_def lock_node_def)
qed

lemma touch_ok:
  assumes "cache_ok fs body c" "touch_node tid d args c = Some (c', Ret v)"
  shows "cache_ok fs body c'"
proof -
  have c: "sound fs body c" "at_rest c" using assms(1) by (simp_all add: cache_ok_def)
  obtain i where i: "i < length (nodes c)"
    "c' = upd_node i (retarget args) (c\<lparr>nodes := mark (downstream (nodes c) i) (nodes c)\<rparr>)"
    using touch_node_Ret [OF _ c(2) assms(2)] c(1) unfolding sound_def by metis
  let ?m = "c\<lparr>nodes := mark (downstream (nodes c) i) (nodes c)\<rparr>"
  have len: "i < length (nodes ?m)" using i(1) by simp
  have "filepath (nodes c ! i) \<noteq> Freed" using c(1) i(1) by (simp add: sound_def readable_def)
  then have "sound fs body (?m\<lparr>nodes := (nodes ?m)[i := retarget args (nodes ?m ! i)]\<rparr>)"
    by (intro sound_replace [OF sound_mark [OF c(1)] len])
      (auto simp: retarget_def nth_mark i(1) split: list.splits node_type.splits scm.splits)
  moreover have "at_rest c'"
    using c(2) i by (auto simp: at_rest_def nth_mark nth_list_update retarget_def
        split: list.splits node_type.splits scm.splits)
  ultimately show ?thesis
    using assms(1) i(2) by (simp add: cache_ok_def upd_node_def)
qed


section \<open>Making\<close>

text \<open>The documents named in a list of ingredients.\<close>

fun docs_in :: "scm \<Rightarrow> nat set" where
  "docs_in (SCons (SSmob tag j) ds) = (if tag = ''make-node'' then {j} else {}) \<union> docs_in ds"
| "docs_in (SCons _ ds) = docs_in ds"
| "docs_in _ = {}"

text \<open>
  \<open>linked D i ns ns'\<close>: \<open>ns'\<close> is \<open>ns\<close> with the node \<open>i\<close> made an ascendant of every node of \<open>D\<close>.
\<close>

definition linked :: "nat set \<Rightarrow> nat \<Rightarrow> make_node list \<Rightarrow> make_node list \<Rightarrow> bool" where
  "linked D i ns ns' \<longleftrightarrow> length ns' = length ns \<and>
     (\<forall>j < length ns. (ns' ! j)\<lparr>ascendants := []\<rparr> = (ns ! j)\<lparr>ascendants := []\<rparr> \<and>
        set (ascendants (ns' ! j)) = set (ascendants (ns ! j)) \<union> (if j \<in> D then {i} else {}))"

lemma linked_refl: "linked {} i ns ns"
  by (simp add: linked_def)

lemma linked_trans: "linked D i ls ms \<Longrightarrow> linked E i ms ns \<Longrightarrow> linked (D \<union> E) i ls ns"
  by (auto simp: linked_def)

lemma add_ascendant_Ret:
  assumes "add_ascendant tid d self c = (c', Ret x)" "at_rest c"
  obtains j where "d = SSmob ''make-node'' j" "j < length (nodes c)"
    "linked {j} self (nodes c) (nodes c')" "file_nodes c' = file_nodes c"
proof -
  obtain j where j: "d = SSmob ''make-node'' j" "j < length (nodes c)"
    using assms(1) by (auto simp: add_ascendant_def bindC_def node_of_def split: scm.splits if_splits)
  have free: "mutex (nodes c ! j) = None" using assms(2) j by (simp add: at_rest_def)
  let ?as = "if self \<in> set (ascendants (nodes c ! j)) then ascendants (nodes c ! j)
             else self # ascendants (nodes c ! j)"
  have c': "c' = upd_node j (\<lambda>n. n\<lparr>ascendants := ?as\<rparr>) c"
    using assms(1) j free
    by (auto simp: add_ascendant_def bindC_def node_of_def lock_node_def unlock_node_def upd_node_def
        mutex_None_id split: if_splits)
  then have "linked {j} self (nodes c) (nodes c')"
    using j by (auto simp: linked_def nth_list_update)
  then show ?thesis using that [OF j] c' by simp
qed

lemma linked_at_rest: "linked D i (nodes c) (nodes c') \<Longrightarrow> at_rest c \<Longrightarrow> at_rest c'"
  unfolding linked_def at_rest_def
  by (metis (no_types, lifting) make_node.select_convs(4) make_node.surjective make_node.update_convs(3))

lemma add_ascendants_Ret:
  "\<lbrakk>add_ascendants tid ing self c = (c', Ret x); at_rest c\<rbrakk> \<Longrightarrow>
   linked (docs_in ing) self (nodes c) (nodes c') \<and> file_nodes c' = file_nodes c"
proof (induction tid ing self c arbitrary: c' x rule: add_ascendants.induct)
  case (2 tid d ds self c)
  then obtain c1 where c1: "add_ascendant tid d self c = (c1, Ret ())" "add_ascendants tid ds self c1 = (c', Ret x)"
    by (auto simp: bindC_def split: run.splits) (metis prod.collapse)
  obtain j where j: "d = SSmob ''make-node'' j" "linked {j} self (nodes c) (nodes c1)" "file_nodes c1 = file_nodes c"
    using add_ascendant_Ret [OF c1(1) "2.prems"(2)] by metis
  have "linked (docs_in ds) self (nodes c1) (nodes c') \<and> file_nodes c' = file_nodes c1"
    by (rule "2.IH" [OF c1(2) linked_at_rest [OF j(2) "2.prems"(2)]])
  then show ?case using linked_trans [OF j(2)] j by simp
qed (simp_all add: linked_refl)

text \<open>Documents that exist already keep their value when one is added and linked.\<close>

definition extends :: "make_node list \<Rightarrow> make_node list \<Rightarrow> bool" where
  "extends ms ns \<longleftrightarrow> length ms \<le> length ns \<and>
     (\<forall>j < length ms. (ns ! j)\<lparr>ascendants := []\<rparr> = (ms ! j)\<lparr>ascendants := []\<rparr>)"

lemma extends_fields:
  assumes "extends ms ns" "j < length ms"
  shows "callback (ns ! j) = callback (ms ! j)" "payload (ns ! j) = payload (ms ! j)"
    "mutex (ns ! j) = mutex (ms ! j)" "filepath (ns ! j) = filepath (ms ! j)"
    "ntype (ns ! j) = ntype (ms ! j)" "dirty (ns ! j) = dirty (ms ! j)" "j < length ns"
proof -
  have "(ns ! j)\<lparr>ascendants := []\<rparr> = (ms ! j)\<lparr>ascendants := []\<rparr>" "j < length ns"
    using assms by (simp_all add: extends_def)
  then show "callback (ns ! j) = callback (ms ! j)" "payload (ns ! j) = payload (ms ! j)"
    "mutex (ns ! j) = mutex (ms ! j)" "filepath (ns ! j) = filepath (ms ! j)"
    "ntype (ns ! j) = ntype (ms ! j)" "dirty (ns ! j) = dirty (ms ! j)" "j < length ns"
    by (cases "ns ! j"; cases "ms ! j"; simp)+
qed

lemma extends_val_aux:
  "val fs body ms j v \<Longrightarrow> extends ms ns \<Longrightarrow> val fs body ns j v"
  "pval fs body ms p v \<Longrightarrow> extends ms ns \<Longrightarrow> pval fs body ns p v"
proof (induction rule: val_pval.inducts)
  case (val_datum j)
  then show ?case using val_pval.val_datum [of j ns] extends_fields [OF val_datum.prems, of j] by simp
next
  case (val_file j r)
  then show ?case using val_pval.val_file [of j ns] extends_fields [OF val_file.prems, of j] by simp
next
  case (val_chain j v)
  then show ?case using val_pval.val_chain [of j ns] extends_fields [OF val_chain.prems, of j] by simp
qed (auto intro: val_pval.intros)


definition fresh_node :: "make_node \<Rightarrow> bool" where
  "fresh_node n \<longleftrightarrow> ascendants n = [] \<and> mutex n = None \<and> filepath n \<noteq> Freed \<and> (dirty n \<or> ntype n = TYPE_DATUM)"

lemma make_doc_Ret:
  assumes "make_doc tid ing r c = (c', Ret d)" "at_rest c"
  obtains n where "d = SSmob ''make-node'' (length (nodes c))" "fresh_node n"
    "linked (docs_in ing) (length (nodes c)) (nodes c @ [n]) (nodes c')"
    "set (file_nodes c') \<subseteq> insert \<lparr>fn_node = length (nodes c), mtime = 0\<rparr> (set (file_nodes c))"
proof (cases "\<exists>s. ing = SSym s")
  case True
  then obtain s where s: "ing = SSym s" by blast
  show ?thesis
  proof (cases "s = ''file''")
    case True
    with assms(1) s show ?thesis
      by (intro that [of "(new_node TYPE_FILE)\<lparr>filepath := Path (case scm_to_cstring r of Inr p \<Rightarrow> p), dirty := True\<rparr>"])
        (auto simp: make_doc_def new_smob_def linked_refl fresh_node_def new_node_def split: sum.splits)
  next
    case False
    with assms(1) s show ?thesis
      by (intro that [of "(new_node TYPE_DATUM)\<lparr>payload := r\<rparr>"])
        (auto simp: make_doc_def new_smob_def linked_refl fresh_node_def new_node_def)
  qed
next
  case False
  let ?n = "(new_node TYPE_CHAIN)\<lparr>callback := r, dirty := True\<rparr>"
  let ?c = "c\<lparr>nodes := nodes c @ [?n]\<rparr>" and ?i = "length (nodes c)"
  have "make_doc tid ing r c = bindC (add_ascendants tid ing ?i ?c) (\<lambda>c2 _. (c2, Ret (SSmob ''make-node'' ?i)))"
    using False by (cases ing) (simp_all add: make_doc_def new_smob_def)
  then have "add_ascendants tid ing ?i ?c = (c', Ret ()) \<and> d = SSmob ''make-node'' ?i"
    using assms(1) by (cases "add_ascendants tid ing ?i ?c") (auto simp: bindC_def split: run.splits)
  moreover have "at_rest ?c" using assms(2) by (auto simp: at_rest_def nth_append new_node_def)
  ultimately show ?thesis
    using add_ascendants_Ret [of tid ing ?i ?c c'] by (intro that [of ?n]) (auto simp: fresh_node_def new_node_def)
qed

lemma linked_edges:
  assumes "linked D i (ns @ [n]) ns'" "ascendants n = []" "D \<subseteq> {..<length ns}" "i = length ns"
  shows "edges ns' = edges ns \<union> D \<times> {i}"
proof -
  have asc: "set (ascendants (ns' ! j)) = (if j < length ns then set (ascendants (ns ! j)) else {}) \<union> (if j \<in> D then {i} else {})"
    if "j < Suc (length ns)" for j
    using assms(1,2) that by (auto simp: linked_def nth_append less_Suc_eq)
  have "length ns' = Suc (length ns)" using assms(1) by (simp add: linked_def)
  then have "(j, k) \<in> edges ns' \<longleftrightarrow> (j, k) \<in> edges ns \<union> D \<times> {i}" for j k
    using asc [of j] assms(3) by (cases "j < length ns") (auto simp: edges_def split: if_splits)
  then show ?thesis by auto
qed

lemma linked_extends: "linked D i (ns @ [n]) ns' \<Longrightarrow> extends ns ns'"
  by (auto simp: linked_def extends_def nth_append)

lemma linked_new:
  "linked D i (ns @ [n]) ns' \<Longrightarrow> (ns' ! length ns)\<lparr>ascendants := []\<rparr> = n\<lparr>ascendants := []\<rparr>"
  by (simp add: linked_def)

lemma linked_new_fields:
  assumes "linked D i (ns @ [n]) ns'"
  shows "mutex (ns' ! length ns) = mutex n" "filepath (ns' ! length ns) = filepath n"
    "ntype (ns' ! length ns) = ntype n" "dirty (ns' ! length ns) = dirty n"
  using linked_new [OF assms] by (cases "ns' ! length ns"; cases n; simp)+

lemma make_ok:
  assumes "cache_ok fs body c" "make_doc tid ing r c = (c', Ret d)"
    and "docs_in ing \<subseteq> {..<length (nodes c)}" "disciplined body (nodes c')"
  shows "cache_ok fs body c'"
proof -
  let ?i = "length (nodes c)"
  have c: "sound fs body c" "at_rest c" using assms(1) by (simp_all add: cache_ok_def)
  obtain n where n: "fresh_node n" "linked (docs_in ing) ?i (nodes c @ [n]) (nodes c')"
      "set (file_nodes c') \<subseteq> insert \<lparr>fn_node = ?i, mtime = 0\<rparr> (set (file_nodes c))"
    using make_doc_Ret [OF assms(2) c(2)] by metis
  have len: "length (nodes c') = Suc ?i" using n(2) by (simp add: linked_def)
  note old = extends_fields [OF linked_extends [OF n(2)]] and new = linked_new_fields [OF n(2)]
  have "edges (nodes c') = edges (nodes c) \<union> docs_in ing \<times> {?i}"
    using linked_edges [OF n(2)] n(1) assms(3) by (simp add: fresh_node_def)
  then have "wf_nodes (nodes c')"
    using c(1) assms(3) len by (auto simp: sound_def wf_nodes_edges)
  moreover have "readable fs (nodes c')"
    using c(1) n(1) old(4) new(2) len by (auto simp: sound_def readable_def fresh_node_def less_Suc_eq)
  moreover have "at_rest c'"
    using c(2) n(1) old(3) new(1) len by (auto simp: at_rest_def fresh_node_def less_Suc_eq)
  moreover have "coherent fs body (nodes c')"
    unfolding coherent_def
  proof (intro allI impI)
    fix j
    assume j: "j < length (nodes c')" "\<not> dirty (nodes c' ! j)" "mutex (nodes c' ! j) = None"
    show "val fs body (nodes c') j (payload (nodes c' ! j))"
    proof (cases "j < ?i")
      case True
      then have "val fs body (nodes c) j (payload (nodes c ! j))"
        using c(1) j(2,3) old(3,6) by (simp add: sound_def coherent_def)
      then show ?thesis using extends_val_aux(1) [OF _ linked_extends [OF n(2)]] old(2) [OF True] by simp
    next
      case False
      then have "j = ?i" using j(1) len by simp
      then have "ntype (nodes c' ! j) = TYPE_DATUM" using j(2) n(1) new(3,4) by (auto simp: fresh_node_def)
      then show ?thesis by (rule val_datum [OF j(1)])
    qed
  qed
  moreover have "\<forall>f \<in> set (file_nodes c'). fn_node f < length (nodes c')"
    using assms(1) n(3) len by (fastforce simp: cache_ok_def)
  ultimately show ?thesis using assms(4) by (simp add: cache_ok_def sound_def)
qed


section \<open>Policing\<close>

text \<open>A file node that the pass finds newer than the time it remembers.\<close>

definition stale :: "fsys \<Rightarrow> make_node list \<Rightarrow> file_node \<Rightarrow> bool" where
  "stale fs ns f \<longleftrightarrow> mtime f \<noteq> 0 \<and>
     (\<exists>p m. filepath (ns ! fn_node f) = Path p \<and> fs_stat fs p = Some m \<and> mtime f < m)"

definition seen :: "fsys \<Rightarrow> make_node list \<Rightarrow> file_node \<Rightarrow> file_node" where
  "seen fs ns f =
     (case filepath (ns ! fn_node f) of
        Path p \<Rightarrow> (case fs_stat fs p of
                     Some m \<Rightarrow> if mtime f = 0 \<or> mtime f < m then f\<lparr>mtime := m\<rparr> else f
                   | None \<Rightarrow> f)
      | _ \<Rightarrow> f)"

definition stale_set :: "fsys \<Rightarrow> make_node list \<Rightarrow> file_node list \<Rightarrow> nat set" where
  "stale_set fs ns fns = (\<Union>f \<in> {f \<in> set fns. stale fs ns f}. downstream ns (fn_node f))"

lemma mark_path [simp]: "j < length ns \<Longrightarrow> filepath (mark S ns ! j) = filepath (ns ! j)"
  by (simp add: nth_mark)

lemma stale_mark [simp]: "fn_node f < length ns \<Longrightarrow> stale fs (mark S ns) f = stale fs ns f"
  by (simp add: stale_def)

lemma seen_mark [simp]: "fn_node f < length ns \<Longrightarrow> seen fs (mark S ns) f = seen fs ns f"
  by (simp add: seen_def)

lemma stale_set_mark [simp]:
  "\<forall>f \<in> set fns. fn_node f < length ns \<Longrightarrow> stale_set fs (mark S ns) fns = stale_set fs ns fns"
  by (auto simp: stale_set_def)

lemma stale_set_Cons:
  "stale_set fs ns (f # fns) = (if stale fs ns f then downstream ns (fn_node f) else {}) \<union> stale_set fs ns fns"
  by (auto simp: stale_set_def)

lemma police_step:
  assumes "fn_node f < length (nodes c)" "wf_nodes (nodes c)" "filepath (nodes c ! fn_node f) \<noteq> Freed"
  shows "police_loop fs visited (f # rest) c =
    police_loop fs (visited @ [seen fs (nodes c) f]) rest
      (c\<lparr>nodes := mark (if stale fs (nodes c) f then downstream (nodes c) (fn_node f) else {}) (nodes c)\<rparr>)"
proof (cases "filepath (nodes c ! fn_node f)")
  case (Path p)
  then show ?thesis
    using invalidate_marks [OF assms(2,1)]
    by (cases "fs_stat fs p") (auto simp: stale_def seen_def)
qed (use assms(3) in \<open>auto simp: stale_def seen_def\<close>)

lemma police_loop_marks:
  "\<lbrakk>wf_nodes (nodes c); \<forall>f \<in> set fns. fn_node f < length (nodes c); \<forall>i < length (nodes c). filepath (nodes c ! i) \<noteq> Freed\<rbrakk> \<Longrightarrow>
   police_loop fs visited fns c =
     Some (c\<lparr>nodes := mark (stale_set fs (nodes c) fns) (nodes c), file_nodes := visited @ map (seen fs (nodes c)) fns\<rparr>, Ret ())"
proof (induction fns arbitrary: visited c)
  case Nil
  then show ?case by (simp add: stale_set_def)
next
  case (Cons f fns)
  let ?S = "if stale fs (nodes c) f then downstream (nodes c) (fn_node f) else {}"
  let ?c = "c\<lparr>nodes := mark ?S (nodes c)\<rparr>"
  have "police_loop fs visited (f # fns) c = police_loop fs (visited @ [seen fs (nodes c) f]) fns ?c"
    by (rule police_step) (use Cons.prems in auto)
  also have "\<dots> = Some (?c\<lparr>nodes := mark (stale_set fs (nodes ?c) fns) (nodes ?c),
      file_nodes := (visited @ [seen fs (nodes c) f]) @ map (seen fs (nodes ?c)) fns\<rparr>, Ret ())"
    by (rule Cons.IH) (use Cons.prems in \<open>auto simp del: police_loop.simps\<close>)
  also have "map (seen fs (nodes ?c)) fns = map (seen fs (nodes c)) fns"
    using Cons.prems(2) by simp
  also have "mark (stale_set fs (nodes ?c) fns) (nodes ?c) = mark (stale_set fs (nodes c) (f # fns)) (nodes c)"
    using Cons.prems(2) by (simp add: mark_mark stale_set_Cons Un_commute)
  finally show ?case by simp
qed

section \<open>Histories of a cache\<close>

text \<open>
  The caches that the operations reach from the empty one, when every recipe keeps to its
  ingredients and no operation raises or blocks.
\<close>

inductive cache_run :: "fsys \<Rightarrow> bodies \<Rightarrow> cache \<Rightarrow> bool" for fs body where
  run_empty: "cache_run fs body empty_cache"
| run_make: "\<lbrakk>cache_run fs body c; docs_in ing \<subseteq> {..<length (nodes c)};
     make_doc tid ing r c = (c', Ret d); disciplined body (nodes c')\<rbrakk> \<Longrightarrow> cache_run fs body c'"
| run_touch: "\<lbrakk>cache_run fs body c; touch_node tid d args c = Some (c', Ret v)\<rbrakk> \<Longrightarrow> cache_run fs body c'"
| run_fetch: "\<lbrakk>cache_run fs body c; fetch_node (call_depth n body fs tid) fs tid d [] c = (c', Ret v);
     d = SSmob ''make-node'' i; i < n\<rbrakk> \<Longrightarrow> cache_run fs body c'"
| run_police: "\<lbrakk>cache_run fs body c; police_cache fs c = Some (c', Ret x)\<rbrakk> \<Longrightarrow> cache_run fs body c'"

lemma fetch_at_rest:
  assumes "cache_ok fs body c" "i < length (nodes c)" "i < n"
  shows "\<exists>c' v. fetch_node (call_depth n body fs tid) fs tid (SSmob ''make-node'' i) [] c = (c', Ret v) \<and>
    val fs body (nodes c) i v \<and> keeps c c' \<and> cache_ok fs body c'"
proof -
  have c: "sound fs body c" "\<forall>j \<le> i. mutex (nodes c ! j) = None" "at_rest c"
    using assms(1,2) by (auto simp: cache_ok_def at_rest_def)
  obtain c' v where c': "fetch_node (call_depth n body fs tid) fs tid (SSmob ''make-node'' i) [] c = (c', Ret v)"
      "val fs body (nodes c) i v" "keeps c c'" "sound fs body c'"
    using fetch_okD [OF fetch_node_ok [OF assms(3)] c(1) assms(2) c(2)] by blast
  have "at_rest c'"
    using c(3) keeps_mutex [OF c'(3)] keeps_length [OF c'(3)] by (simp add: at_rest_def)
  then have "cache_ok fs body c'"
    using assms(1) c'(3,4) keeps_length [OF c'(3)] by (simp add: cache_ok_def keeps_def)
  then show ?thesis using c' by blast
qed

lemma cache_run_ok:
  assumes "cache_run fs body c" "\<And>p. fs_read fs p \<noteq> ReadFails"
  shows "cache_ok fs body c"
  using assms(1)
proof induction
  case run_empty
  then show ?case
    using assms(2)
    by (simp add: cache_ok_def sound_def empty_cache_def wf_nodes_def disciplined_def readable_def coherent_def at_rest_def)
next
  case (run_make c ing tid r c' d)
  then show ?case by (blast intro: make_ok)
next
  case (run_touch c tid d args c' v)
  then show ?case by (blast intro: touch_ok)
next
  case (run_fetch c n tid d c' v i)
  have "i < length (nodes c)"
    using run_fetch.hyps by (cases "i < length (nodes c)") (auto simp: fetch_node_def bindC_def node_of_def)
  then show ?case using fetch_at_rest [OF run_fetch.IH _ run_fetch.hyps(4), of tid] run_fetch.hyps(2,3) by auto
next
  case (run_police c c' x)
  then have ok: "sound fs body c" "at_rest c" "\<forall>f \<in> set (file_nodes c). fn_node f < length (nodes c)"
    by (simp_all add: cache_ok_def)
  let ?m = "c\<lparr>nodes := mark (stale_set fs (nodes c) (file_nodes c)) (nodes c)\<rparr>"
  have "c' = ?m\<lparr>file_nodes := map (seen fs (nodes c)) (file_nodes c)\<rparr>"
    using run_police.hyps(2) ok police_loop_marks [of c "file_nodes c" fs "[]"]
    by (simp add: police_cache_def sound_def readable_def)
  moreover have "fn_node (seen fs (nodes c) f) = fn_node f" for f
    by (simp add: seen_def split: fpath.splits option.splits)
  ultimately show ?case
    using sound_mark [OF ok(1)] ok(2,3) by (auto simp: cache_ok_def sound_def at_rest_def nth_mark)
qed


text \<open>A change of the file system is invisible to a document that uses none of the changed files.\<close>

lemma val_other_files_aux:
  assumes "disciplined body ns" "\<And>j k. j \<in> S \<Longrightarrow> (j, k) \<in> edges ns \<Longrightarrow> k \<in> S"
    and "\<And>j. \<lbrakk>j < length ns; ntype (ns ! j) = TYPE_FILE; j \<notin> S\<rbrakk> \<Longrightarrow>
           load_from_file fs' (filepath (ns ! j)) = load_from_file fs (filepath (ns ! j))"
  shows "val fs body ns j v \<Longrightarrow> j \<notin> S \<Longrightarrow> val fs' body ns j v"
    and "pval fs body ns p v \<Longrightarrow> fetches_only (\<lambda>k. k \<notin> S) p \<Longrightarrow> pval fs' body ns p v"
proof (induction rule: val_pval.inducts)
  case (val_file j r)
  then show ?case using val_pval.val_file [of j ns fs' r] assms(3) by simp
next
  case (val_chain j v)
  have "fetches_only (\<lambda>k. (k, j) \<in> edges ns) (body (callback (ns ! j)) [])"
    using val_chain assms(1) by (simp add: disciplined_def)
  then have "fetches_only (\<lambda>k. k \<notin> S) (body (callback (ns ! j)) [])"
    by (rule fetches_only_mono) (use val_chain.prems assms(2) in blast)
  then show ?case using val_pval.val_chain [of j ns] val_chain by simp
qed (auto intro: val_pval.intros)

lemma police_coherent:
  assumes "coherent fs body ns" "disciplined body ns"
    and "\<And>j. \<lbrakk>j < length ns; ntype (ns ! j) = TYPE_FILE; j \<notin> stale_set fs' ns fns\<rbrakk> \<Longrightarrow>
           load_from_file fs' (filepath (ns ! j)) = load_from_file fs (filepath (ns ! j))"
  shows "coherent fs' body (mark (stale_set fs' ns fns) ns)"
  unfolding coherent_def
proof (intro allI impI)
  let ?S = "stale_set fs' ns fns"
  fix j
  assume j: "j < length (mark ?S ns)" "\<not> dirty (mark ?S ns ! j)" "mutex (mark ?S ns ! j) = None"
  then have nS: "j \<notin> ?S" and m: "mark ?S ns ! j = ns ! j" by (auto simp: nth_mark split: if_splits)
  have "val fs body ns j (payload (ns ! j))"
    using assms(1) j m by (simp add: coherent_def)
  moreover have "l \<in> ?S" if "k \<in> ?S" "(k, l) \<in> edges ns" for k l
    using that by (auto simp: stale_set_def intro: edges_downstream)
  ultimately have "val fs' body ns j (payload (ns ! j))"
    using val_other_files_aux(1) [OF assms(2), of ?S fs' fs] assms(3) nS by blast
  then show "val fs' body (mark ?S ns) j (payload (mark ?S ns ! j))"
    using same_docs_val [OF same_docs_mark] m by simp
qed

section \<open>A small cache\<close>

text \<open>A file, and a document made from it by a recipe that puts its content in a list.\<close>

definition demo_fs :: fsys where
  "demo_fs = \<lparr>fs_stat = (\<lambda>p. Some 5), fs_read = (\<lambda>p. Content ''old'')\<rparr>"

definition demo_fs' :: fsys where
  "demo_fs' = \<lparr>fs_stat = (\<lambda>p. Some 6), fs_read = (\<lambda>p. Content ''new'')\<rparr>"

definition demo_body :: bodies where
  "demo_body cb args = (if cb = SProc 0 then Fetch (SSmob ''make-node'' 0) (\<lambda>x. Return (SCons x SEol)) else Raise misc_error)"

definition demo_cache :: cache where
  "demo_cache =
     \<lparr>nodes =
        [\<lparr>callback = SBool False, payload = SBool False, ascendants = [1], mutex = None, filepath = Path ''/a'',
          ntype = TYPE_FILE, dirty = True\<rparr>,
         \<lparr>callback = SProc 0, payload = SBool False, ascendants = [], mutex = None, filepath = NoPath,
          ntype = TYPE_CHAIN, dirty = True\<rparr>],
      file_nodes = [\<lparr>fn_node = 0, mtime = 5\<rparr>]\<rparr>"

lemma demo_edges: "edges (nodes demo_cache) = {(0, 1)}"
  by (auto simp: edges_def demo_cache_def nth_Cons split: nat.splits)

lemma demo_disciplined: "disciplined demo_body (nodes demo_cache)"
  unfolding disciplined_def demo_edges
  by (auto simp: demo_cache_def demo_body_def nth_Cons split: nat.splits)

lemma demo_run: "cache_run demo_fs demo_body demo_cache"
proof -
  let ?f = "\<lparr>callback = SBool False, payload = SBool False, ascendants = [], mutex = None, filepath = Path ''/a'',
          ntype = TYPE_FILE, dirty = True\<rparr>"
  let ?c1 = "\<lparr>nodes = [?f], file_nodes = [\<lparr>fn_node = 0, mtime = 0\<rparr>]\<rparr>"
  let ?c2 = "demo_cache\<lparr>file_nodes := [\<lparr>fn_node = 0, mtime = 0\<rparr>]\<rparr>"
  have 1: "cache_run demo_fs demo_body ?c1"
    by (rule run_make [OF run_empty, of "SSym ''file''" 0 "SStr ''/a''" _ "SSmob ''make-node'' 0"])
      (simp_all add: make_doc_def empty_cache_def new_smob_def new_node_def disciplined_def)
  have 2: "make_doc 0 (SCons (SSmob ''make-node'' 0) SEol) (SProc 0) ?c1 = (?c2, Ret (SSmob ''make-node'' 1))"
    by (simp add: make_doc_def new_smob_def new_node_def add_ascendant_def bindC_def node_of_def
        lock_node_def unlock_node_def upd_node_def demo_cache_def)
  have 3: "cache_run demo_fs demo_body ?c2"
    by (rule run_make [OF 1 _ 2]) (use demo_disciplined in simp_all)
  have "police_cache demo_fs ?c2 = Some (demo_cache, Ret ())"
    by (simp add: police_cache_def demo_cache_def demo_fs_def)
  then show ?thesis by (rule run_police [OF 3])
qed

text \<open>A file node that was collected is still in the list of file nodes: the next pass reads its freed path.\<close>

text \<open>
  What the collector keeps from a root on: the documents found in the values that the nodes report.
  Touching a document only reaches documents that are kept with it, so that \<open>invalidate\<close> follows no
  pointer to a collected node. The list of file nodes is not among the roots.
\<close>

fun nodes_in :: "scm \<Rightarrow> nat set" where
  "nodes_in (SSmob tag i) = (if tag = ''make-node'' then {i} else {})"
| "nodes_in (SCons a d) = nodes_in a \<union> nodes_in d"
| "nodes_in _ = {}"

inductive kept :: "make_node list \<Rightarrow> nat \<Rightarrow> nat \<Rightarrow> bool" for ns :: "make_node list" and i :: nat where
  root_kept: "kept ns i i"
| marked_kept: "kept ns i j \<Longrightarrow> j < length ns \<Longrightarrow> v \<in> set (mark_node j (ns ! j)) \<Longrightarrow> k \<in> nodes_in v \<Longrightarrow> kept ns i k"

lemma nodes_in_list: "nodes_in (scm_of_list (map (SSmob ''make-node'') xs)) = set xs"
  by (induction xs) auto

lemma downstream_kept: "j \<in> downstream ns i \<Longrightarrow> kept ns i j"
proof -
  assume "j \<in> downstream ns i"
  then have "(i, j) \<in> (edges ns)\<^sup>*" by (simp add: downstream_def)
  then show ?thesis
  proof (induction rule: rtrancl_induct)
    case (step j k)
    let ?v = "scm_of_list (map (SSmob ''make-node'') (ascendants (ns ! j)))"
    have j: "j < length ns" and k: "k \<in> nodes_in ?v" using step.hyps(2) by (simp_all add: edges_def nodes_in_list)
    have "?v \<in> set (mark_node j (ns ! j))" by (simp add: mark_node_def)
    then show ?case by (rule marked_kept [OF step.IH j _ k])
  qed (rule root_kept)
qed

lemma touched_only_kept:
  assumes "wf_nodes (nodes c)" "at_rest c" "i < length (nodes c)"
    and "touch_node tid (SSmob ''make-node'' i) [] c = Some (c', r)" "nodes c' ! j \<noteq> nodes c ! j" "j < length (nodes c)"
  shows "kept (nodes c) i j"
proof -
  have "nodes c' = mark (downstream (nodes c) i) (nodes c)"
    using touch_node_plain [OF assms(1-3), of tid] assms(4) by auto
  then have "j \<in> downstream (nodes c) i" using assms(5,6) by (auto simp: mark_def split: if_splits)
  then show ?thesis by (rule downstream_kept)
qed

lemma collected_node_policed:
  assumes "file_nodes c = f # rest" "fn_node f < length (nodes c)" "filepath (nodes c ! fn_node f) = Path p"
  shows "\<exists>c'. free_node (fn_node f) c = Inr c' \<and> police_cache fs c' = Some (c', Exc BadAccess)"
  using assms by (simp add: free_node_def police_cache_def upd_node_def)

section \<open>Properties\<close>

text \<open>
  C9: On every cache that the operations reach, with recipes that keep to their ingredients, a
  script that fetches any documents in any order ends, with recipes nested no deeper than there
  are documents, and gets for each the value it would have without a cache; the documents and all
  mutexes are left as they were.
\<close>

theorem fetch_returns_current:
  assumes "cache_run fs body c" "\<And>p. fs_read fs p \<noteq> ReadFails" "fetches_only (\<lambda>j. j < length (nodes c)) script"
  shows "\<exists>c' v. run_prog (\<lambda>d. fetch_node (call_depth (length (nodes c)) body fs tid) fs tid d []) script c = (c', Ret v) \<and>
    pval fs body (nodes c) script v \<and> keeps c c' \<and> at_rest c'"
proof -
  have ok: "sound fs body c" "at_rest c" using cache_run_ok [OF assms(1,2)] by (simp_all add: cache_ok_def)
  have "at_rest c'" if "keeps c c'" for c'
    using ok(2) keeps_mutex [OF that] keeps_length [OF that] by (simp add: at_rest_def)
  then show ?thesis using script_reads_current [OF ok assms(3), of tid] by blast
qed

theorem fetch_returns_current_witness:
  "cache_run demo_fs demo_body demo_cache \<and>
   (\<exists>c' v. run_prog (\<lambda>d. fetch_node (call_depth (length (nodes demo_cache)) demo_body demo_fs 0) demo_fs 0 d [])
        (Fetch (SSmob ''make-node'' 1) (\<lambda>x. Fetch (SSmob ''make-node'' 0) (\<lambda>y. Return (SCons x y)))) demo_cache = (c', Ret v) \<and>
     pval demo_fs demo_body (nodes demo_cache)
        (Fetch (SSmob ''make-node'' 1) (\<lambda>x. Fetch (SSmob ''make-node'' 0) (\<lambda>y. Return (SCons x y)))) v)"
proof -
  have "fetches_only (\<lambda>j. j < length (nodes demo_cache))
      (Fetch (SSmob ''make-node'' 1) (\<lambda>x. Fetch (SSmob ''make-node'' 0) (\<lambda>y. Return (SCons x y))))"
    by (simp add: demo_cache_def)
  moreover have "\<And>p. fs_read demo_fs p \<noteq> ReadFails" by (simp add: demo_fs_def)
  ultimately show ?thesis using fetch_returns_current [OF demo_run] demo_run by blast
qed

text \<open>
  C11: Touching a document ends on every reachable cache, though \<open>invalidate\<close> recurs over the graph:
  it marks the document and everything made from it, directly or not, and changes nothing else.
\<close>

theorem touch_marks_dependents:
  assumes "cache_run fs body c" "\<And>p. fs_read fs p \<noteq> ReadFails" "i < length (nodes c)"
  shows "touch_node tid (SSmob ''make-node'' i) [] c =
    Some (c\<lparr>nodes := mark (downstream (nodes c) i) (nodes c)\<rparr>, Ret (SBool True))"
proof -
  have ok: "wf_nodes (nodes c)" "at_rest c"
    using cache_run_ok [OF assms(1,2)] by (simp_all add: cache_ok_def sound_def)
  show ?thesis by (rule touch_node_plain [OF ok assms(3)])
qed

theorem touch_marks_dependents_witness:
  "cache_run demo_fs demo_body demo_cache \<and>
   touch_node 0 (SSmob ''make-node'' 0) [] demo_cache =
     Some (demo_cache\<lparr>nodes := mark (downstream (nodes demo_cache) 0) (nodes demo_cache)\<rparr>, Ret (SBool True))"
  using touch_marks_dependents [OF demo_run, of 0 0] demo_run
  by (simp add: demo_fs_def demo_cache_def)

text \<open>
  C10: A pass of \<open>police_cache\<close> over a file system \<open>fs'\<close> in which the changed files are newer than the
  times remembered marks exactly the documents made from them, and makes the cache coherent with
  the new contents: what is not marked is still current.
\<close>

theorem police_restores_coherence:
  assumes "cache_run fs body c" "\<And>p. fs_read fs p \<noteq> ReadFails" "\<And>p. fs_read fs' p \<noteq> ReadFails"
    and "\<And>j. \<lbrakk>j < length (nodes c); ntype (nodes c ! j) = TYPE_FILE;
            \<not> (\<exists>f \<in> set (file_nodes c). fn_node f = j \<and> stale fs' (nodes c) f)\<rbrakk> \<Longrightarrow>
           load_from_file fs' (filepath (nodes c ! j)) = load_from_file fs (filepath (nodes c ! j))"
  shows "\<exists>c'. police_cache fs' c = Some (c', Ret ()) \<and>
    nodes c' = mark (stale_set fs' (nodes c) (file_nodes c)) (nodes c) \<and>
    file_nodes c' = map (seen fs' (nodes c)) (file_nodes c) \<and> coherent fs' body (nodes c')"
proof -
  let ?S = "stale_set fs' (nodes c) (file_nodes c)"
  have ok: "sound fs body c" "\<forall>f \<in> set (file_nodes c). fn_node f < length (nodes c)"
    using cache_run_ok [OF assms(1,2)] by (simp_all add: cache_ok_def)
  have "coherent fs' body (mark ?S (nodes c))"
  proof (rule police_coherent [of fs])
    fix j
    assume j: "j < length (nodes c)" "ntype (nodes c ! j) = TYPE_FILE" "j \<notin> ?S"
    show "load_from_file fs' (filepath (nodes c ! j)) = load_from_file fs (filepath (nodes c ! j))"
      by (rule assms(4) [OF j(1,2)]) (use j(3) in \<open>auto simp: stale_set_def\<close>)
  qed (use ok(1) in \<open>simp_all add: sound_def\<close>)
  then show ?thesis
    using police_loop_marks [of c "file_nodes c" fs' "[]"] ok
    by (simp add: police_cache_def sound_def readable_def)
qed

theorem police_restores_coherence_witness:
  "\<exists>c'. police_cache demo_fs' demo_cache = Some (c', Ret ()) \<and> coherent demo_fs' demo_body (nodes c')"
proof -
  have "\<exists>f \<in> set (file_nodes demo_cache). fn_node f = j \<and> stale demo_fs' (nodes demo_cache) f"
    if "j < length (nodes demo_cache)" "ntype (nodes demo_cache ! j) = TYPE_FILE" for j
    using that by (cases j) (auto simp: demo_cache_def stale_def demo_fs'_def)
  then show ?thesis
    using police_restores_coherence [OF demo_run, of demo_fs'] by (fastforce simp: demo_fs_def demo_fs'_def)
qed

text \<open>
  C39: A recipe that raises leaves its document marked clean and locked: the thread that ran it gets
  an error from then on, every other thread waits for ever, and nobody sees the document dirty.
\<close>

theorem failed_recipe_wedges_document:
  assumes "i < length (nodes c)" "mutex (nodes c ! i) = None" "dirty (nodes c ! i)"
    and "ntype (nodes c ! i) = TYPE_CHAIN" "body (callback (nodes c ! i)) args = Raise e" "tid' \<noteq> tid"
  shows "\<exists>c'. fetch_node (call_depth (Suc n) body fs tid) fs tid (SSmob ''make-node'' i) args c = (c', Exc e) \<and>
    touched_node (SSmob ''make-node'' i) c' = (c', Ret (SBool False)) \<and>
    fetch_node (call_depth (Suc n) body fs tid) fs tid (SSmob ''make-node'' i) args c' = (c', Exc misc_error) \<and>
    fetch_node (call_depth (Suc n) body fs tid') fs tid' (SSmob ''make-node'' i) args c' = (c', Blocks) \<and>
    touch_node tid' (SSmob ''make-node'' i) [] c' = Some (c', Blocks)"
proof -
  have "regenerate (call_depth (Suc n) body fs tid) fs i args (begun tid i c) = (begun tid i c, Exc e)"
    using assms by (simp add: regenerate_def begun_def)
  then have f: "fetch_node (call_depth (Suc n) body fs tid) fs tid (SSmob ''make-node'' i) args c = (begun tid i c, Exc e)"
    using fetch_dirty [OF assms(1-3)] by (simp add: bindC_def)
  have b: "i < length (nodes (begun tid i c))" "mutex (nodes (begun tid i c) ! i) = Some tid"
      "\<not> dirty (nodes (begun tid i c) ! i)"
    using assms(1) by (simp_all add: begun_def)
  show ?thesis
    using f b assms(6)
    by (intro exI [of _ "begun tid i c"])
      (simp add: fetch_node_def touch_node_def touched_node_def node_of_def lock_node_def bindC_def)
qed

theorem failed_recipe_wedges_document_witness:
  "\<exists>c'. fetch_node (call_depth 1 (\<lambda>_ _. Raise misc_error) demo_fs 0) demo_fs 0 (SSmob ''make-node'' 1) [] demo_cache =
       (c', Exc misc_error) \<and>
     fetch_node (call_depth 1 (\<lambda>_ _. Raise misc_error) demo_fs 1) demo_fs 1 (SSmob ''make-node'' 1) [] c' = (c', Blocks)"
proof -
  have "\<exists>c'. fetch_node (call_depth (Suc 0) (\<lambda>_ _. Raise misc_error) demo_fs 0) demo_fs 0 (SSmob ''make-node'' 1) [] demo_cache =
       (c', Exc misc_error) \<and>
     touched_node (SSmob ''make-node'' 1) c' = (c', Ret (SBool False)) \<and>
     fetch_node (call_depth (Suc 0) (\<lambda>_ _. Raise misc_error) demo_fs 0) demo_fs 0 (SSmob ''make-node'' 1) [] c' = (c', Exc misc_error) \<and>
     fetch_node (call_depth (Suc 0) (\<lambda>_ _. Raise misc_error) demo_fs 1) demo_fs 1 (SSmob ''make-node'' 1) [] c' = (c', Blocks) \<and>
     touch_node 1 (SSmob ''make-node'' 1) [] c' = Some (c', Blocks)"
    by (rule failed_recipe_wedges_document) (simp_all add: demo_cache_def)
  then show ?thesis by auto
qed

end
