(* ===== verification/Butter.thy ===== *)
theory Butter
  imports Query
begin

text \<open>
  Conversions (\<open>butter.c\<close>). \<open>num_s\<close> is Guile's printing of a double, \<open>atof\<close> and \<open>dbl\<close> the conversions of
  a string and of an exact integer to a double, \<open>hash\<close> the SHA-256 of libgcrypt. A conversion
  of a double to \<open>int\<close> whose value does not fit is undefined in C: the model returns \<open>None\<close>.
\<close>

section \<open>Conversions\<close>

definition to_s :: "(real64 \<Rightarrow> string) \<Rightarrow> scm \<Rightarrow> scm" where
  "to_s num_s obj =
     (case obj of
        SStr s \<Rightarrow> obj
      | SInt n \<Rightarrow> SStr (dec n)
      | SReal r \<Rightarrow> SStr (num_s r)
      | SSym s \<Rightarrow> SStr s
      | SEol \<Rightarrow> SStr []
      | SBool b \<Rightarrow> SStr (if b then ''true'' else ''false'')
      | _ \<Rightarrow> obj)"

definition trunc :: "rat \<Rightarrow> int" where
  "trunc q = (if q < 0 then \<lceil>q\<rceil> else \<lfloor>q\<rfloor>)"

definition cast_int :: "rat \<Rightarrow> int option" where
  "cast_int q = (let i = trunc q in if - (2 ^ 31) \<le> i \<and> i < 2 ^ 31 then Some i else None)"

text \<open>
  \<open>to_i\<close>: \<open>scm_is_real\<close> holds of exact integers too, so they pass through a double; one that fits
  an \<open>int\<close> is exact there, and one that does not is out of range after rounding as well.
\<close>

definition to_i :: "scm \<Rightarrow> scm option res" where
  "to_i obj =
     (case obj of
        SStr s \<Rightarrow> bindR (scm_to_cstring obj) (\<lambda>buf. Inr (Some (SInt (atoi buf))))
      | SReal r \<Rightarrow> Inr (case r of Fin q \<Rightarrow> map_option SInt (cast_int q) | _ \<Rightarrow> None)
      | SInt n \<Rightarrow> Inr (map_option SInt (cast_int (of_int n)))
      | SBool b \<Rightarrow> Inr (Some (SInt (if b then 1 else 0)))
      | _ \<Rightarrow> Inr (Some (SInt 0)))"

definition to_f :: "(string \<Rightarrow> real64) \<Rightarrow> (int \<Rightarrow> real64) \<Rightarrow> scm \<Rightarrow> scm res" where
  "to_f atof dbl obj =
     (case obj of
        SStr s \<Rightarrow> bindR (scm_to_cstring obj) (\<lambda>buf. Inr (SReal (atof buf)))
      | SReal r \<Rightarrow> Inr (SReal r)
      | SInt n \<Rightarrow> Inr (SReal (dbl n))
      | SBool b \<Rightarrow> Inr (SReal (Fin (if b then 1 else 0)))
      | _ \<Rightarrow> Inr (SReal (Fin 0)))"

section \<open>Joining\<close>

fun string_join :: "string \<Rightarrow> string list \<Rightarrow> string" where
  "string_join glue [] = []"
| "string_join glue [s] = s"
| "string_join glue (s # ss) = s @ glue @ string_join glue ss"

definition scm_string_join :: "string list \<Rightarrow> scm \<Rightarrow> string res" where
  "scm_string_join ss glue = (case glue of SStr g \<Rightarrow> Inr (string_join g ss) | _ \<Rightarrow> Inl wrong_type)"

text \<open>The pieces of a list of items, in order; a nested list is joined first and gives one piece.\<close>

fun cat_items :: "(real64 \<Rightarrow> string) \<Rightarrow> scm \<Rightarrow> scm \<Rightarrow> string list res" where
  "cat_items num_s glue SEol = Inr []"
| "cat_items num_s glue (SCons item node) =
     bindR (case item of
              SStr s \<Rightarrow> Inr [s]
            | SInt n \<Rightarrow> Inr [dec n]
            | SReal r \<Rightarrow> Inr [num_s r]
            | SSym s \<Rightarrow> Inr [s]
            | SEol \<Rightarrow> bindR (scm_string_join [] glue) (\<lambda>s. Inr [s])
            | SCons a d \<Rightarrow>
                if is_list d
                then bindR (cat_items num_s glue (SCons a d)) (\<lambda>l. bindR (scm_string_join l glue) (\<lambda>s. Inr [s]))
                else Inr []
            | _ \<Rightarrow> Inr []) (\<lambda>piece.
     bindR (cat_items num_s glue node) (\<lambda>rest. Inr (piece @ rest)))"
| "cat_items num_s glue _ = Inl BadAccess"

definition string_cat :: "(real64 \<Rightarrow> string) \<Rightarrow> scm \<Rightarrow> scm \<Rightarrow> scm res" where
  "string_cat num_s glue items =
     bindR (cat_items num_s glue items) (\<lambda>l. bindR (scm_string_join l glue) (\<lambda>s. Inr (SStr s)))"

section \<open>Digests\<close>

definition hex2 :: "char \<Rightarrow> string" where
  "hex2 c = [hex_table ! (of_char c div 16), hex_table ! (of_char c mod 16)]"

definition sha256_sum :: "(string \<Rightarrow> char list) \<Rightarrow> scm \<Rightarrow> scm res" where
  "sha256_sum hash src = bindR (scm_to_cstring src) (\<lambda>s. Inr (SStr (concat (map hex2 (hash s)))))"

section \<open>Lemmas\<close>

text \<open>The strings in a list, in order, with nested lists opened.\<close>

fun leaves :: "(real64 \<Rightarrow> string) \<Rightarrow> scm \<Rightarrow> string list" where
  "leaves num_s (SCons item node) =
     (case item of
        SStr s \<Rightarrow> [s]
      | SInt n \<Rightarrow> [dec n]
      | SReal r \<Rightarrow> [num_s r]
      | SSym s \<Rightarrow> [s]
      | SCons a d \<Rightarrow> if is_list d then leaves num_s (SCons a d) else []
      | _ \<Rightarrow> []) @ leaves num_s node"
| "leaves num_s _ = []"

text \<open>Every nested list contributes at least one string.\<close>

fun no_hollow_list :: "(real64 \<Rightarrow> string) \<Rightarrow> scm \<Rightarrow> bool" where
  "no_hollow_list num_s (SCons item node) =
     ((case item of
         SEol \<Rightarrow> False
       | SCons a d \<Rightarrow> is_list d \<longrightarrow> leaves num_s (SCons a d) \<noteq> [] \<and> no_hollow_list num_s (SCons a d)
       | _ \<Rightarrow> True) \<and> no_hollow_list num_s node)"
| "no_hollow_list num_s _ = True"

lemma string_join_Cons: "ss \<noteq> [] \<Longrightarrow> string_join g (s # ss) = s @ g @ string_join g ss"
  by (cases ss) auto

lemma string_join_append:
  "ss \<noteq> [] \<Longrightarrow> ts \<noteq> [] \<Longrightarrow> string_join g (ss @ ts) = string_join g ss @ g @ string_join g ts"
proof (induction ss)
  case (Cons s ss)
  then show ?case by (cases "ss = []") (auto simp: string_join_Cons)
qed simp

lemma string_join_group:
  "ss \<noteq> [] \<Longrightarrow> string_join g (string_join g ss # ts) = string_join g (ss @ ts)"
  by (cases ts) (auto simp: string_join_append string_join_Cons)


definition same_join :: "string \<Rightarrow> string list \<Rightarrow> string list \<Rightarrow> bool" where
  "same_join g ss ts \<longleftrightarrow> string_join g ss = string_join g ts \<and> (ss = [] \<longleftrightarrow> ts = [])"

lemma same_join_refl [simp]: "same_join g ss ss"
  by (simp add: same_join_def)

lemma same_join_append:
  "same_join g ss ss' \<Longrightarrow> same_join g ts ts' \<Longrightarrow> same_join g (ss @ ts) (ss' @ ts')"
  by (cases "ss = []"; cases "ts = []") (auto simp: same_join_def string_join_append)

lemma cat_items_leaves:
  "\<lbrakk>is_list items; no_hollow_list num_s items\<rbrakk> \<Longrightarrow>
   \<exists>l. cat_items num_s (SStr g) items = Inr l \<and> same_join g l (leaves num_s items)"
proof (induction items)
  case (SCons item node)
  obtain l where l: "cat_items num_s (SStr g) node = Inr l" "same_join g l (leaves num_s node)"
    using SCons.IH(2) SCons.prems by auto
  show ?case
  proof (cases item)
    case (SCons a d)
    show ?thesis
    proof (cases "is_list d")
      case True
      then obtain m where m: "cat_items num_s (SStr g) item = Inr m" "same_join g m (leaves num_s item)"
        using SCons.IH(1) SCons.prems \<open>item = SCons a d\<close> by auto
      have "leaves num_s item \<noteq> []" using SCons.prems True \<open>item = SCons a d\<close> by simp
      then have "same_join g [string_join g m] (leaves num_s item)" using m(2) by (auto simp: same_join_def)
      then have "same_join g ([string_join g m] @ l) (leaves num_s item @ leaves num_s node)"
        by (rule same_join_append [OF _ l(2)])
      then show ?thesis
        using l(1) m(1) True \<open>item = SCons a d\<close> by (simp add: scm_string_join_def)
    qed (use l SCons in simp)
  qed (use SCons.prems l same_join_append [OF same_join_refl l(2), of "[x]" for x] in \<open>auto\<close>)
qed auto

section \<open>Properties\<close>

text \<open>
  \<open>string-cat\<close> joins all the strings, symbols and numbers of its arguments, nested lists opened,
  as if the arguments were one flat list, provided that no nested list is without any.
\<close>

theorem string_cat_flattens:
  assumes "is_list items" "no_hollow_list num_s items"
  shows "string_cat num_s (SStr g) items = Inr (SStr (string_join g (leaves num_s items)))"
proof -
  obtain l where "cat_items num_s (SStr g) items = Inr l" "string_join g l = string_join g (leaves num_s items)"
    using cat_items_leaves [OF assms] by (auto simp: same_join_def)
  then show ?thesis by (simp add: string_cat_def scm_string_join_def)
qed

theorem string_cat_flattens_witness:
  "string_cat (\<lambda>_. []) (SStr '', '')
     (SCons (SStr ''a'') (SCons (SCons (SInt 12) (SCons (SSym ''b'') SEol)) (SCons (SBool True) SEol))) =
   Inr (SStr ''a, 12, b'')"
proof -
  let ?l = "SCons (SStr ''a'') (SCons (SCons (SInt 12) (SCons (SSym ''b'') SEol)) (SCons (SBool True) SEol))"
  have "dec 12 = ''12''" by code_simp
  then have "string_join '', '' (leaves (\<lambda>_. []) ?l) = ''a, 12, b''" by simp
  then show ?thesis using string_cat_flattens [of ?l "\<lambda>_. []" "'', ''"] by simp
qed

text \<open>
  The text of an integer converts back to it exactly when it fits 32 bits, and an exact integer
  that does not is no longer handed through: its conversion to \<open>int\<close> is undefined.
\<close>

theorem to_i_inverts_to_s:
  "(to_i (to_s num_s (SInt n)) = Inr (Some (SInt n)) \<longleftrightarrow> n \<in> {- (2 ^ 31) ..< 2 ^ 31}) \<and>
   to_i (SInt n) = Inr (if n \<in> {- (2 ^ 31) ..< 2 ^ 31} then Some (SInt n) else None)"
proof -
  have "atoi (dec n) = n \<longleftrightarrow> n \<in> {- (2 ^ 31) ..< 2 ^ 31}"
    using atoi_dec [of n] atoi_range [of "dec n"] by auto
  moreover have "trunc (of_int n) = n" by (simp add: trunc_def)
  ultimately show ?thesis by (simp add: to_i_def to_s_def cast_int_def NUL_dec)
qed

end
