(* ===== verification/Gtime.thy ===== *)
theory Gtime
  imports Butter
begin

text \<open>
  Time stamps (\<open>gtime.c\<close>). The C library's knowledge of time zones and calendars is the parameter
  \<open>clib\<close>: \<open>localtime_r\<close>, \<open>mktime\<close> (\<open>-1\<close> for a time it cannot represent) with the offset it stores,
  \<open>strftime\<close>, and \<open>curl_getdate\<close>. Double arithmetic is exact arithmetic on rationals followed by the
  rounding \<open>rnd\<close>. A Scheme argument that should be a time stamp is \<open>None\<close> when it is something else;
  the code checks with \<open>scm_assert_smob_type\<close>. A cast of a double to an integer type that it does
  not fit is undefined in C: \<open>Undefined\<close>.
\<close>

section \<open>State\<close>

record tm =
  tm_year :: int
  tm_mon :: int
  tm_mday :: int
  tm_hour :: int
  tm_min :: int
  tm_sec :: int
  tm_wday :: int
  tm_gmtoff :: int
  tm_zone :: string

record g_time =
  gt_tm :: tm
  usec :: int
  epoch :: int

record clib =
  localtime :: "int \<Rightarrow> tm"
  mktime :: "int \<times> int \<times> int \<times> int \<times> int \<times> int \<Rightarrow> int"
  mktime_off :: "int \<times> int \<times> int \<times> int \<times> int \<times> int \<Rightarrow> int"
  strftime :: "string \<Rightarrow> tm \<Rightarrow> string"
  getdate :: "string \<Rightarrow> int"
  rnd :: "rat \<Rightarrow> rat"

datatype stamp = Stamp g_time | NoStamp | Undefined

definition with_time :: "g_time option \<Rightarrow> (g_time \<Rightarrow> 'a) \<Rightarrow> 'a res" where
  "with_time t f = (case t of None \<Rightarrow> Inl wrong_type | Some g \<Rightarrow> Inr (f g))"

definition stamp_at :: "clib \<Rightarrow> int \<Rightarrow> int \<Rightarrow> stamp" where
  "stamp_at L ep us = Stamp \<lparr>gt_tm = localtime L ep, usec = us, epoch = ep\<rparr>"

section \<open>Making stamps\<close>

text \<open>\<open>(int)((x - whole) * 1000000 + 0.5)\<close>.\<close>

definition micros :: "clib \<Rightarrow> rat \<Rightarrow> int \<Rightarrow> int" where
  "micros L x whole = trunc (rnd L (rnd L (rnd L (x - of_int whole) * 1000000) + 1 / 2))"

definition local_time_intern :: "clib \<Rightarrow> int \<Rightarrow> int \<Rightarrow> int \<Rightarrow> int \<Rightarrow> int \<Rightarrow> rat \<Rightarrow> stamp" where
  "local_time_intern L year month day hour minute second =
     (case cast_int second of
        None \<Rightarrow> Undefined
      | Some s \<Rightarrow>
          let us = micros L second s;
              bump = (us \<ge> 1000000);
              us' = (if bump then us - 1000000 else us);
              ep = mktime L (year - 1900, month - 1, day, hour, minute, s)
          in if ep = -1 then NoStamp else stamp_at L (if bump then ep + 1 else ep) us')"

text \<open>\<open>scm_to_double\<close>: an exact integer is rounded.\<close>

definition scm_to_double :: "clib \<Rightarrow> scm \<Rightarrow> real64 res" where
  "scm_to_double L v =
     (case v of SReal r \<Rightarrow> Inr r | SInt n \<Rightarrow> Inr (Fin (rnd L (of_int n))) | _ \<Rightarrow> Inl wrong_type)"

definition on_finite :: "real64 \<Rightarrow> (rat \<Rightarrow> stamp) \<Rightarrow> stamp" where
  "on_finite r f = (case r of Fin q \<Rightarrow> f q | _ \<Rightarrow> Undefined)"

definition carry :: "clib \<Rightarrow> int \<Rightarrow> int \<Rightarrow> stamp" where
  "carry L ep us = (if us \<ge> 1000000 then stamp_at L (ep + 1) (us - 1000000) else stamp_at L ep us)"

text \<open>\<open>time_at\<close> casts the floor to a 32-bit \<open>int\<close>, \<open>time_add\<close> to a 64-bit \<open>time_t\<close>.\<close>

definition time_at :: "clib \<Rightarrow> scm \<Rightarrow> stamp res" where
  "time_at L ep =
     bindR (scm_to_double L ep) (\<lambda>dep. Inr (on_finite dep (\<lambda>x.
       case cast_int (of_int \<lfloor>x\<rfloor>) of None \<Rightarrow> Undefined | Some e \<Rightarrow> carry L e (micros L x e))))"

definition scm_int_arg :: "scm \<Rightarrow> int res" where
  "scm_int_arg v = (case v of SInt n \<Rightarrow> scm_to_int n | _ \<Rightarrow> Inl wrong_type)"

definition local_time :: "clib \<Rightarrow> scm \<Rightarrow> scm \<Rightarrow> scm \<Rightarrow> scm \<Rightarrow> scm \<Rightarrow> scm \<Rightarrow> stamp res" where
  "local_time L year month day hour minute second =
     bindR (scm_int_arg year) (\<lambda>y.
     bindR (scm_int_arg month) (\<lambda>mo.
     bindR (scm_int_arg day) (\<lambda>d.
     bindR (scm_int_arg hour) (\<lambda>h.
     bindR (scm_int_arg minute) (\<lambda>mi.
     bindR (scm_to_double L second) (\<lambda>s.
       Inr (on_finite s (local_time_intern L y mo d h mi))))))))"

definition now_time :: "clib \<Rightarrow> int \<times> int \<Rightarrow> stamp" where
  "now_time L tp = stamp_at L (fst tp) (snd tp)"

definition epoch_sec :: "clib \<Rightarrow> g_time \<Rightarrow> rat" where
  "epoch_sec L t = rnd L (rnd L (of_int (epoch t)) + rnd L (of_int (usec t) / 1000000))"

definition time_diff :: "clib \<Rightarrow> g_time option \<Rightarrow> g_time option \<Rightarrow> scm res" where
  "time_diff L t1 t2 =
     bindR (with_time t1 (epoch_sec L)) (\<lambda>a.
     bindR (with_time t2 (epoch_sec L)) (\<lambda>b. Inr (SReal (Fin (rnd L (a - b))))))"

definition time_add :: "clib \<Rightarrow> g_time option \<Rightarrow> scm \<Rightarrow> stamp res" where
  "time_add L t sec =
     bindR (with_time t (epoch_sec L)) (\<lambda>e.
     bindR (scm_to_double L sec) (\<lambda>s. Inr (on_finite s (\<lambda>q.
       let dtime = rnd L (e + q); ntime = \<lfloor>dtime\<rfloor> in
       if - (2 ^ 63) \<le> ntime \<and> ntime < 2 ^ 63 then carry L ntime (micros L dtime ntime) else Undefined))))"

section \<open>Reading stamps\<close>

definition format_time :: "clib \<Rightarrow> g_time option \<Rightarrow> scm \<Rightarrow> scm res" where
  "format_time L t fmt =
     bindR (with_time t (\<lambda>g. g)) (\<lambda>g.
     bindR (scm_to_cstring fmt) (\<lambda>f. Inr (SStr (strftime L f (gt_tm g)))))"

definition time_year :: "g_time option \<Rightarrow> scm res" where
  "time_year t = with_time t (\<lambda>g. SInt (tm_year (gt_tm g) + 1900))"

definition time_month :: "g_time option \<Rightarrow> scm res" where
  "time_month t = with_time t (\<lambda>g. SInt (tm_mon (gt_tm g) + 1))"

definition time_mday :: "g_time option \<Rightarrow> scm res" where
  "time_mday t = with_time t (\<lambda>g. SInt (tm_mday (gt_tm g)))"

definition time_wday :: "g_time option \<Rightarrow> scm res" where
  "time_wday t = with_time t (\<lambda>g. SInt (tm_wday (gt_tm g)))"

definition time_hour :: "g_time option \<Rightarrow> scm res" where
  "time_hour t = with_time t (\<lambda>g. SInt (tm_hour (gt_tm g)))"

definition time_min :: "g_time option \<Rightarrow> scm res" where
  "time_min t = with_time t (\<lambda>g. SInt (tm_min (gt_tm g)))"

definition time_sec :: "clib \<Rightarrow> g_time option \<Rightarrow> scm res" where
  "time_sec L t = with_time t (\<lambda>g.
     SReal (Fin (rnd L (of_int (tm_sec (gt_tm g)) + rnd L (of_int (usec g) / 1000000)))))"

definition time_epoch :: "clib \<Rightarrow> g_time option \<Rightarrow> scm res" where
  "time_epoch L t = with_time t (\<lambda>g. SReal (Fin (epoch_sec L g)))"

definition time_offset :: "g_time option \<Rightarrow> scm res" where
  "time_offset t = with_time t (\<lambda>g. SInt (tm_gmtoff (gt_tm g)))"

definition time_zone :: "g_time option \<Rightarrow> scm res" where
  "time_zone t = with_time t (\<lambda>g. SStr (tm_zone (gt_tm g)))"

text \<open>The seconds and nanoseconds \<open>snooze\<close> asks \<open>nanosleep\<close> for.\<close>

definition snooze_spec :: "clib \<Rightarrow> rat \<Rightarrow> int \<times> int" where
  "snooze_spec L naptime = (\<lfloor>naptime\<rfloor>, trunc (rnd L (rnd L (naptime - of_int \<lfloor>naptime\<rfloor>) * 1000000000)))"

section \<open>Decoding\<close>

text \<open>
  The regular expression of \<open>init_time\<close>: date, \<open>T\<close>, time, at least one character that is none of
  plus, backslash and minus, then one of those and two digits. In a bracket the backslash is an
  ordinary character. \<open>iso_at\<close> matches at the start and returns where the zone begins; \<open>iso_find\<close> is
  \<open>regexec\<close>: the leftmost match.
\<close>

definition zone_sign :: "char \<Rightarrow> bool" where
  "zone_sign c \<longleftrightarrow> c = CHR ''+'' \<or> c = CHR 0x5C \<or> c = CHR ''-''"

fun pattern_fits :: "string \<Rightarrow> string \<Rightarrow> bool" where
  "pattern_fits [] s = True"
| "pattern_fits (p # ps) (c # s) = ((if p = CHR ''9'' then isdigit c else c = p) \<and> pattern_fits ps s)"
| "pattern_fits (p # ps) [] = False"

definition iso_pattern :: string where
  "iso_pattern = ''9999-99-99T99:99:99''"

definition iso_at :: "string \<Rightarrow> nat option" where
  "iso_at s =
     (if pattern_fits iso_pattern s then
        let r = drop 19 s; mid = takeWhile (\<lambda>c. \<not> zone_sign c) r in
        if mid \<noteq> [] \<and> (case drop (length mid) r of c # d1 # d2 # _ \<Rightarrow> isdigit d1 \<and> isdigit d2 | _ \<Rightarrow> False)
        then Some (19 + length mid) else None
      else None)"

fun iso_find :: "string \<Rightarrow> (nat \<times> nat) option" where
  "iso_find [] = None"
| "iso_find (c # s) =
     (case iso_at (c # s) of
        Some z \<Rightarrow> Some (0, z)
      | None \<Rightarrow> map_option (\<lambda>(i, z). (Suc i, z)) (iso_find s))"

text \<open>Each number is cut out by a NUL after it; the year is read from the start of the string.\<close>

definition iso_fields :: "string \<Rightarrow> nat \<Rightarrow> int \<times> int \<times> int \<times> int \<times> int \<times> int" where
  "iso_fields str i =
     (atoi (take (i + 4) str) - 1900, atoi (take 2 (drop (i + 5) str)) - 1, atoi (take 2 (drop (i + 8) str)),
      atoi (take 2 (drop (i + 11) str)), atoi (take 2 (drop (i + 14) str)), atoi (take 2 (drop (i + 17) str)))"

definition time_decode :: "clib \<Rightarrow> scm \<Rightarrow> stamp res" where
  "time_decode L v =
     bindR (scm_to_cstring v) (\<lambda>str.
       Inr (stamp_at L
         (case iso_find str of
            Some (i, z) \<Rightarrow>
              let f = iso_fields str i; zone = atoi (drop (i + z) str)
              in mktime L f + (mktime_off L f - zone * 3600)
          | None \<Rightarrow> getdate L str) 0))"

section \<open>Lemmas on microseconds\<close>

text \<open>
  What is used of the rounding: it is monotone and leaves 0, 1, 1000000 and 1000000.5 alone.
  \<open>eps\<close> bounds its error on numbers up to 1000001.
\<close>

definition good_rnd :: "clib \<Rightarrow> bool" where
  "good_rnd L \<longleftrightarrow> mono (rnd L) \<and> rnd L 0 = 0 \<and> rnd L 1 = 1 \<and> rnd L 1000000 = 1000000 \<and>
     rnd L (1000000 + 1 / 2) = 1000000 + 1 / 2"

definition rnd_within :: "clib \<Rightarrow> rat \<Rightarrow> bool" where
  "rnd_within L eps \<longleftrightarrow> (\<forall>y. 0 \<le> y \<and> y \<le> 1000001 \<longrightarrow> \<bar>rnd L y - y\<bar> \<le> eps)"

definition wf_stamp :: "clib \<Rightarrow> g_time \<Rightarrow> bool" where
  "wf_stamp L g \<longleftrightarrow> 0 \<le> usec g \<and> usec g < 1000000 \<and> gt_tm g = localtime L (epoch g)"

lemma rnd_between:
  "\<lbrakk>mono (rnd L); rnd L a = a; rnd L b = b; a \<le> x; x \<le> b\<rbrakk> \<Longrightarrow> a \<le> rnd L x \<and> rnd L x \<le> b"
  by (metis monoD)

lemma scaled_range:
  assumes "good_rnd L" "0 \<le> x" "x \<le> 1"
  shows "0 \<le> rnd L x" "rnd L x \<le> 1" "0 \<le> rnd L (rnd L x * 1000000)" "rnd L (rnd L x * 1000000) \<le> 1000000"
    "0 \<le> rnd L (rnd L (rnd L x * 1000000) + 1 / 2)" "rnd L (rnd L (rnd L x * 1000000) + 1 / 2) \<le> 1000000 + 1 / 2"
proof -
  have m: "mono (rnd L)" "rnd L 0 = 0" "rnd L 1 = 1" "rnd L 1000000 = 1000000"
      "rnd L (1000000 + 1 / 2) = 1000000 + 1 / 2"
    using assms(1) by (simp_all add: good_rnd_def)
  show a: "0 \<le> rnd L x" "rnd L x \<le> 1" using rnd_between [OF m(1,2,3) assms(2,3)] by simp_all
  then have "0 \<le> rnd L x * 1000000" "rnd L x * 1000000 \<le> 1000000" by simp_all
  then show b: "0 \<le> rnd L (rnd L x * 1000000)" "rnd L (rnd L x * 1000000) \<le> 1000000"
    using rnd_between [OF m(1,2,4)] by blast+
  then have "0 \<le> rnd L (rnd L x * 1000000) + 1 / 2" "rnd L (rnd L x * 1000000) + 1 / 2 \<le> 1000000 + 1 / 2"
    by simp_all
  then show "0 \<le> rnd L (rnd L (rnd L x * 1000000) + 1 / 2)"
    "rnd L (rnd L (rnd L x * 1000000) + 1 / 2) \<le> 1000000 + 1 / 2"
    using rnd_between [OF m(1,2,5)] by blast+
qed

lemma micros_range:
  assumes "good_rnd L" "of_int e \<le> x" "x \<le> of_int e + 1"
  shows "0 \<le> micros L x e" "micros L x e \<le> 1000000"
proof -
  let ?z = "rnd L (rnd L (rnd L (x - of_int e) * 1000000) + 1 / 2)"
  have z: "0 \<le> ?z" "?z \<le> 1000000 + 1 / 2"
    using scaled_range(5,6) [OF assms(1), of "x - of_int e"] assms(2,3) by simp_all
  then have "\<lfloor>?z\<rfloor> \<le> \<lfloor>1000000 + 1 / 2 :: rat\<rfloor>" by (intro floor_mono)
  moreover have "\<lfloor>1000000 + 1 / 2 :: rat\<rfloor> = 1000000" by (simp add: floor_eq_iff)
  ultimately show "0 \<le> micros L x e" "micros L x e \<le> 1000000"
    using z by (simp_all add: micros_def trunc_def)
qed

lemma micros_close:
  assumes "good_rnd L" "rnd_within L eps" "of_int e \<le> x" "x \<le> of_int e + 1"
  shows "\<bar>of_int (micros L x e) - (x - of_int e) * 1000000\<bar> \<le> 1 / 2 + 1000002 * eps"
proof -
  define y where "y = x - of_int e"
  define a where "a = rnd L y"
  define b where "b = rnd L (a * 1000000)"
  define z where "z = rnd L (b + 1 / 2)"
  have y: "0 \<le> y" "y \<le> 1" using assms(3,4) by (simp_all add: y_def)
  note r = scaled_range [OF assms(1) y, folded a_def, folded b_def, folded z_def]
  have "\<bar>a - y\<bar> \<le> eps" using assms(2) y unfolding rnd_within_def a_def by (metis order_trans one_le_numeral)
  moreover have "\<bar>b - a * 1000000\<bar> \<le> eps"
    using assms(2) r(1,2) unfolding rnd_within_def b_def by simp
  moreover have "\<bar>z - (b + 1 / 2)\<bar> \<le> eps"
    using assms(2) r(3,4) unfolding rnd_within_def z_def by simp
  moreover have "of_int \<lfloor>z\<rfloor> \<le> z" "z < of_int \<lfloor>z\<rfloor> + 1" by linarith+
  ultimately have "\<bar>of_int \<lfloor>z\<rfloor> - y * 1000000\<bar> \<le> 1 / 2 + 1000002 * eps" by linarith
  moreover have "micros L x e = \<lfloor>z\<rfloor>"
    using r(5) by (simp add: micros_def trunc_def y_def a_def b_def z_def)
  ultimately show ?thesis by (simp add: y_def)
qed

lemma carry_wf: "0 \<le> us \<Longrightarrow> us \<le> 1000000 \<Longrightarrow> carry L e us = Stamp g \<Longrightarrow>
   wf_stamp L g \<and> of_int (epoch g) * 1000000 + of_int (usec g) = (of_int e * 1000000 + of_int us :: rat)"
  by (auto simp: carry_def stamp_at_def wf_stamp_def algebra_simps split: if_splits)

lemma cast_int_Some: "cast_int (of_int n) = Some m \<longleftrightarrow> m = n \<and> - (2 ^ 31) \<le> n \<and> n < 2 ^ 31"
  by (auto simp: cast_int_def trunc_def Let_def)

lemma floor_bounds: "of_int \<lfloor>x\<rfloor> \<le> (x :: rat)" "x \<le> of_int \<lfloor>x\<rfloor> + 1"
  by linarith+

lemma on_finite_Stamp: "on_finite r f = Stamp g \<longleftrightarrow> (\<exists>q. r = Fin q \<and> f q = Stamp g)"
  by (cases r) (auto simp: on_finite_def)

lemma time_at_Stamp:
  assumes "time_at L v = Inr (Stamp g)"
  obtains x where "scm_to_double L v = Inr (Fin x)" "- (2 ^ 31) \<le> \<lfloor>x\<rfloor>" "\<lfloor>x\<rfloor> < 2 ^ 31"
    "carry L \<lfloor>x\<rfloor> (micros L x \<lfloor>x\<rfloor>) = Stamp g"
  using assms
  by (auto simp: time_at_def bindR_eq_Inr on_finite_Stamp cast_int_Some split: option.splits)

lemma time_add_Stamp:
  assumes "time_add L t v = Inr (Stamp g)"
  obtains x where "carry L \<lfloor>x\<rfloor> (micros L x \<lfloor>x\<rfloor>) = Stamp g"
  using assms
  by (auto simp: time_add_def bindR_eq_Inr on_finite_Stamp Let_def split: if_splits)

lemma local_time_wf:
  assumes "good_rnd L" "0 \<le> second" "local_time_intern L y mo d h mi second = Stamp g"
  shows "wf_stamp L g"
proof -
  obtain s where s: "cast_int second = Some s" using assms(3) by (auto simp: local_time_intern_def split: option.splits)
  then have "s = \<lfloor>second\<rfloor>" using assms(2) by (auto simp: cast_int_def trunc_def Let_def split: if_splits)
  then have "0 \<le> micros L second s" "micros L second s \<le> 1000000"
    using micros_range [OF assms(1), of s second] floor_bounds [of second] by simp_all
  then show ?thesis
    using assms(3) s by (auto simp: local_time_intern_def stamp_at_def wf_stamp_def Let_def split: if_splits)
qed


section \<open>Lemmas on ISO 8601\<close>

definition dig :: "nat \<Rightarrow> char" where
  "dig n = char_of (48 + n)"

definition dec2 :: "nat \<Rightarrow> string" where
  "dec2 n = [dig (n div 10), dig (n mod 10)]"

definition dec4 :: "nat \<Rightarrow> string" where
  "dec4 n = dec2 (n div 100) @ dec2 (n mod 100)"

definition iso_text :: "nat \<Rightarrow> nat \<Rightarrow> nat \<Rightarrow> nat \<Rightarrow> nat \<Rightarrow> nat \<Rightarrow> string" where
  "iso_text y mo d h mi s =
     dec4 y @ ''-'' @ dec2 mo @ ''-'' @ dec2 d @ ''T'' @ dec2 h @ '':'' @ dec2 mi @ '':'' @ dec2 s"

lemma isdigit_dig [simp]: "n < 10 \<Longrightarrow> isdigit (dig n)"
  by (simp add: dig_def)

lemma code_dig: "n < 10 \<Longrightarrow> code (dig n) = 48 + int n"
  by (simp add: dig_def code_char_of_nat)

lemma digits_val_dec2: "n < 100 \<Longrightarrow> digits_val acc (dec2 n @ r) = digits_val (100 * acc + int n) r"
proof -
  assume "n < 100"
  then have "n div 10 < 10" "n mod 10 < 10" by auto
  moreover have "10 * (10 * acc + int (n div 10)) + int (n mod 10) = 100 * acc + int n" by presburger
  ultimately show ?thesis by (simp add: dec2_def code_dig add.assoc del: of_nat_mod of_nat_div)
qed

lemma digits_val_stop: "r = [] \<or> \<not> isdigit (hd r) \<Longrightarrow> digits_val acc r = acc"
  by (cases r) auto

lemma atoi_digits:
  assumes "isdigit c" "digits_val 0 (c # u) = v" "0 \<le> v" "v < 2 ^ 31"
  shows "atoi (c # u) = v" "atoi (CHR ''+'' # c # u) = v" "atoi (CHR ''-'' # c # u) = - v"
proof -
  have ns: "\<not> isspace c" "c \<noteq> CHR ''-''" "c \<noteq> CHR ''+''" "\<not> isspace (CHR ''+'')" "\<not> isspace (CHR ''-'')"
    using assms(1) by (auto simp: isdigit_def isspace_def code_def)
  have "signed_take_bit 31 v = v" "signed_take_bit 31 (- v) = - v"
    using assms(3,4) by (simp_all add: signed_take_bit_int_eq_self)
  then show "atoi (c # u) = v" "atoi (CHR ''+'' # c # u) = v" "atoi (CHR ''-'' # c # u) = - v"
    using assms ns by (simp_all add: atoi_def strtol10_def del: digits_val.simps)
qed

lemma atoi_dec2: "n < 100 \<Longrightarrow> atoi (dec2 n) = int n"
  using atoi_digits(1) [of "dig (n div 10)" "[dig (n mod 10)]" "int n"] digits_val_dec2 [of n 0 "[]"]
  by (simp add: dec2_def del: digits_val.simps) simp

lemma atoi_dec4: "n < 10000 \<Longrightarrow> atoi (dec4 n) = int n"
proof -
  assume n: "n < 10000"
  have "digits_val 0 (dec4 n) = digits_val (100 * int (n div 100) + int (n mod 100)) []"
    using n digits_val_dec2 [of "n div 100" 0 "dec2 (n mod 100)"] digits_val_dec2 [of "n mod 100" "int (n div 100)" "[]"]
    by (simp add: dec4_def del: digits_val.simps)
  also have "\<dots> = int n" by simp presburger
  finally have "digits_val 0 (dec4 n) = int n" .
  moreover have "isdigit (dig (n div 100 div 10))" using n by (intro isdigit_dig) linarith
  ultimately show ?thesis
    using n atoi_digits(1) [of "dig (n div 100 div 10)" _ "int n"] by (simp add: dec4_def dec2_def del: digits_val.simps)
qed

lemma atoi_zone:
  assumes "z < 100" "r = [] \<or> \<not> isdigit (hd r)"
  shows "atoi (CHR ''+'' # dec2 z @ r) = int z" "atoi (CHR ''-'' # dec2 z @ r) = - int z"
proof -
  have "digits_val 0 (dec2 z @ r) = int z"
    using digits_val_dec2 [OF assms(1)] digits_val_stop [OF assms(2)] by simp
  then show "atoi (CHR ''+'' # dec2 z @ r) = int z" "atoi (CHR ''-'' # dec2 z @ r) = - int z"
    using assms(1) atoi_digits(2,3) [of "dig (z div 10)" _ "int z"]
    by (simp_all add: dec2_def del: digits_val.simps)
qed


definition ok_fields :: "nat \<Rightarrow> nat \<Rightarrow> nat \<Rightarrow> nat \<Rightarrow> nat \<Rightarrow> nat \<Rightarrow> bool" where
  "ok_fields y mo d h mi s \<longleftrightarrow> y < 10000 \<and> mo < 100 \<and> d < 100 \<and> h < 100 \<and> mi < 100 \<and> s < 100"

lemma dec2_fits: "n < 100 \<Longrightarrow> pattern_fits (CHR ''9'' # CHR ''9'' # ps) (dec2 n @ r) = pattern_fits ps r"
  by (auto simp: dec2_def)

lemma iso_text_fits:
  assumes "ok_fields y mo d h mi s"
  shows "pattern_fits iso_pattern (iso_text y mo d h mi s @ r)"
proof -
  have "y div 100 < 100" "y mod 100 < 100" using assms unfolding ok_fields_def by linarith+
  then show ?thesis
    using assms by (simp add: iso_pattern_def iso_text_def dec4_def ok_fields_def dec2_fits)
qed

lemma dec2_no_NUL: "n < 100 \<Longrightarrow> NUL \<notin> set (dec2 n)"
proof -
  assume "n < 100"
  then have "code (dig (n div 10)) = 48 + int (n div 10)" "code (dig (n mod 10)) = 48 + int (n mod 10)"
    by (auto intro: code_dig)
  then have "dig (n div 10) \<noteq> NUL" "dig (n mod 10) \<noteq> NUL" by (metis code_NUL of_nat_0_le_iff add_pos_nonneg zero_less_numeral less_irrefl)+
  then show ?thesis by (auto simp: dec2_def)
qed

lemma iso_text_length [simp]: "length (iso_text y mo d h mi s) = 19"
  by (simp add: iso_text_def dec4_def dec2_def)

lemma iso_find_text:
  assumes "ok_fields y mo d h mi s" "mid \<noteq> []" "\<forall>c \<in> set mid. \<not> zone_sign c" "zone_sign c" "z < 100"
  shows "iso_find (iso_text y mo d h mi s @ mid @ c # dec2 z @ r) = Some (0, 19 + length mid)"
proof -
  let ?s = "iso_text y mo d h mi s @ mid @ c # dec2 z @ r"
  have tw: "takeWhile (\<lambda>c. \<not> zone_sign c) (mid @ c # dec2 z @ r) = mid"
    using assms(3,4) by (simp add: takeWhile_append2 takeWhile_tail)
  have "isdigit (dig (z div 10))" "isdigit (dig (z mod 10))" using assms(5) by auto
  then have "iso_at ?s = Some (19 + length mid)"
    using iso_text_fits [OF assms(1)] assms(2) tw by (simp add: iso_at_def Let_def dec2_def)
  moreover obtain a t where "?s = a # t" by (cases ?s) (auto simp: assms(2))
  ultimately show ?thesis by simp
qed

lemma iso_fields_text:
  "ok_fields y mo d h mi s \<Longrightarrow>
   iso_fields (iso_text y mo d h mi s @ r) 0 = (int y - 1900, int mo - 1, int d, int h, int mi, int s)"
proof -
  assume "ok_fields y mo d h mi s"
  moreover have "take 4 (iso_text y mo d h mi s @ r) = dec4 y" "take 2 (drop 5 (iso_text y mo d h mi s @ r)) = dec2 mo"
      "take 2 (drop 8 (iso_text y mo d h mi s @ r)) = dec2 d" "take 2 (drop 11 (iso_text y mo d h mi s @ r)) = dec2 h"
      "take 2 (drop 14 (iso_text y mo d h mi s @ r)) = dec2 mi" "take 2 (drop 17 (iso_text y mo d h mi s @ r)) = dec2 s"
    by (simp_all add: iso_text_def dec4_def dec2_def)
  ultimately show ?thesis
    by (simp add: iso_fields_def atoi_dec2 atoi_dec4 ok_fields_def del: take_append drop_append)
qed

section \<open>Properties\<close>


definition utc_clib :: clib where
  "utc_clib =
     \<lparr>localtime = (\<lambda>e. \<lparr>tm_year = 70, tm_mon = 0, tm_mday = 1, tm_hour = 0, tm_min = 0, tm_sec = e, tm_wday = 4,
                        tm_gmtoff = 0, tm_zone = ''UTC''\<rparr>),
      mktime = (\<lambda>(y, mo, d, h, mi, s). 3600 * h + 60 * mi + s), mktime_off = (\<lambda>_. 0),
      strftime = (\<lambda>f t. f), getdate = (\<lambda>_. -1), rnd = (\<lambda>q. q)\<rparr>"

lemma utc_good: "good_rnd utc_clib" "rnd_within utc_clib 0"
  by (simp_all add: good_rnd_def rnd_within_def utc_clib_def mono_def)


text \<open>
  \<open>time-at\<close> is accurate: the stamp differs from the number it was made from by at most half a
  microsecond and what the rounding of doubles adds.
\<close>

theorem time_at_accurate:
  assumes "good_rnd L" "rnd_within L eps" "time_at L (SReal (Fin x)) = Inr (Stamp g)"
  shows "\<bar>of_int (epoch g) * 1000000 + of_int (usec g) - x * 1000000\<bar> \<le> 1 / 2 + 1000002 * eps"
proof -
  have c: "carry L \<lfloor>x\<rfloor> (micros L x \<lfloor>x\<rfloor>) = Stamp g"
    using time_at_Stamp [OF assms(3)] by (auto simp: scm_to_double_def)
  have "of_int (epoch g) * 1000000 + of_int (usec g) = (of_int \<lfloor>x\<rfloor> * 1000000 + of_int (micros L x \<lfloor>x\<rfloor>) :: rat)"
    using carry_wf [OF _ _ c] micros_range [OF assms(1) floor_bounds] by blast
  then show ?thesis
    using micros_close [OF assms(1,2) floor_bounds, of x] by (simp add: algebra_simps)
qed

theorem time_at_accurate_witness:
  "\<exists>g. time_at utc_clib (SReal (Fin (7 / 4))) = Inr (Stamp g) \<and>
     \<bar>of_int (epoch g) * 1000000 + of_int (usec g) - (7 / 4) * 1000000\<bar> \<le> (1 / 2 :: rat)"
proof -
  have "\<exists>g. time_at utc_clib (SReal (Fin (7 / 4))) = Inr (Stamp g)"
    by (simp add: time_at_def scm_to_double_def on_finite_def cast_int_def trunc_def carry_def stamp_at_def)
  then show ?thesis using time_at_accurate [OF utc_good, of "7 / 4"] by fastforce
qed

text \<open>
  An ISO 8601 time with something between the seconds and a zone of whole hours is decoded to the
  right moment, if \<open>mktime\<close> and the offset it stores agree with the calendar \<open>utc\<close> on its fields.
\<close>

theorem iso_time_decoded:
  assumes "ok_fields y mo d h mi s" "mid \<noteq> []" "\<forall>c \<in> set mid. \<not> zone_sign c \<and> c \<noteq> NUL" "z < 100"
    and "r = [] \<or> \<not> isdigit (hd r)" "NUL \<notin> set r" "c = (if west then CHR ''-'' else CHR ''+'')"
    and "\<And>f. mktime L f + mktime_off L f = utc f"
  shows "time_decode L (SStr (iso_text y mo d h mi s @ mid @ c # dec2 z @ r)) =
    Inr (stamp_at L (utc (int y - 1900, int mo - 1, int d, int h, int mi, int s) -
      (if west then - int z else int z) * 3600) 0)"
proof -
  let ?s = "iso_text y mo d h mi s @ mid @ c # dec2 z @ r"
  have f: "iso_find ?s = Some (0, 19 + length mid)"
    using assms by (intro iso_find_text) (auto simp: zone_sign_def)
  have zone: "atoi (drop (19 + length mid) ?s) = (if west then - int z else int z)"
    using atoi_zone [OF assms(4,5)] assms(7) by simp
  have "y div 100 < 100" "y mod 100 < 100" using assms(1) unfolding ok_fields_def by linarith+
  then have "NUL \<notin> set (iso_text y mo d h mi s)"
    using assms(1) by (simp add: iso_text_def dec4_def ok_fields_def dec2_no_NUL)
  then have "NUL \<notin> set ?s"
    using assms(3,4,6,7) by (auto simp: dec2_no_NUL)
  then show ?thesis
    using f zone iso_fields_text [OF assms(1)] assms(8) [symmetric]
    by (simp add: time_decode_def Let_def algebra_simps)
qed

theorem iso_time_decoded_witness:
  "time_decode utc_clib (SStr (iso_text 2013 5 17 10 30 15 @ ''.0'' @ CHR ''+'' # dec2 2 @ '':00'')) =
   Inr (stamp_at utc_clib (3600 * 10 + 60 * 30 + 15 - 2 * 3600) 0)"
proof -
  have "ok_fields 2013 5 17 10 30 15" by code_simp
  moreover have "\<forall>c \<in> set ''.0''. \<not> zone_sign c \<and> c \<noteq> NUL" by code_simp
  moreover have "'':00'' = [] \<or> \<not> isdigit (hd '':00'')" by code_simp
  ultimately show ?thesis
    using iso_time_decoded [of 2013 5 17 10 30 15 "''.0''" 2 "'':00''" "CHR ''+''" False utc_clib "mktime utc_clib"]
    by (simp add: utc_clib_def)
qed

text \<open>
  Two common forms are not decoded as meant: a zone right after the seconds does not fit the
  pattern and is left to \<open>curl_getdate\<close>, and the four digits of a zone without a colon are all taken
  for hours.
\<close>

theorem iso_zone_misread:
  "time_decode L (SStr ''2013-05-17T10:30:15+02:00'') = Inr (stamp_at L (getdate L ''2013-05-17T10:30:15+02:00'') 0) \<and>
   time_decode L (SStr ''2013-05-17T10:30:15.0+0200'') =
     Inr (stamp_at L (mktime L (113, 4, 17, 10, 30, 15) + (mktime_off L (113, 4, 17, 10, 30, 15) - 200 * 3600)) 0)"
proof -
  have "iso_find ''2013-05-17T10:30:15+02:00'' = None" by code_simp
  moreover have "iso_find ''2013-05-17T10:30:15.0+0200'' = Some (0, 21)" by code_simp
  moreover have "iso_fields ''2013-05-17T10:30:15.0+0200'' 0 = (113, 4, 17, 10, 30, 15)" by code_simp
  moreover have "atoi (drop 21 ''2013-05-17T10:30:15.0+0200'') = 200" by code_simp
  ultimately show ?thesis by (simp add: time_decode_def Let_def del: drop_Cons_numeral)
qed

end
