(* ===== verification/Log.thy ===== *)
theory Log
  imports Gtime
begin

text \<open>
  The log (\<open>log.c\<close>). A \<open>FILE\<close> pointer is \<open>Stderr\<close> or the number of a handle; a handle is the path it
  was opened for and whether it is still open; using a closed one is \<open>BadAccess\<close>. The pointer
  \<open>logpath\<close> is null, a string, or dangling after \<open>free\<close>. The file system is a map from paths to
  contents; \<open>can_open\<close> says for which paths \<open>fopen\<close> succeeds and \<open>why\<close> is what \<open>perror\<close> prints when
  it does not. The broken-down local time of a message is a parameter of the call.
\<close>

section \<open>State\<close>

datatype fileptr = Stderr | Handle nat

datatype cptr = Null | Ptr string | Dangling

record logger =
  logfile :: fileptr
  logpath :: cptr
  lg_handles :: "(string \<times> bool) list"
  lg_disk :: "string \<Rightarrow> string option"
  lg_stderr :: string

definition init_log :: "(string \<Rightarrow> string option) \<Rightarrow> logger" where
  "init_log disk = \<lparr>logfile = Stderr, logpath = Null, lg_handles = [], lg_disk = disk, lg_stderr = []\<rparr>"

section \<open>Files\<close>

definition is_open :: "logger \<Rightarrow> nat \<Rightarrow> bool" where
  "is_open l h \<longleftrightarrow> h < length (lg_handles l) \<and> snd (lg_handles l ! h)"

definition append_file :: "string \<Rightarrow> string \<Rightarrow> (string \<Rightarrow> string option) \<Rightarrow> string \<Rightarrow> string option" where
  "append_file p text disk = disk(p \<mapsto> (case disk p of None \<Rightarrow> [] | Some old \<Rightarrow> old) @ text)"

definition fputs :: "string \<Rightarrow> fileptr \<Rightarrow> logger \<Rightarrow> logger res" where
  "fputs text f l =
     (case f of
        Stderr \<Rightarrow> Inr (l\<lparr>lg_stderr := lg_stderr l @ text\<rparr>)
      | Handle h \<Rightarrow>
          if is_open l h then Inr (l\<lparr>lg_disk := append_file (fst (lg_handles l ! h)) text (lg_disk l)\<rparr>)
          else Inl BadAccess)"

definition fclose :: "fileptr \<Rightarrow> logger \<Rightarrow> logger res" where
  "fclose f l =
     (case f of
        Stderr \<Rightarrow> Inr l
      | Handle h \<Rightarrow>
          if is_open l h then Inr (l\<lparr>lg_handles := (lg_handles l)[h := (fst (lg_handles l ! h), False)]\<rparr>)
          else Inl BadAccess)"

text \<open>\<open>fopen\<close> with mode \<open>w\<close> empties the file.\<close>

definition fopen_w :: "(string \<Rightarrow> bool) \<Rightarrow> string \<Rightarrow> logger \<Rightarrow> (nat \<times> logger) option" where
  "fopen_w can_open p l =
     (if can_open p
      then Some (length (lg_handles l),
                 l\<lparr>lg_handles := lg_handles l @ [(p, True)], lg_disk := (lg_disk l)(p \<mapsto> [])\<rparr>)
      else None)"

definition free_path :: "logger \<Rightarrow> logger res" where
  "free_path l =
     (case logpath l of Null \<Rightarrow> Inr l | Ptr p \<Rightarrow> Inr (l\<lparr>logpath := Dangling\<rparr>) | Dangling \<Rightarrow> Inl BadAccess)"

section \<open>Messages\<close>

definition pad2 :: "int \<Rightarrow> string" where
  "pad2 n = (if 0 \<le> n \<and> n < 10 then CHR ''0'' # dec n else dec n)"

definition log_stamp :: "tm \<Rightarrow> string" where
  "log_stamp lt =
     dec (tm_year lt + 1900) @ ''-'' @ pad2 (tm_mon lt + 1) @ ''-'' @ pad2 (tm_mday lt) @ '' '' @
     pad2 (tm_hour lt) @ '':'' @ pad2 (tm_min lt) @ '':'' @ pad2 (tm_sec lt) @ '' ''"

definition log_msg :: "tm \<Rightarrow> string \<Rightarrow> logger \<Rightarrow> logger res" where
  "log_msg lt text l =
     bindR (fputs (log_stamp lt) (logfile l) l) (\<lambda>l1. fputs text (logfile l1) l1)"

definition log_msg_primitive :: "tm \<Rightarrow> scm \<Rightarrow> logger \<Rightarrow> logger \<times> scm res" where
  "log_msg_primitive lt message l =
     (case scm_to_cstring message of
        Inl e \<Rightarrow> (l, Inl e)
      | Inr msg \<Rightarrow>
          (case log_msg lt (msg @ [LF]) l of Inl e \<Rightarrow> (l, Inl e) | Inr l' \<Rightarrow> (l', Inr (SBool True))))"

section \<open>Changing the file\<close>

text \<open>
  \<open>log_to\<close> in two parts: closing the old file and freeing its path, and opening the new one. Other
  threads run between them, since \<open>log_to\<close> does not take the mutex of \<open>log_msg\<close>.
\<close>

definition log_to_close :: "logger \<Rightarrow> logger res" where
  "log_to_close l = bindR (if logfile l \<noteq> Stderr then fclose (logfile l) l else Inr l) free_path"

definition log_to_open :: "(string \<Rightarrow> bool) \<Rightarrow> string \<Rightarrow> scm \<Rightarrow> logger \<Rightarrow> logger \<times> scm res" where
  "log_to_open can_open why path l =
     (case scm_to_cstring path of
        Inl e \<Rightarrow> (l, Inl e)
      | Inr p \<Rightarrow>
          (case fopen_w can_open p (l\<lparr>logpath := Ptr p\<rparr>) of
             Some (h, l1) \<Rightarrow> (l1\<lparr>logfile := Handle h\<rparr>, Inr (SBool True))
           | None \<Rightarrow>
               (l\<lparr>logfile := Stderr, lg_stderr := lg_stderr l @ ''log_to: '' @ why @ [LF], logpath := Null\<rparr>,
                Inr (SBool True))))"

definition log_to :: "(string \<Rightarrow> bool) \<Rightarrow> string \<Rightarrow> scm \<Rightarrow> logger \<Rightarrow> logger \<times> scm res" where
  "log_to can_open why path l =
     (case log_to_close l of Inl e \<Rightarrow> (l, Inl e) | Inr l1 \<Rightarrow> log_to_open can_open why path l1)"

definition shutdown_log :: "logger \<Rightarrow> logger res" where
  "shutdown_log l =
     bindR (if logfile l \<noteq> Stderr then bindR (fclose (logfile l) l) (\<lambda>l1. Inr (l1\<lparr>logfile := Stderr\<rparr>)) else Inr l)
       (\<lambda>l1. if logpath l1 \<noteq> Null then bindR (free_path l1) (\<lambda>l2. Inr (l2\<lparr>logpath := Null\<rparr>)) else Inr l1)"

section \<open>Scripts of calls\<close>

datatype log_op = Msg tm string | Prim tm scm | To scm | Shutdown

definition run_op :: "(string \<Rightarrow> bool) \<Rightarrow> string \<Rightarrow> log_op \<Rightarrow> logger \<Rightarrow> logger \<times> scm res" where
  "run_op can_open why x l =
     (case x of
        Msg lt text \<Rightarrow> (case log_msg lt text l of Inl e \<Rightarrow> (l, Inl e) | Inr l' \<Rightarrow> (l', Inr SUnspec))
      | Prim lt v \<Rightarrow> log_msg_primitive lt v l
      | To v \<Rightarrow> log_to can_open why v l
      | Shutdown \<Rightarrow> (case shutdown_log l of Inl e \<Rightarrow> (l, Inl e) | Inr l' \<Rightarrow> (l', Inr SUnspec)))"

text \<open>A Scheme exception ends the call and not the program; a fault ends the program.\<close>

fun run_ops :: "(string \<Rightarrow> bool) \<Rightarrow> string \<Rightarrow> log_op list \<Rightarrow> logger \<Rightarrow> logger res" where
  "run_ops can_open why [] l = Inr l"
| "run_ops can_open why (x # xs) l =
     (case run_op can_open why x l of
        (l', Inl BadAccess) \<Rightarrow> Inl BadAccess
      | (l', Inl NullDeref) \<Rightarrow> Inl NullDeref
      | (l', _) \<Rightarrow> run_ops can_open why xs l')"

section \<open>What the log is for\<close>

text \<open>
  The specification: a current destination, where no path means the standard error, and the texts
  that arrived so far.
\<close>

type_synonym log_spec = "string option \<times> (string \<Rightarrow> string option) \<times> string"

definition spec_msg :: "string \<Rightarrow> log_spec \<Rightarrow> log_spec" where
  "spec_msg text = (\<lambda>(dest, disk, err).
     case dest of None \<Rightarrow> (dest, disk, err @ text) | Some p \<Rightarrow> (dest, append_file p text disk, err))"

definition spec_op :: "(string \<Rightarrow> bool) \<Rightarrow> string \<Rightarrow> log_op \<Rightarrow> log_spec \<Rightarrow> log_spec" where
  "spec_op can_open why x a =
     (case x of
        Msg lt text \<Rightarrow> spec_msg (log_stamp lt @ text) a
      | Prim lt v \<Rightarrow> (case scm_to_cstring v of Inl e \<Rightarrow> a | Inr m \<Rightarrow> spec_msg (log_stamp lt @ m @ [LF]) a)
      | To v \<Rightarrow>
          (case (scm_to_cstring v, a) of
             (Inl e, _) \<Rightarrow> a
           | (Inr p, (dest, disk, err)) \<Rightarrow>
               if can_open p then (Some p, disk(p \<mapsto> []), err) else (None, disk, err @ ''log_to: '' @ why @ [LF]))
      | Shutdown \<Rightarrow> (case a of (dest, disk, err) \<Rightarrow> (None, disk, err)))"

definition log_abs :: "logger \<Rightarrow> log_spec" where
  "log_abs l =
     ((case logfile l of Stderr \<Rightarrow> None | Handle h \<Rightarrow> Some (fst (lg_handles l ! h))), lg_disk l, lg_stderr l)"

text \<open>The file is open and its path known, or there is neither.\<close>

definition log_inv :: "logger \<Rightarrow> bool" where
  "log_inv l =
     (case logfile l of
        Stderr \<Rightarrow> logpath l = Null
      | Handle h \<Rightarrow> is_open l h \<and> logpath l = Ptr (fst (lg_handles l ! h)))"

text \<open>Every new path converts.\<close>

definition paths_convert :: "log_op list \<Rightarrow> bool" where
  "paths_convert xs = (\<forall>x \<in> set xs. case x of To v \<Rightarrow> (case scm_to_cstring v of Inl e \<Rightarrow> False | Inr p \<Rightarrow> True) | _ \<Rightarrow> True)"

section \<open>Lemmas\<close>

lemma append_file_append [simp]: "append_file p b (append_file p a disk) = append_file p (a @ b) disk"
  by (auto simp: append_file_def)

lemma log_msg_refines:
  assumes "log_inv l"
  shows "\<exists>l'. log_msg lt text l = Inr l' \<and> log_inv l' \<and> log_abs l' = spec_msg (log_stamp lt @ text) (log_abs l)"
  using assms
  by (cases "logfile l") (simp_all add: log_msg_def fputs_def log_inv_def log_abs_def spec_msg_def is_open_def)

text \<open>
  What the rest of the program relies on: writing a message to a journal that is in order returns, and
  leaves it in order.
\<close>

locale journal =
  fixes in_order :: "'j \<Rightarrow> bool" and put :: "tm \<Rightarrow> string \<Rightarrow> 'j \<Rightarrow> 'j res"
  assumes put_ok: "in_order j \<Longrightarrow> \<exists>j'. put lt m j = Inr j' \<and> in_order j'"
begin

lemma put_returns: "in_order j \<Longrightarrow> \<exists>j'. put lt m j = Inr j'"
  using put_ok by blast

lemma put_keeps: "in_order j \<Longrightarrow> put lt m j = Inr j' \<Longrightarrow> in_order j'"
  using put_ok [of j lt m] by auto

end

interpretation jl: journal log_inv log_msg
  by unfold_locales (use log_msg_refines in blast)

lemma log_to_close_ok:
  assumes "log_inv l"
  shows "log_to_close l = Inr (case logfile l of
      Stderr \<Rightarrow> l
    | Handle h \<Rightarrow> l\<lparr>lg_handles := (lg_handles l)[h := (fst (lg_handles l ! h), False)], logpath := Dangling\<rparr>)"
  using assms by (cases "logfile l") (auto simp: log_to_close_def log_inv_def fclose_def free_path_def)

lemma shutdown_log_refines:
  assumes "log_inv l"
  shows "\<exists>l'. shutdown_log l = Inr l' \<and> log_inv l' \<and> log_abs l' = spec_op can_open why Shutdown (log_abs l)"
  using assms
  by (cases "logfile l") (auto simp: shutdown_log_def log_inv_def fclose_def free_path_def log_abs_def spec_op_def)

lemma log_to_refines:
  assumes "log_inv l" "scm_to_cstring v = Inr p"
  shows "\<exists>l'. log_to can_open why v l = (l', Inr (SBool True)) \<and> log_inv l' \<and>
    log_abs l' = spec_op can_open why (To v) (log_abs l)"
  using assms
  by (cases "logfile l")
    (auto simp: log_to_def log_to_close_ok log_to_open_def fopen_w_def log_inv_def log_abs_def spec_op_def is_open_def
      nth_append)

lemma run_op_refines:
  assumes "log_inv l" "paths_convert [x]"
  shows "\<exists>l' r. run_op can_open why x l = (l', r) \<and> log_inv l' \<and> log_abs l' = spec_op can_open why x (log_abs l) \<and>
    r \<noteq> Inl BadAccess \<and> r \<noteq> Inl NullDeref"
proof (cases x)
  case (Msg lt m)
  then show ?thesis using log_msg_refines [OF assms(1), of lt m] by (auto simp: run_op_def spec_op_def)
next
  case (Prim lt v)
  show ?thesis
  proof (cases "scm_to_cstring v")
    case (Inl e)
    then have "e \<noteq> BadAccess" "e \<noteq> NullDeref"
      by (cases v; auto simp: misc_error_def wrong_type_def split: if_splits)+
    then show ?thesis using Prim Inl assms(1) by (simp add: run_op_def spec_op_def log_msg_primitive_def)
  next
    case (Inr m)
    then show ?thesis
      using Prim log_msg_refines [OF assms(1), of lt "m @ [LF]"]
      by (auto simp: run_op_def spec_op_def log_msg_primitive_def)
  qed
next
  case (To v)
  then obtain p where "scm_to_cstring v = Inr p" using assms(2) by (auto simp: paths_convert_def split: sum.splits)
  then show ?thesis using To log_to_refines [OF assms(1)] by (fastforce simp: run_op_def)
next
  case Shutdown
  then show ?thesis using shutdown_log_refines [OF assms(1)] by (fastforce simp: run_op_def)
qed

section \<open>Properties\<close>

text \<open>
  C20: The log goes where it was last sent. For every sequence of messages, calls of \<open>log-to\<close> and
  shutdowns, no call touches a closed file or a freed path, and the files and the standard error
  hold exactly the stamped messages that the specification puts there, provided that
  every path given to \<open>log-to\<close> is a string without a NUL.
\<close>

theorem log_goes_where_sent:
  assumes "log_inv l" "paths_convert xs"
  shows "\<exists>l'. run_ops can_open why xs l = Inr l' \<and> log_inv l' \<and> log_abs l' = fold (spec_op can_open why) xs (log_abs l)"
  using assms
proof (induction xs arbitrary: l)
  case (Cons x xs)
  obtain l1 r where r: "run_op can_open why x l = (l1, r)" "log_inv l1" "log_abs l1 = spec_op can_open why x (log_abs l)"
      "r \<noteq> Inl BadAccess" "r \<noteq> Inl NullDeref"
    using run_op_refines [OF Cons.prems(1), of x can_open why] Cons.prems(2) by (auto simp: paths_convert_def)
  have "run_ops can_open why (x # xs) l = run_ops can_open why xs l1"
    using r(1,4,5) by (cases r) (auto split: cerror.splits)
  moreover have "paths_convert xs" using Cons.prems(2) by (simp add: paths_convert_def)
  ultimately show ?case using Cons.IH [OF r(2)] r(3) by simp
qed simp

theorem log_goes_where_sent_witness:
  "\<exists>l'. run_ops (\<lambda>p. p = ''a'') ''no''
       [To (SStr ''a''),
        Prim \<lparr>tm_year = 113, tm_mon = 4, tm_mday = 7, tm_hour = 10, tm_min = 2, tm_sec = 0, tm_wday = 2,
              tm_gmtoff = 0, tm_zone = ''UTC''\<rparr> (SStr ''hi''),
        To (SStr ''b'')] (init_log Map.empty) = Inr l' \<and>
     lg_disk l' ''a'' = Some (''2013-05-07 10:02:00 hi'' @ [LF]) \<and> lg_stderr l' = ''log_to: no'' @ [LF]"
proof -
  let ?lt = "\<lparr>tm_year = 113, tm_mon = 4, tm_mday = 7, tm_hour = 10, tm_min = 2, tm_sec = 0, tm_wday = 2,
    tm_gmtoff = 0, tm_zone = ''UTC''\<rparr>"
  let ?ops = "[To (SStr ''a''), Prim ?lt (SStr ''hi''), To (SStr ''b'')]"
  let ?l = "init_log Map.empty"
  have i: "log_inv ?l" "paths_convert ?ops" by (simp_all add: log_inv_def init_log_def paths_convert_def)
  have st: "log_stamp ?lt = ''2013-05-07 10:02:00 ''" by code_simp
  obtain l' where l': "run_ops (\<lambda>p. p = ''a'') ''no'' ?ops ?l = Inr l'"
    "log_abs l' = fold (spec_op (\<lambda>p. p = ''a'') ''no'') ?ops (log_abs ?l)"
    using log_goes_where_sent [OF i] by blast
  have "log_abs l' = (None, [''a'' \<mapsto> ''2013-05-07 10:02:00 hi'' @ [LF]], ''log_to: no'' @ [LF])"
    unfolding l'(2)
    by (simp add: spec_op_def spec_msg_def log_abs_def init_log_def append_file_def st del: fun_upd_apply) (simp add: fun_eq_iff)
  then show ?thesis using l'(1) by (intro exI [of _ l']) (simp add: log_abs_def)
qed

text \<open>
  A path that does not convert kills the log. When messages go to a file, \<open>log-to\<close> with something
  that is not a string raises its exception after the file is closed and its path freed: the
  state is the one that other threads see in the middle of every \<open>log-to\<close>, and in it each message,
  each further \<open>log-to\<close> and the shutdown use a closed file.
\<close>

theorem bad_path_kills_log:
  assumes "log_inv l" "logfile l = Handle h" "scm_to_cstring v = Inl e"
  shows "\<exists>l'. log_to can_open why v l = (l', Inl e) \<and> log_to_close l = Inr l' \<and>
    (\<forall>lt text. log_msg lt text l' = Inl BadAccess) \<and>
    (\<forall>w. snd (log_to can_open why w l') = Inl BadAccess) \<and> shutdown_log l' = Inl BadAccess"
proof -
  let ?l = "l\<lparr>lg_handles := (lg_handles l)[h := (fst (lg_handles l ! h), False)], logpath := Dangling\<rparr>"
  have c: "log_to_close l = Inr ?l" using log_to_close_ok [OF assms(1)] assms(2) by simp
  have n: "\<not> is_open ?l h" by (auto simp: is_open_def nth_list_update)
  have "log_to_close ?l = Inl BadAccess" using n assms(2) by (simp add: log_to_close_def fclose_def)
  moreover have "log_msg lt m ?l = Inl BadAccess" for lt m using n assms(2) by (simp add: log_msg_def fputs_def)
  moreover have "shutdown_log ?l = Inl BadAccess" using n assms(2) by (simp add: shutdown_log_def fclose_def)
  moreover have "log_to can_open why v l = (?l, Inl e)" using c assms(3) by (simp add: log_to_def log_to_open_def)
  ultimately show ?thesis using c by (intro exI [of _ ?l]) (simp add: log_to_def)
qed

theorem bad_path_kills_log_witness:
  "\<exists>l l'. log_to (\<lambda>p. True) [] (SStr ''a'') (init_log Map.empty) = (l, Inr (SBool True)) \<and>
     log_to (\<lambda>p. True) [] (SInt 1) l = (l', Inl wrong_type) \<and> shutdown_log l' = Inl BadAccess"
proof -
  let ?l = "\<lparr>logfile = Handle 0, logpath = Ptr ''a'', lg_handles = [(''a'', True)], lg_disk = [''a'' \<mapsto> []], lg_stderr = []\<rparr>"
  have l: "log_to (\<lambda>p. True) [] (SStr ''a'') (init_log Map.empty) = (?l, Inr (SBool True))"
    by (simp add: log_to_def log_to_close_def free_path_def log_to_open_def fopen_w_def init_log_def)
  have "log_inv ?l" "logfile ?l = Handle 0" by (simp_all add: log_inv_def is_open_def)
  from bad_path_kills_log [OF this, of "SInt 1" wrong_type "\<lambda>p. True" "[]"]
  obtain l' where "log_to (\<lambda>p. True) [] (SInt 1) ?l = (l', Inl wrong_type)" "shutdown_log l' = Inl BadAccess" by auto
  then show ?thesis using l by blast
qed

end
