(* ===== verification/Mainloop.thy ===== *)
theory Mainloop
  imports Liveness Cache Log
begin

text \<open>
  The program around the server (\<open>main.c\<close>): options, start-up, the console, the heartbeat, the poll loop
  and the shutdown. The state \<open>world\<close> joins the states of the server, the cache and the log with the
  variables of \<open>main\<close>, and records when the cache was policed. What happens outside in one round of the loop is an \<open>event\<close>: the clock, the results of
  \<open>poll\<close>, \<open>accept\<close>, \<open>creat\<close> and \<open>read\<close>, and the file system. Scheme code typed at the console is evaluated by
  the parameter \<open>console\<close>, which says what the value or exception is and whether \<open>(exit)\<close> was called.
  The value \<open>None\<close> of a step means that it does not return; an exception that nothing catches ends
  the program, so that it is the value of the loop.
\<close>

section \<open>Options\<close>

record options =
  o_port :: int
  o_max_threads :: int
  o_background :: bool
  o_pulse :: "string option"
  o_threading :: bool

definition default_options :: options where
  "default_options =
     \<lparr>o_port = 8080, o_max_threads = 32, o_background = False, o_pulse = None, o_threading = True\<rparr>"

text \<open>
  The options that \<open>getopt\<close> finds, with their arguments. Any other one calls \<open>log_msg\<close> before \<open>init_log\<close> has
  made the mutex and set the file.
\<close>

fun parse_options :: "(char \<times> string) list \<Rightarrow> options \<Rightarrow> options res" where
  "parse_options [] o1 = Inr o1"
| "parse_options ((c, arg) # rest) o1 =
     (if c = CHR ''p'' then parse_options rest (o1\<lparr>o_port := atoi arg\<rparr>)
      else if c = CHR ''t'' then parse_options rest (o1\<lparr>o_max_threads := (if atoi arg < 1 then 1 else atoi arg)\<rparr>)
      else if c = CHR ''d'' then parse_options rest (o1\<lparr>o_background := True\<rparr>)
      else if c = CHR ''h'' then parse_options rest (o1\<lparr>o_pulse := Some arg\<rparr>)
      else if c = CHR ''s'' then parse_options rest (o1\<lparr>o_threading := False\<rparr>)
      else Inl NullDeref)"

text \<open>\<open>http_socket\<close>: the port that is bound, or nothing; \<open>htons\<close> keeps 16 bits.\<close>

definition http_socket :: "(int \<Rightarrow> bool) \<Rightarrow> bool \<Rightarrow> int \<Rightarrow> int option" where
  "http_socket can_bind can_listen port =
     (let p = port mod 2 ^ 16 in if \<not> can_bind p then None else if \<not> can_listen then None else Some p)"

section \<open>State\<close>

record world =
  w_server :: server
  w_cache :: cache
  w_log :: logger
  w_pulse :: "string option"
  w_running :: bool
  w_mark :: int
  w_nfds :: nat
  w_revents1 :: bool
  w_console :: string
  w_passes :: "int list"

definition POLICE_INTVL :: int where
  "POLICE_INTVL = 6"

text \<open>\<open>main\<close> from \<open>init_env\<close> to the loop; \<open>garbage\<close> is what the stack holds in \<open>polls[1].revents\<close>.\<close>

definition start_main :: "options \<Rightarrow> nat \<Rightarrow> int \<Rightarrow> bool \<Rightarrow> (string \<Rightarrow> string option) \<Rightarrow> world" where
  "start_main o1 cpus now garbage disk =
     (let s = (init_server (nat (o_max_threads o1)))\<lparr>sv_frames := init_frames (o_threading o1)\<rparr>
      in \<lparr>w_server = (if o_threading o1 then start_threads cpus s else s), w_cache = empty_cache,
          w_log = init_log disk, w_pulse = o_pulse o1, w_running = True, w_mark = now + POLICE_INTVL,
          w_nfds = (if o_background o1 then 1 else 2), w_revents1 = garbage, w_console = [], w_passes = []\<rparr>)"

definition exit_gusher :: "world \<Rightarrow> world" where
  "exit_gusher w = w\<lparr>w_running := False\<rparr>"

definition main_log :: "tm \<Rightarrow> string \<Rightarrow> world \<Rightarrow> world res" where
  "main_log lt m w = bindR (log_msg lt m (w_log w)) (\<lambda>l. Inr (w\<lparr>w_log := l\<rparr>))"

definition signal_handler :: "tm \<Rightarrow> string \<Rightarrow> world \<Rightarrow> world res" where
  "signal_handler lt name w =
     bindR (main_log lt (''aborted by signal '' @ name @ [LF]) w) (\<lambda>w1. Inr (exit_gusher w1))"

section \<open>The console\<close>

record console =
  co_eval :: "string \<Rightarrow> (scm \<times> scm + scm) \<times> bool"
  co_show :: "scm \<Rightarrow> string"
  co_trace :: string
  co_where :: string

definition say :: "string \<Rightarrow> world \<Rightarrow> world" where
  "say t w = w\<lparr>w_console := w_console w @ t @ [LF]\<rparr>"

text \<open>\<open>body_proc\<close> under \<open>scm_c_catch\<close> with \<open>catch_proc\<close>, which logs a backtrace.\<close>

definition eval_line :: "console \<Rightarrow> tm \<Rightarrow> string \<Rightarrow> world \<Rightarrow> world res" where
  "eval_line co lt line w =
     (let (r, quit) = co_eval co line;
          w1 = (if quit then exit_gusher w else w)
      in case r of
           Inr v \<Rightarrow> Inr (if v = SUnspec then w1 else say (co_show co v) w1)
         | Inl (key, params) \<Rightarrow>
             main_log lt (''TRACE: '' @ co_trace co @ [LF]) (say (co_show co params) (say (co_show co key) w1)))"

definition line_handler :: "console \<Rightarrow> tm \<Rightarrow> string option \<Rightarrow> world \<Rightarrow> world res" where
  "line_handler co lt line w = (case line of None \<Rightarrow> Inr (exit_gusher w) | Some l \<Rightarrow> eval_line co lt l w)"

text \<open>
  What standard input does: a terminal hands a line to readline when it is complete, with no line for
  the end of input; anything else is read, where a negative number is an error.
\<close>

datatype input = Tty "string option option" | Failed string | Data string

definition LINEBUF :: nat where
  "LINEBUF = 1024"

definition process_line :: "console \<Rightarrow> tm \<Rightarrow> buf \<Rightarrow> input \<Rightarrow> world \<Rightarrow> world res" where
  "process_line co lt junk inp w =
     (case inp of
        Tty None \<Rightarrow> Inr w
      | Tty (Some line) \<Rightarrow> line_handler co lt line w
      | Failed why \<Rightarrow> bindR (main_log lt (''err: '' @ why @ [LF]) w) (\<lambda>w1. Inl BadAccess)
      | Data [] \<Rightarrow> Inr (exit_gusher w)
      | Data d \<Rightarrow>
          bindR (wr (d @ drop (length d) junk) (length d) NUL) (\<lambda>linebuf. eval_line co lt (cstr linebuf 0) w))"

text \<open>
  \<open>load_file\<close> for the files named on the command line: \<open>ld\<close> says whether loading one raises and whether it
  calls \<open>(exit)\<close>; an exception is shown and logged, and the next file is loaded.
\<close>

definition load_file :: "(string \<Rightarrow> (scm \<times> scm) option \<times> bool) \<Rightarrow> console \<Rightarrow> tm \<Rightarrow> string \<Rightarrow> world \<Rightarrow> world res" where
  "load_file ld co lt file w =
     (let (r, quit) = ld file;
          w1 = (if quit then exit_gusher w else w)
      in case r of
           None \<Rightarrow> Inr w1
         | Some (key, params) \<Rightarrow>
             bindR (main_log lt (''WHERE: '' @ co_where co @ [LF]) (say (co_show co params) (say (co_show co key) w1)))
               (main_log lt (''TRACE: '' @ co_trace co @ [LF])))"

fun load_files :: "(string \<Rightarrow> (scm \<times> scm) option \<times> bool) \<Rightarrow> console \<Rightarrow> tm \<Rightarrow> string list \<Rightarrow> world \<Rightarrow> world res" where
  "load_files ld co lt [] w = Inr w"
| "load_files ld co lt (p # ps) w =
     bindR (main_log lt (''load '' @ p @ [LF]) w) (\<lambda>w1. bindR (load_file ld co lt p w1) (load_files ld co lt ps))"

section \<open>Heartbeat and police\<close>

definition heartbeat :: "tm \<Rightarrow> bool \<Rightarrow> int \<Rightarrow> world \<Rightarrow> world res" where
  "heartbeat lt creatable pid w =
     (case w_pulse w of
        None \<Rightarrow> Inr w
      | Some p \<Rightarrow>
          if \<not> creatable
          then bindR (main_log lt (''can'' @ [CHR 0x27] @ ''t write pulse file '' @ p @ [LF]) w) (\<lambda>w1.
                 Inr (w1\<lparr>w_pulse := None\<rparr>))
          else Inr (w\<lparr>w_log := (w_log w)\<lparr>lg_disk := (lg_disk (w_log w))(p \<mapsto> dec pid)\<rparr>\<rparr>))"

definition police :: "fsys \<Rightarrow> world \<Rightarrow> world res option" where
  "police fs w =
     (case police_cache fs (w_cache w) of
        None \<Rightarrow> None
      | Some (c, Ret _) \<Rightarrow> Some (Inr (w\<lparr>w_cache := c\<rparr>))
      | Some (c, Exc e) \<Rightarrow> Some (Inl e)
      | Some (c, Blocks) \<Rightarrow> None)"

section \<open>A connection\<close>

fun perform_all :: "nat \<Rightarrow> int \<Rightarrow> eff list \<Rightarrow> server \<Rightarrow> server res" where
  "perform_all a fd [] s = Inr s"
| "perform_all a fd (e # es) s = bindR (perform a fd e s) (perform_all a fd es)"

text \<open>\<open>process_http\<close>: without threads the request is processed at once, and nothing catches an exception.\<close>

definition serve_here :: "work \<Rightarrow> nat \<Rightarrow> server \<Rightarrow> server res option" where
  "serve_here work a s =
     (case deref (heap (sv_frames s)) a of
        Inl e \<Rightarrow> Some (Inl e)
      | Inr f \<Rightarrow>
          (case start_work work s f of
             None \<Rightarrow> None
           | Some (es, r) \<Rightarrow>
               Some (bindR (perform_all a (fr_sock f) es s) (\<lambda>s1. bindR r (\<lambda>_.
                 Inr (s1\<lparr>tcount := Suc (tcount s1), main_pc := MIdle, taken := taken s1 @ [fr_count f]\<rparr>))))))"

definition process_http :: "work \<Rightarrow> (nat \<Rightarrow> string \<times> int) \<Rightarrow> rframe \<Rightarrow> int \<Rightarrow> server \<Rightarrow> server res option" where
  "process_http work peer junk fsock s =
     (case accept_conn junk fsock s of
        Inl e \<Rightarrow> Some (Inl e)
      | Inr s1 \<Rightarrow>
          (case main_pc s1 of
             MGot a fd c \<Rightarrow>
               (case fill_frame peer a fd c s1 of
                  Inl e \<Rightarrow> Some (Inl e)
                | Inr s2 \<Rightarrow> if threading (sv_frames s2) then Some (queue_frame a s2) else serve_here work a s2)
           | _ \<Rightarrow> Some (Inr s1)))"

section \<open>The loop\<close>

record event =
  ev_now :: int
  ev_tm :: tm
  ev_creat :: bool
  ev_fs :: fsys
  ev_ready :: bool
  ev_http :: bool
  ev_stdin :: bool
  ev_accept :: "string + int"
  ev_input :: input

definition bindO :: "'a res option \<Rightarrow> ('a \<Rightarrow> 'b res option) \<Rightarrow> 'b res option" where
  "bindO m f = (case m of None \<Rightarrow> None | Some (Inl e) \<Rightarrow> Some (Inl e) | Some (Inr x) \<Rightarrow> f x)"

text \<open>What the program runs with: application, peers, console, process id and memory contents.\<close>

record setting =
  st_work :: work
  st_peer :: "nat \<Rightarrow> string \<times> int"
  st_console :: console
  st_pid :: int
  st_junk :: rframe
  st_linebuf :: buf

definition chores :: "setting \<Rightarrow> event \<Rightarrow> world \<Rightarrow> world res option" where
  "chores st ev w =
     (if ev_now ev \<ge> w_mark w
      then bindO (Some (heartbeat (ev_tm ev) (ev_creat ev) (st_pid st) (w\<lparr>w_mark := w_mark w + POLICE_INTVL\<rparr>)))
             (\<lambda>w1. police (ev_fs ev) (w1\<lparr>w_passes := w_passes w1 @ [ev_now ev]\<rparr>))
      else Some (Inr w))"

definition http_ready :: "setting \<Rightarrow> event \<Rightarrow> world \<Rightarrow> world res option" where
  "http_ready st ev w =
     (if ev_http ev
      then case ev_accept ev of
             Inl why \<Rightarrow> Some (main_log (ev_tm ev) (''accept: '' @ why @ [LF]) w)
           | Inr fsock \<Rightarrow>
               bindO (process_http (st_work st) (st_peer st) (st_junk st) fsock (w_server w))
                 (\<lambda>s. Some (Inr (w\<lparr>w_server := s\<rparr>)))
      else Some (Inr w))"

text \<open>\<open>poll\<close> writes \<open>revents\<close> of the first \<open>nfds\<close> entries only.\<close>

definition main_iter :: "setting \<Rightarrow> event \<Rightarrow> world \<Rightarrow> world res option" where
  "main_iter st ev w =
     bindO (chores st ev w) (\<lambda>w1.
       if \<not> ev_ready ev then Some (Inr w1)
       else
         let w2 = (if w_nfds w1 = 2 then w1\<lparr>w_revents1 := ev_stdin ev\<rparr> else w1) in
         bindO (http_ready st ev w2) (\<lambda>w3.
           if w_revents1 w3
           then Some (process_line (st_console st) (ev_tm ev) (st_linebuf st) (ev_input ev) w3)
           else Some (Inr w3)))"

fun main_loop :: "setting \<Rightarrow> event list \<Rightarrow> world \<Rightarrow> world res option" where
  "main_loop st [] w = Some (Inr w)"
| "main_loop st (ev # evs) w =
     (if w_running w then bindO (main_iter st ev w) (main_loop st evs) else Some (Inr w))"

section \<open>The end\<close>

definition shutdown_env :: "world \<Rightarrow> world res" where
  "shutdown_env w =
     bindR (clear_queues (sv_frames (w_server w))) (\<lambda>fr.
     bindR (shutdown_log (w_log w)) (\<lambda>l.
       Inr (w\<lparr>w_server := (w_server w)\<lparr>sv_frames := fr\<rparr>, w_cache := shutdown_cache (w_cache w), w_log := l\<rparr>)))"

definition finish_main :: "tm \<Rightarrow> world \<Rightarrow> world res" where
  "finish_main lt w =
     bindR (main_log lt (''bye!'' @ [LF]) w) (\<lambda>w1. shutdown_env (w1\<lparr>w_pulse := None\<rparr>))"

section \<open>The whole program\<close>

text \<open>
  Rounds of the main loop, steps of dispatchers, calls of the log and changes of the cache by
  handlers, and signals, in any order. \<open>accept\<close> returns a descriptor that is not in use. The paths that
  handlers give to \<open>log-to\<close> convert, and a signal does not interrupt a call of the log.
\<close>

inductive pstep :: "setting \<Rightarrow> world \<Rightarrow> world \<Rightarrow> bool" for st :: setting where
  round: "w_running w \<Longrightarrow> \<not> crashed (w_server w) \<Longrightarrow> (\<And>fd. ev_accept ev = Inr fd \<Longrightarrow> conns (w_server w) fd = None) \<Longrightarrow>
    main_iter st ev w = Some (Inr w') \<Longrightarrow> pstep st w w'"
| dispatcher: "sstep (st_work st) (st_peer st) (w_server w) s' \<Longrightarrow> main_pc s' = MIdle \<Longrightarrow> pstep st w (w\<lparr>w_server := s'\<rparr>)"
| handler: "run_op can_open why x (w_log w) = (l', r) \<Longrightarrow> paths_convert [x] \<Longrightarrow> pstep st w (w\<lparr>w_log := l', w_cache := c'\<rparr>)"
| signalled: "signal_handler lt name w = Inr w' \<Longrightarrow> pstep st w w'"

inductive program :: "setting \<Rightarrow> world \<Rightarrow> world \<Rightarrow> bool" for st :: setting and w0 :: world where
  started: "program st w0 w0"
| goes_on: "program st w0 w \<Longrightarrow> pstep st w w' \<Longrightarrow> program st w0 w'"

inductive_cases pstepE: "pstep st w w'"

section \<open>Lemmas\<close>

lemma bindO_eq_Inr [res_simps]: "bindO m f = Some (Inr y) \<longleftrightarrow> (\<exists>x. m = Some (Inr x) \<and> f x = Some (Inr y))"
  by (auto simp: bindO_def split: option.splits sum.splits)

lemma bindO_Inr [simp]: "bindO (Some (Inr x)) f = f x"
  by (simp add: bindO_def)

lemma bindO_Inl [simp]: "bindO (Some (Inl e)) f = Some (Inl e)"
  by (simp add: bindO_def)

subsection \<open>The server's part of a round\<close>

lemma process_http_steps:
  assumes "process_http work peer junk fd s = Some (Inr s')" "threading (sv_frames s)" "main_pc s = MIdle" "\<not> crashed s"
    and "conns s fd = None"
  shows "(sstep work peer)\<^sup>*\<^sup>* s s' \<and> main_pc s' = MIdle \<and> threading (sv_frames s')"
proof -
  obtain s1 where s1: "accept_conn junk fd s = Inr s1" using assms(1) by (auto simp: process_http_def split: sum.splits)
  then obtain a where a: "main_pc s1 = MGot a fd (nconns s)" "\<not> crashed s1" "threading (sv_frames s1)"
    using assms(2,4) by (auto simp: accept_conn_def bindR_eq_Inr get_frame_def split: if_splits option.splits)
  obtain s2 where s2: "fill_frame peer a fd (nconns s) s1 = Inr s2"
    using assms(1) s1 a(1) by (auto simp: process_http_def split: sum.splits)
  then have b: "main_pc s2 = MFilled a" "\<not> crashed s2" "threading (sv_frames s2)"
    using a by (auto simp: fill_frame_def bindR_eq_Inr Let_def)
  have q: "queue_frame a s2 = Inr s'" using assms(1) s1 s2 a(1) b(3) by (simp add: process_http_def)
  have "sstep work peer s s1" by (rule accept [OF assms(4,3,5) s1])
  moreover have "sstep work peer s1 s2" by (rule fill [OF a(2,1) s2])
  moreover have "sstep work peer s2 s'" by (rule queue [OF b(2,1) q])
  moreover have "main_pc s' = MIdle" "threading (sv_frames s')"
    using q b(3)
    by (auto simp: queue_frame_def add_thread_def bindR_eq_Inr enqueue_frame_def Let_def split: if_splits option.splits)
  ultimately show ?thesis by (meson converse_rtranclp_into_rtranclp rtranclp.rtrancl_refl)
qed

lemma steps_reachable: "(sstep work peer)\<^sup>*\<^sup>* s s' \<Longrightarrow> reachable work peer maxt cpus s \<Longrightarrow> reachable work peer maxt cpus s'"
  by (induction rule: rtranclp_induct) (auto intro: further)

subsection \<open>What the other parts leave alone\<close>

lemma main_log_keeps:
  assumes "main_log lt m w = Inr w'" "log_inv (w_log w)"
  shows "log_inv (w_log w')" "w_server w' = w_server w" "w_cache w' = w_cache w" "w_mark w' = w_mark w"
    "w_passes w' = w_passes w" "w_running w' = w_running w" "w_nfds w' = w_nfds w" "w_revents1 w' = w_revents1 w"
  using assms jl.put_keeps [OF assms(2)] by (auto simp: main_log_def bindR_eq_Inr)

lemma main_log_returns: "log_inv (w_log w) \<Longrightarrow> \<exists>w'. main_log lt m w = Inr w'"
  using jl.put_returns [of "w_log w" lt m] by (auto simp: main_log_def)

definition console_only :: "world \<Rightarrow> world \<Rightarrow> bool" where
  "console_only w w' \<longleftrightarrow> log_inv (w_log w') \<and> w_server w' = w_server w \<and> w_cache w' = w_cache w \<and>
     w_mark w' = w_mark w \<and> w_passes w' = w_passes w \<and> w_nfds w' = w_nfds w \<and> w_revents1 w' = w_revents1 w"

lemma eval_line_keeps: "eval_line co lt line w = Inr w' \<Longrightarrow> log_inv (w_log w) \<Longrightarrow> console_only w w'"
proof -
  assume e: "eval_line co lt line w = Inr w'" "log_inv (w_log w)"
  obtain r quit where r: "co_eval co line = (r, quit)" by fastforce
  let ?w1 = "if quit then exit_gusher w else w"
  have w1: "console_only w ?w1" using e(2) by (simp add: console_only_def exit_gusher_def)
  show ?thesis
  proof (cases r)
    case (Inl kp)
    let ?w2 = "say (co_show co (snd kp)) (say (co_show co (fst kp)) ?w1)"
    have "main_log lt (''TRACE: '' @ co_trace co @ [LF]) ?w2 = Inr w'"
      using e(1) r Inl by (simp add: eval_line_def case_prod_beta split: if_splits)
    moreover have "console_only w ?w2" using w1 by (simp add: console_only_def say_def)
    ultimately show ?thesis using main_log_keeps [of lt _ ?w2 w'] by (simp add: console_only_def)
  next
    case (Inr v)
    then have "w' = (if v = SUnspec then ?w1 else say (co_show co v) ?w1)"
      using e(1) r by (simp add: eval_line_def Let_def split: if_splits)
    then show ?thesis using w1 by (simp add: console_only_def say_def)
  qed
qed

text \<open>No file can keep the server from starting.\<close>

lemma load_file_ok:
  assumes "log_inv (w_log w)"
  shows "\<exists>w'. load_file ld co lt p w = Inr w' \<and> console_only w w'"
proof -
  obtain r quit where r: "ld p = (r, quit)" by fastforce
  let ?w1 = "if quit then exit_gusher w else w"
  show ?thesis
  proof (cases r)
    case None
    then show ?thesis using r assms by (auto simp: load_file_def console_only_def exit_gusher_def)
  next
    case (Some kp)
    let ?w2 = "say (co_show co (snd kp)) (say (co_show co (fst kp)) ?w1)"
    have c2: "console_only w ?w2" using assms by (simp add: console_only_def say_def exit_gusher_def)
    then have l2: "log_inv (w_log ?w2)" by (simp add: console_only_def)
    obtain w3 where w3: "main_log lt (''WHERE: '' @ co_where co @ [LF]) ?w2 = Inr w3" using main_log_returns [OF l2] by blast
    note k3 = main_log_keeps [OF w3 l2]
    obtain w4 where w4: "main_log lt (''TRACE: '' @ co_trace co @ [LF]) w3 = Inr w4" using main_log_returns [OF k3(1)] by blast
    note k4 = main_log_keeps [OF w4 k3(1)]
    have "console_only w w4" using c2 k3 k4 by (simp add: console_only_def)
    moreover have "load_file ld co lt p w = Inr w4"
      using r Some w3 w4 by (cases kp) (simp add: load_file_def Let_def split: if_splits)
    ultimately show ?thesis by blast
  qed
qed

lemma load_files_ok:
  "log_inv (w_log w) \<Longrightarrow> \<exists>w'. load_files ld co lt ps w = Inr w' \<and> console_only w w'"
proof (induction ps arbitrary: w)
  case Nil
  then show ?case by (simp add: console_only_def)
next
  case (Cons p ps)
  obtain w1 where w1: "main_log lt (''load '' @ p @ [LF]) w = Inr w1" using main_log_returns [OF Cons.prems] by blast
  note k1 = main_log_keeps [OF w1 Cons.prems]
  obtain w2 where w2: "load_file ld co lt p w1 = Inr w2" "console_only w1 w2" using load_file_ok [OF k1(1)] by blast
  have "log_inv (w_log w2)" using w2(2) by (simp add: console_only_def)
  then obtain w3 where w3: "load_files ld co lt ps w2 = Inr w3" "console_only w2 w3" using Cons.IH by blast
  have "console_only w w3" using w2(2) w3(2) k1 by (simp add: console_only_def)
  then show ?case using w1 w2(1) w3(1) by simp
qed

lemma process_line_keeps:
  assumes "process_line co lt junk inp w = Inr w'" "log_inv (w_log w)"
  shows "console_only w w'"
proof (cases inp)
  case (Tty line)
  then show ?thesis
    using assms eval_line_keeps
    by (cases line) (auto simp: process_line_def line_handler_def exit_gusher_def console_only_def split: option.splits)
next
  case (Failed why)
  then show ?thesis using assms(1) by (simp add: process_line_def bindR_eq_Inr)
next
  case (Data d)
  then show ?thesis
    using assms eval_line_keeps
    by (cases d) (auto simp: process_line_def exit_gusher_def console_only_def bindR_eq_Inr)
qed

lemma heartbeat_keeps:
  assumes "heartbeat lt ok pid w = Inr w'" "log_inv (w_log w)"
  shows "console_only w w'"
proof (cases "w_pulse w")
  case None
  then show ?thesis using assms by (simp add: heartbeat_def console_only_def)
next
  case (Some p)
  show ?thesis
  proof (cases ok)
    case True
    have "log_inv ((w_log w)\<lparr>lg_disk := d\<rparr>)" for d
      using assms(2) by (cases "logfile (w_log w)") (simp_all add: log_inv_def is_open_def)
    then show ?thesis using assms Some True by (auto simp: heartbeat_def console_only_def)
  next
    case False
    let ?t = "''can'' @ [CHR 0x27] @ ''t write pulse file '' @ p @ [LF]"
    obtain w1 where "main_log lt ?t w = Inr w1" "w' = w1\<lparr>w_pulse := None\<rparr>"
      using assms(1) Some False by (auto simp: heartbeat_def bindR_eq_Inr)
    then show ?thesis using main_log_keeps [of lt ?t w w1] assms(2) by (simp add: console_only_def)
  qed
qed

lemma police_keeps:
  "police fs w = Some (Inr w') \<Longrightarrow> \<exists>c. w' = w\<lparr>w_cache := c\<rparr>"
  by (auto simp: police_def split: option.splits run.splits)

lemma chores_keep:
  assumes "chores st ev w = Some (Inr w')" "log_inv (w_log w)"
  shows "w_server w' = w_server w" "log_inv (w_log w')" "w_nfds w' = w_nfds w" "w_revents1 w' = w_revents1 w"
    "w_mark w' = (if ev_now ev \<ge> w_mark w then w_mark w + POLICE_INTVL else w_mark w)"
    "w_passes w' = (if ev_now ev \<ge> w_mark w then w_passes w @ [ev_now ev] else w_passes w)"
proof -
  have "w_server w' = w_server w \<and> log_inv (w_log w') \<and> w_nfds w' = w_nfds w \<and> w_revents1 w' = w_revents1 w \<and>
    w_mark w' = (if ev_now ev \<ge> w_mark w then w_mark w + POLICE_INTVL else w_mark w) \<and>
    w_passes w' = (if ev_now ev \<ge> w_mark w then w_passes w @ [ev_now ev] else w_passes w)"
  proof (cases "ev_now ev \<ge> w_mark w")
    case True
    then obtain w1 where h: "heartbeat (ev_tm ev) (ev_creat ev) (st_pid st) (w\<lparr>w_mark := w_mark w + POLICE_INTVL\<rparr>) = Inr w1"
      and pl: "police (ev_fs ev) (w1\<lparr>w_passes := w_passes w1 @ [ev_now ev]\<rparr>) = Some (Inr w')"
      using assms(1) by (auto simp: chores_def bindO_eq_Inr)
    have "console_only (w\<lparr>w_mark := w_mark w + POLICE_INTVL\<rparr>) w1"
      by (rule heartbeat_keeps [OF h]) (use assms(2) in simp)
    then show ?thesis using police_keeps [OF pl] True by (auto simp: console_only_def)
  next
    case False
    then show ?thesis using assms by (simp add: chores_def)
  qed
  then show "w_server w' = w_server w" "log_inv (w_log w')" "w_nfds w' = w_nfds w" "w_revents1 w' = w_revents1 w"
    "w_mark w' = (if ev_now ev \<ge> w_mark w then w_mark w + POLICE_INTVL else w_mark w)"
    "w_passes w' = (if ev_now ev \<ge> w_mark w then w_passes w @ [ev_now ev] else w_passes w)" by simp_all
qed

lemma http_ready_keeps:
  assumes "http_ready st ev w = Some (Inr w')" "log_inv (w_log w)"
  shows "log_inv (w_log w')" "w_nfds w' = w_nfds w" "w_revents1 w' = w_revents1 w" "w_mark w' = w_mark w"
    "w_passes w' = w_passes w"
    "w_server w' = w_server w \<or>
     (\<exists>fd. ev_accept ev = Inr fd \<and> process_http (st_work st) (st_peer st) (st_junk st) fd (w_server w) = Some (Inr (w_server w')))"
proof -
  have "log_inv (w_log w') \<and> w_nfds w' = w_nfds w \<and> w_revents1 w' = w_revents1 w \<and> w_mark w' = w_mark w \<and>
    w_passes w' = w_passes w \<and> (w_server w' = w_server w \<or>
     (\<exists>fd. ev_accept ev = Inr fd \<and> process_http (st_work st) (st_peer st) (st_junk st) fd (w_server w) = Some (Inr (w_server w'))))"
  proof (cases "ev_http ev")
    case True
    show ?thesis
    proof (cases "ev_accept ev")
      case (Inl why)
      then have "main_log (ev_tm ev) (''accept: '' @ why @ [LF]) w = Inr w'" using assms(1) True by (simp add: http_ready_def)
      then show ?thesis using main_log_keeps [OF _ assms(2)] by metis
    next
      case (Inr fd)
      then show ?thesis using assms True by (auto simp: http_ready_def bindO_eq_Inr)
    qed
  qed (use assms in \<open>simp add: http_ready_def\<close>)
  then show "log_inv (w_log w')" "w_nfds w' = w_nfds w" "w_revents1 w' = w_revents1 w" "w_mark w' = w_mark w"
    "w_passes w' = w_passes w"
    "w_server w' = w_server w \<or>
     (\<exists>fd. ev_accept ev = Inr fd \<and> process_http (st_work st) (st_peer st) (st_junk st) fd (w_server w) = Some (Inr (w_server w')))"
    by blast+
qed

lemma main_iter_keeps:
  assumes "main_iter st ev w = Some (Inr w')" "log_inv (w_log w)"
  shows "log_inv (w_log w')"
    "w_mark w' = (if ev_now ev \<ge> w_mark w then w_mark w + POLICE_INTVL else w_mark w)"
    "w_passes w' = (if ev_now ev \<ge> w_mark w then w_passes w @ [ev_now ev] else w_passes w)"
    "w_server w' = w_server w \<or>
     (\<exists>fd. ev_accept ev = Inr fd \<and> process_http (st_work st) (st_peer st) (st_junk st) fd (w_server w) = Some (Inr (w_server w')))"
proof -
  obtain w1 where w1: "chores st ev w = Some (Inr w1)" using assms(1) by (auto simp: main_iter_def bindO_eq_Inr)
  note c = chores_keep [OF w1 assms(2)]
  have "log_inv (w_log w') \<and> w_mark w' = w_mark w1 \<and> w_passes w' = w_passes w1 \<and>
    (w_server w' = w_server w \<or> (\<exists>fd. ev_accept ev = Inr fd \<and>
       process_http (st_work st) (st_peer st) (st_junk st) fd (w_server w) = Some (Inr (w_server w'))))"
  proof (cases "ev_ready ev")
    case False
    then show ?thesis using assms(1) w1 c by (simp add: main_iter_def)
  next
    case True
    define w2 where "w2 = (if w_nfds w1 = 2 then w1\<lparr>w_revents1 := ev_stdin ev\<rparr> else w1)"
    have w2: "w_server w2 = w_server w" "log_inv (w_log w2)" "w_mark w2 = w_mark w1" "w_passes w2 = w_passes w1"
      using c by (simp_all add: w2_def)
    have "bindO (http_ready st ev w2) (\<lambda>w3. if w_revents1 w3
        then Some (process_line (st_console st) (ev_tm ev) (st_linebuf st) (ev_input ev) w3) else Some (Inr w3)) = Some (Inr w')"
      using assms(1) w1 True by (simp add: main_iter_def Let_def w2_def)
    then obtain w3 where w3: "http_ready st ev w2 = Some (Inr w3)"
      and l: "w_revents1 w3 \<longrightarrow> process_line (st_console st) (ev_tm ev) (st_linebuf st) (ev_input ev) w3 = Inr w'"
        "\<not> w_revents1 w3 \<longrightarrow> w' = w3"
      by (auto simp: bindO_eq_Inr split: if_splits)
    note h = http_ready_keeps [OF w3 w2(2)]
    have "console_only w3 w'"
      using l process_line_keeps [OF _ h(1)] h(1) by (cases "w_revents1 w3") (auto simp: console_only_def)
    then show ?thesis using h w2 by (simp add: console_only_def)
  qed
  then show "log_inv (w_log w')"
    "w_mark w' = (if ev_now ev \<ge> w_mark w then w_mark w + POLICE_INTVL else w_mark w)"
    "w_passes w' = (if ev_now ev \<ge> w_mark w then w_passes w @ [ev_now ev] else w_passes w)"
    "w_server w' = w_server w \<or>
     (\<exists>fd. ev_accept ev = Inr fd \<and> process_http (st_work st) (st_peer st) (st_junk st) fd (w_server w) = Some (Inr (w_server w')))"
    using c(5,6) by simp_all
qed

lemma options_positive:
  "parse_options os o1 = Inr o2 \<Longrightarrow> 1 \<le> o_max_threads o1 \<Longrightarrow> 1 \<le> o_max_threads o2"
  by (induction os o1 rule: parse_options.induct) (auto split: if_splits)

definition in_step :: "setting \<Rightarrow> nat \<Rightarrow> nat \<Rightarrow> world \<Rightarrow> bool" where
  "in_step st maxt cpus w \<longleftrightarrow> reachable (st_work st) (st_peer st) maxt cpus (w_server w) \<and>
     main_pc (w_server w) = MIdle \<and> threading (sv_frames (w_server w)) \<and> log_inv (w_log w)"

lemma sstep_threading: "sstep work peer s s' \<Longrightarrow> threading (sv_frames s) \<Longrightarrow> threading (sv_frames s')"
  by (induction rule: sstep.induct)
    (auto simp: accept_conn_def fill_frame_def queue_frame_def add_thread_def take_frame_def perform_def catch_send_def
      catch_close_def send_to_def close_fd_def set_worker_def bindR_eq_Inr Let_def get_frame_def release_frame_def
      enqueue_frame_def dequeue_frame_def split: option.splits eff.splits if_splits)

lemma in_step_pstep:
  assumes "pstep st w w'" "in_step st maxt cpus w"
  shows "in_step st maxt cpus w'"
  using assms(1)
proof (rule pstepE)
  fix ev
  assume r: "w_running w" "\<not> crashed (w_server w)" "\<And>fd. ev_accept ev = Inr fd \<Longrightarrow> conns (w_server w) fd = None"
    "main_iter st ev w = Some (Inr w')"
  have li: "log_inv (w_log w)" using assms(2) by (simp add: in_step_def)
  note k = main_iter_keeps [OF r(4) li]
  from k(4) show ?thesis
  proof
    assume "w_server w' = w_server w"
    then show ?thesis using assms(2) k(1) by (simp add: in_step_def)
  next
    assume "\<exists>fd. ev_accept ev = Inr fd \<and>
      process_http (st_work st) (st_peer st) (st_junk st) fd (w_server w) = Some (Inr (w_server w'))"
    then obtain fd where "ev_accept ev = Inr fd"
      "process_http (st_work st) (st_peer st) (st_junk st) fd (w_server w) = Some (Inr (w_server w'))" by blast
    then show ?thesis
      using process_http_steps [of "st_work st" "st_peer st" "st_junk st" fd "w_server w" "w_server w'"]
        steps_reachable r(2,3) assms(2) k(1) by (auto simp: in_step_def)
  qed
next
  fix s'
  assume "w' = w\<lparr>w_server := s'\<rparr>" "sstep (st_work st) (st_peer st) (w_server w) s'" "main_pc s' = MIdle"
  then show ?thesis using assms(2) sstep_threading by (auto simp: in_step_def intro: further)
next
  fix can_open why x l' r c'
  assume "w' = w\<lparr>w_log := l', w_cache := c'\<rparr>" "run_op can_open why x (w_log w) = (l', r)" "paths_convert [x]"
  then show ?thesis using assms(2) run_op_refines [of "w_log w" x can_open why] by (auto simp: in_step_def)
next
  fix lt name
  assume "signal_handler lt name w = Inr w'"
  then obtain w1 where "main_log lt (''aborted by signal '' @ name @ [LF]) w = Inr w1" "w' = exit_gusher w1"
    by (auto simp: signal_handler_def bindR_eq_Inr)
  then show ?thesis
    using main_log_keeps [of lt _ w w1] assms(2) by (auto simp: in_step_def exit_gusher_def)
qed

lemma in_step_start:
  assumes "o_threading o1"
  shows "in_step st (nat (o_max_threads o1)) cpus (start_main o1 cpus now garbage disk)"
proof -
  have e: "(init_server n)\<lparr>sv_frames := init_frames True\<rparr> = init_server n" for n by (simp add: init_server_def)
  have k: "main_pc (start_threads n s) = main_pc s \<and> sv_frames (start_threads n s) = sv_frames s" for n s
    by (induction n arbitrary: s) (simp_all add: add_thread_def)
  show ?thesis
    using assms k start by (simp add: in_step_def start_main_def e Let_def log_inv_def init_log_def)
      (simp add: init_server_def init_frames_def)
qed

lemma in_step_program: "program st w0 w \<Longrightarrow> in_step st maxt cpus w0 \<Longrightarrow> in_step st maxt cpus w"
  by (induction rule: program.induct) (auto intro: in_step_pstep)

lemma process_http_returns:
  assumes "sinv False s" "main_pc s = MIdle" "threading (sv_frames s)"
  shows "\<exists>s'. process_http work peer junk fd s = Some (Inr s')"
proof -
  obtain qs ps own where at: "sinv_at False s qs ps own" using assms(1) unfolding sinv_def by blast
  obtain s1 where s1: "accept_conn junk fd s = Inr s1" "sinv False s1" using sinv_accept [OF at assms(2)] by blast
  then obtain a where a: "main_pc s1 = MGot a fd (nconns s)" "threading (sv_frames s1)"
    using assms(3) by (auto simp: accept_conn_def bindR_eq_Inr get_frame_def split: if_splits option.splits)
  obtain qs1 ps1 own1 where at1: "sinv_at False s1 qs1 ps1 own1" using s1(2) unfolding sinv_def by blast
  obtain s2 where s2: "fill_frame peer a fd (nconns s) s1 = Inr s2" "sinv False s2" using sinv_fill [OF at1 a(1)] by blast
  then have b: "main_pc s2 = MFilled a" "threading (sv_frames s2)" using a by (auto simp: fill_frame_def bindR_eq_Inr Let_def)
  obtain qs2 ps2 own2 where at2: "sinv_at False s2 qs2 ps2 own2" using s2(2) unfolding sinv_def by blast
  obtain s3 where "queue_frame a s2 = Inr s3" using sinv_queue [OF at2 b(1)] by blast
  then show ?thesis using s1(1) a(1) s2(1) b(2) by (simp add: process_http_def)
qed

section \<open>Keeping time\<close>

fun steady :: "int \<Rightarrow> int \<Rightarrow> int list \<Rightarrow> bool" where
  "steady d t [] = True"
| "steady d t (u # us) \<longleftrightarrow> t \<le> u \<and> u \<le> t + d \<and> steady d u us"

definition on_time :: "int \<Rightarrow> int \<Rightarrow> int list \<Rightarrow> bool" where
  "on_time t0 d ps \<longleftrightarrow>
     (\<forall>k \<in> set [0..<length ps]. t0 + POLICE_INTVL * (int k + 1) \<le> ps ! k \<and> ps ! k < t0 + POLICE_INTVL * (int k + 1) + d)"

lemma on_time_snoc:
  "on_time t0 d (ps @ [t]) \<longleftrightarrow> on_time t0 d ps \<and> t0 + POLICE_INTVL * (int (length ps) + 1) \<le> t \<and>
     t < t0 + POLICE_INTVL * (int (length ps) + 1) + d"
  by (auto simp: on_time_def nth_append less_Suc_eq)

lemma main_loop_time:
  assumes "main_loop st evs w = Some (Inr w')" "log_inv (w_log w)" "steady d t (map ev_now evs)" "d \<le> POLICE_INTVL"
    and "t < w_mark w" "w_mark w = t0 + POLICE_INTVL * (int (length (w_passes w)) + 1)" "on_time t0 d (w_passes w)"
  shows "on_time t0 d (w_passes w') \<and> w_mark w' = t0 + POLICE_INTVL * (int (length (w_passes w')) + 1) \<and>
    (w_running w' \<longrightarrow> last (t # map ev_now evs) < w_mark w')"
  using assms
proof (induction evs arbitrary: w t)
  case (Cons ev evs)
  show ?case
  proof (cases "w_running w")
    case False
    then show ?thesis using Cons.prems by simp
  next
    case True
    then obtain w1 where w1: "main_iter st ev w = Some (Inr w1)" "main_loop st evs w1 = Some (Inr w')"
      using Cons.prems(1) by (auto simp: bindO_eq_Inr)
    note k = main_iter_keeps [OF w1(1) Cons.prems(2)]
    let ?u = "ev_now ev"
    have u: "t \<le> ?u" "?u \<le> t + d" "steady d ?u (map ev_now evs)" using Cons.prems(3) by simp_all
    have p: "0 < POLICE_INTVL" by (simp add: POLICE_INTVL_def)
    have "?u < w_mark w1" using k(2) u(2) Cons.prems(4,5) by (cases "?u \<ge> w_mark w") auto
    moreover have "w_mark w1 = t0 + POLICE_INTVL * (int (length (w_passes w1)) + 1)"
      using k(2,3) Cons.prems(6) by (auto simp: algebra_simps)
    moreover have "on_time t0 d (w_passes w1)"
      using k(3) Cons.prems(5-7) u(2) by (auto simp: on_time_snoc)
    ultimately have fin: "on_time t0 d (w_passes w') \<and> w_mark w' = t0 + POLICE_INTVL * (int (length (w_passes w')) + 1) \<and>
        (w_running w' \<longrightarrow> last (?u # map ev_now evs) < w_mark w')"
      using Cons.IH [OF w1(2) k(1) u(3) Cons.prems(4)] by blast
    have l: "last (t # map ev_now (ev # evs)) = last (?u # map ev_now evs)" by simp
    show ?thesis unfolding l by (rule fin)
  qed
qed simp

section \<open>Without threads\<close>

text \<open>A server that handles one connection after the other; \<open>newfd\<close> picks a descriptor that is not in use.\<close>

fun serve_n :: "work \<Rightarrow> (nat \<Rightarrow> string \<times> int) \<Rightarrow> rframe \<Rightarrow> ((int \<rightharpoonup> nat) \<Rightarrow> int) \<Rightarrow> nat \<Rightarrow> server \<Rightarrow> server res option" where
  "serve_n work peer junk newfd 0 s = Some (Inr s)"
| "serve_n work peer junk newfd (Suc n) s =
     bindO (process_http work peer junk (newfd (conns s)) s) (serve_n work peer junk newfd n)"

definition alone :: "server \<Rightarrow> bool" where
  "alone s \<longleftrightarrow> \<not> threading (sv_frames s) \<and> live (heap (sv_frames s)) one_frame \<and> finite (dom (conns s)) \<and>
     (\<forall>x \<in> set (out s). \<exists>c < nconns s. fst x = Some c)"

lemma perform_alone:
  assumes "\<not> threading (sv_frames s)"
  shows "\<exists>s'. perform a fd e s = Inr s' \<and> sv_frames s' = sv_frames s \<and> nconns s' = nconns s \<and> tcount s' = tcount s \<and>
    taken s' = taken s \<and> conns s' = (if e = CloseE then (conns s)(fd := None) else conns s) \<and>
    out s' = out s @ (case e of SendE m \<Rightarrow> [(conns s fd, m)] | _ \<Rightarrow> [])"
  using assms by (cases e) (auto simp: perform_def release_frame_def send_to_def close_fd_def)

lemma perform_all_alone:
  assumes "\<not> threading (sv_frames s)" "conns s fd = Some c" "CloseE \<notin> set (butlast es)"
  shows "\<exists>s'. perform_all a fd es s = Inr s' \<and> sv_frames s' = sv_frames s \<and> nconns s' = nconns s \<and> tcount s' = tcount s \<and>
    taken s' = taken s \<and> dom (conns s') \<subseteq> dom (conns s) \<and>
    (\<exists>ms. out s' = out s @ map (Pair (Some c)) ms \<and> concat ms = sent es)"
  using assms
proof (induction es arbitrary: s)
  case (Cons e es)
  obtain s1 where s1: "perform a fd e s = Inr s1" "sv_frames s1 = sv_frames s" "nconns s1 = nconns s" "tcount s1 = tcount s"
      "taken s1 = taken s" "conns s1 = (if e = CloseE then (conns s)(fd := None) else conns s)"
      "out s1 = out s @ (case e of SendE m \<Rightarrow> [(conns s fd, m)] | _ \<Rightarrow> [])"
    using perform_alone [OF Cons.prems(1)] by blast
  show ?case
  proof (cases "es = []")
    case True
    have "\<exists>ms. out s1 = out s @ map (Pair (Some c)) ms \<and> concat ms = sent [e]"
      using s1(7) Cons.prems(2) by (cases e) (auto intro: exI [of _ "[]"] exI [of _ "[_]"])
    moreover have "dom (conns s1) \<subseteq> dom (conns s)" using s1(6) by auto
    ultimately show ?thesis using True s1(1-5) by (simp del: sent.simps)
  next
    case False
    then have e: "e \<noteq> CloseE" "CloseE \<notin> set (butlast es)" using Cons.prems(3) by auto
    have "conns s1 fd = Some c" using s1(6) e(1) Cons.prems(2) by simp
    then obtain s' ms where s': "perform_all a fd es s1 = Inr s'" "sv_frames s' = sv_frames s1" "nconns s' = nconns s1"
        "tcount s' = tcount s1" "taken s' = taken s1" "out s' = out s1 @ map (Pair (Some c)) ms" "concat ms = sent es"
        "dom (conns s') \<subseteq> dom (conns s1)"
      using Cons.IH [of s1] e(2) Cons.prems(1) s1(2) by auto
    have "\<exists>ms0. out s1 = out s @ map (Pair (Some c)) ms0 \<and> concat ms0 @ sent es = sent (e # es)"
      using s1(7) Cons.prems(2) by (cases e) (auto intro: exI [of _ "[]"] exI [of _ "[_]"])
    then obtain ms0 where "out s1 = out s @ map (Pair (Some c)) ms0" "concat ms0 @ sent es = sent (e # es)" by blast
    then have "out s' = out s @ map (Pair (Some c)) (ms0 @ ms) \<and> concat (ms0 @ ms) = sent (e # es)"
      using s'(6,7) by simp
    moreover have "dom (conns s') \<subseteq> dom (conns s)" using s'(8) s1(6) e(1) by simp
    moreover have "perform_all a fd (e # es) s = Inr s'" using s1(1) s'(1) by simp
    ultimately show ?thesis using s1(2-5) s'(2-5) by (metis (no_types, lifting))
  qed
qed (auto intro: exI [of _ "[]"])

lemma shaped_butlast: "shaped es r \<Longrightarrow> CloseE \<notin> set (butlast es)"
proof -
  assume sh: "shaped es r"
  have "False" if c: "CloseE \<in> set (butlast es)"
  proof -
    obtain xs ys where "butlast es = xs @ CloseE # ys" using split_list [OF c] by blast
    then have "es = xs @ CloseE # (ys @ [last es])"
      using c by (metis append_Cons append_assoc append_butlast_last_id butlast.simps(1) list.set(1) empty_iff)
    then show False using shaped_close [of xs "ys @ [last es]" r] sh by simp
  qed
  then show ?thesis by blast
qed

lemma bytes_to_sends: "bytes_to c (lg @ map (Pair (Some d)) ms) = bytes_to c lg @ (if c = d then concat ms else [])"
  by (induction ms arbitrary: lg rule: rev_induct)
    (auto simp: bytes_to_def)

lemma serve_here_alone:
  assumes "alone s" "deref (heap (sv_frames s)) one_frame = Inr f" "conns s (fr_sock f) = Some c" "c < nconns s"
    and "work c (fr_ipaddr f) (fr_rport f) = Some (es, r)" "shaped es r"
  shows "\<exists>s1 ms. serve_here work one_frame s =
      Some (bindR r (\<lambda>_. Inr (s1\<lparr>tcount := Suc (tcount s), main_pc := MIdle, taken := taken s @ [fr_count f]\<rparr>))) \<and>
    alone s1 \<and> nconns s1 = nconns s \<and> out s1 = out s @ map (Pair (Some c)) ms \<and> concat ms = sent es"
proof -
  obtain s1 ms where p: "perform_all one_frame (fr_sock f) es s = Inr s1" "sv_frames s1 = sv_frames s" "nconns s1 = nconns s"
      "tcount s1 = tcount s" "taken s1 = taken s" "out s1 = out s @ map (Pair (Some c)) ms" "concat ms = sent es"
      "dom (conns s1) \<subseteq> dom (conns s)"
    using perform_all_alone [OF _ assms(3) shaped_butlast [OF assms(6)], of one_frame] assms(1)
    unfolding alone_def by metis
  have "finite (dom (conns s1))" using assms(1) p(8) finite_subset by (auto simp: alone_def)
  then have "alone s1" using assms(1,4) p(2,3,6) by (auto simp: alone_def)
  moreover have "start_work work s f = Some (es, r)" using assms(3,5) by (simp add: start_work_def)
  ultimately show ?thesis using assms(2) p by (intro exI [of _ s1] exI [of _ ms]) (simp add: serve_here_def)
qed

lemma process_http_alone:
  assumes "alone s" "conns s fd = None" "work (nconns s) (fst (peer (nconns s))) (snd (peer (nconns s))) = Some (es, r)"
    and "shaped es r"
  shows "\<exists>s1 ms. process_http work peer junk fd s = Some (bindR r (\<lambda>_. Inr s1)) \<and> alone s1 \<and> nconns s1 = Suc (nconns s) \<and>
    out s1 = out s @ map (Pair (Some (nconns s))) ms \<and> concat ms = sent es"
proof -
  let ?h = "heap (sv_frames s)" and ?c = "nconns s"
  obtain g where g: "deref ?h one_frame = Inr g" using assms(1) deref_live [of ?h one_frame] by (auto simp: alone_def)
  have len: "one_frame < length ?h" using g by (simp add: deref_Inr)
  define s2 where "s2 = s\<lparr>conns := (conns s)(fd \<mapsto> ?c), nconns := Suc ?c, sv_frames := (sv_frames s)\<lparr>heap :=
      ?h[one_frame := Some (g\<lparr>fr_sock := fd, fr_ipaddr := fst (peer ?c), fr_rport := snd (peer ?c), fr_count := tcount s\<rparr>)]\<rparr>,
      main_pc := MFilled one_frame\<rparr>"
  have e: "process_http work peer junk fd s = serve_here work one_frame s2"
    using assms(1) g by (simp add: process_http_def accept_conn_def get_frame_def alone_def fill_frame_def s2_def)
  have a: "alone s2" using assms(1) len by (auto simp: alone_def s2_def live_def less_Suc_eq)
  have d: "deref (heap (sv_frames s2)) one_frame = Inr (g\<lparr>fr_sock := fd, fr_ipaddr := fst (peer ?c), fr_rport := snd (peer ?c), fr_count := tcount s\<rparr>)"
    using len by (simp add: deref_Inr s2_def)
  obtain s3 ms where s3: "serve_here work one_frame s2 = Some (bindR r (\<lambda>_.
        Inr (s3\<lparr>tcount := Suc (tcount s2), main_pc := MIdle, taken := taken s2 @ [tcount s]\<rparr>)))"
      "alone s3" "nconns s3 = Suc ?c" "out s3 = out s @ map (Pair (Some ?c)) ms" "concat ms = sent es"
    using serve_here_alone [OF a d, of ?c work es r] assms(3,4) by (auto simp: s2_def)
  let ?s = "s3\<lparr>tcount := Suc (tcount s2), main_pc := MIdle, taken := taken s2 @ [tcount s]\<rparr>"
  have "alone ?s" using s3(2) by (simp add: alone_def)
  then show ?thesis using e s3 by (intro exI [of _ ?s] exI [of _ ms]) simp
qed

lemma serve_n_answers:
  assumes "\<forall>K. finite (dom K) \<longrightarrow> K (newfd K) = None" "\<forall>c ip p es r. work c ip p = Some (es, r) \<longrightarrow> shaped es r"
    and "alone s" "\<forall>c < nconns s. bytes_to c (out s) = expected work peer c"
    and "\<forall>c < nconns s + n. \<exists>es. work c (fst (peer c)) (snd (peer c)) = Some (es, Inr ())"
  shows "\<exists>s'. serve_n work peer junk newfd n s = Some (Inr s') \<and> alone s' \<and> nconns s' = nconns s + n \<and>
    (\<forall>c < nconns s + n. bytes_to c (out s') = expected work peer c)"
  using assms(3-)
proof (induction n arbitrary: s)
  case (Suc n)
  let ?c = "nconns s"
  obtain es where es: "work ?c (fst (peer ?c)) (snd (peer ?c)) = Some (es, Inr ())"
    using Suc.prems(3) [rule_format, of ?c] by auto
  have fd: "conns s (newfd (conns s)) = None" using assms(1) Suc.prems(1) by (simp add: alone_def)
  have sh: "shaped es (Inr ())" using assms(2) es by blast
  obtain s1 ms where s1: "process_http work peer junk (newfd (conns s)) s = Some (Inr s1)" "alone s1" "nconns s1 = Suc ?c"
      "out s1 = out s @ map (Pair (Some ?c)) ms" "concat ms = sent es"
    using process_http_alone [of s "newfd (conns s)" work peer es "Inr ()" junk, OF Suc.prems(1) fd es sh] by auto
  have none: "bytes_to ?c (out s) = []"
    using Suc.prems(1) by (force simp: alone_def bytes_to_def filter_empty_conv)
  have "bytes_to c (out s1) = expected work peer c" if "c < Suc ?c" for c
  proof (cases "c = ?c")
    case True
    then show ?thesis using s1(4,5) none es by (simp add: bytes_to_sends expected_def is_throw_def)
  next
    case False
    then show ?thesis using that Suc.prems(2) s1(4) by (simp add: bytes_to_sends)
  qed
  then obtain s' where "serve_n work peer junk newfd n s1 = Some (Inr s')" "alone s'" "nconns s' = Suc ?c + n"
      "\<forall>c < Suc ?c + n. bytes_to c (out s') = expected work peer c"
    using Suc.IH [OF s1(2)] s1(3) Suc.prems(3) by auto
  then show ?case using s1(1) by auto
qed simp

lemma chores_running: "chores st ev w = Some (Inr w') \<Longrightarrow> log_inv (w_log w) \<Longrightarrow> w_running w' = w_running w"
proof (cases "ev_now ev \<ge> w_mark w")
  case True
  assume c: "chores st ev w = Some (Inr w')" "log_inv (w_log w)"
  let ?w = "w\<lparr>w_mark := w_mark w + POLICE_INTVL\<rparr>"
  obtain w1 where h: "heartbeat (ev_tm ev) (ev_creat ev) (st_pid st) ?w = Inr w1"
    and pl: "police (ev_fs ev) (w1\<lparr>w_passes := w_passes w1 @ [ev_now ev]\<rparr>) = Some (Inr w')"
    using c(1) True by (auto simp: chores_def bindO_eq_Inr)
  have "w_running w1 = w_running w"
    using h main_log_keeps(6) [of _ _ ?w] c(2)
    by (auto simp: heartbeat_def bindR_eq_Inr split: option.splits if_splits)
  then show "w_running w' = w_running w" using police_keeps [OF pl] by auto
qed (simp add: chores_def)

lemma http_ready_running: "http_ready st ev w = Some (Inr w') \<Longrightarrow> log_inv (w_log w) \<Longrightarrow> w_running w' = w_running w"
  using main_log_keeps(6) by (fastforce simp: http_ready_def bindO_eq_Inr split: if_splits sum.splits)

section \<open>Examples\<close>

definition demo_setting :: setting where
  "demo_setting =
     \<lparr>st_work = gusher (\<lambda>_. sample_env) empty_table (\<lambda>_. []), st_peer = \<lambda>c. (''10.0.0.1'', 5000),
      st_console = \<lparr>co_eval = \<lambda>l. (Inr SUnspec, False), co_show = \<lambda>v. [], co_trace = [], co_where = []\<rparr>, st_pid = 100,
      st_junk = zero_frame, st_linebuf = replicate LINEBUF NUL\<rparr>"

definition demo_event :: "int \<Rightarrow> bool \<Rightarrow> event" where
  "demo_event now ready =
     \<lparr>ev_now = now, ev_tm = \<lparr>tm_year = 113, tm_mon = 4, tm_mday = 7, tm_hour = 10, tm_min = 2, tm_sec = 0, tm_wday = 2,
        tm_gmtoff = 0, tm_zone = ''UTC''\<rparr>, ev_creat = True, ev_fs = \<lparr>fs_stat = \<lambda>_. None, fs_read = \<lambda>_. CannotOpen\<rparr>,
      ev_ready = ready, ev_http = False, ev_stdin = False, ev_accept = Inl [], ev_input = Data []\<rparr>"

section \<open>Properties\<close>





text \<open>
  Input that does not come from a terminal is read into a buffer of 1024 bytes: the terminator fits
  exactly when the read returned fewer; a read that fills the buffer, and one that fails, store
  outside of it.
\<close>

theorem console_line_safe_iff:
  assumes "log_inv (w_log w)" "length junk = LINEBUF" "length d \<le> LINEBUF"
  shows "((\<exists>w'. process_line co lt junk (Data d) w = Inr w') \<longleftrightarrow> length d < LINEBUF) \<and>
    process_line co lt junk (Failed why) w = Inl BadAccess"
proof (intro conjI)
  have ev: "\<exists>w'. eval_line co lt line w = Inr w'" for line
  proof -
    obtain r quit where r: "co_eval co line = (r, quit)" by fastforce
    have "log_inv (w_log (say a (say b (if quit then exit_gusher w else w))))" for a b
      using assms(1) by (simp add: say_def exit_gusher_def)
    then show ?thesis using r main_log_returns by (cases r) (auto simp: eval_line_def Let_def)
  qed
  show "(\<exists>w'. process_line co lt junk (Data d) w = Inr w') \<longleftrightarrow> length d < LINEBUF"
  proof (cases d)
    case Nil
    then show ?thesis by (simp add: process_line_def LINEBUF_def)
  next
    case (Cons x xs)
    then have "process_line co lt junk (Data d) w =
        bindR (wr (d @ drop (length d) junk) (length d) NUL) (\<lambda>linebuf. eval_line co lt (cstr linebuf 0) w)"
      by (simp add: process_line_def)
    then show ?thesis using assms(2,3) ev by (auto simp: wr_def bindR_eq_Inr)
  qed
  show "process_line co lt junk (Failed why) w = Inl BadAccess"
    using main_log_returns [OF assms(1), of lt "''err: '' @ why @ [LF]"] by (auto simp: process_line_def)
qed

theorem console_line_safe_iff_witness:
  "(\<exists>w'. process_line (st_console demo_setting) (ev_tm (demo_event 0 True)) (replicate LINEBUF NUL) (Data ''(exit)'')
      (start_main default_options 1 0 False Map.empty) = Inr w') \<and>
   \<not> (\<exists>w'. process_line (st_console demo_setting) (ev_tm (demo_event 0 True)) (replicate LINEBUF NUL)
      (Data (replicate LINEBUF CHR ''x'')) (start_main default_options 1 0 False Map.empty) = Inr w')"
proof -
  let ?w = "start_main default_options 1 0 False Map.empty"
  have l: "log_inv (w_log ?w)" by (simp add: start_main_def Let_def log_inv_def init_log_def)
  have n: "length (replicate LINEBUF NUL) = LINEBUF" "length (replicate LINEBUF CHR ''x'') \<le> LINEBUF"
    "length ''(exit)'' \<le> LINEBUF" "length ''(exit)'' < LINEBUF" by (simp_all add: LINEBUF_def)
  show ?thesis
    using console_line_safe_iff [OF l n(1,3)] console_line_safe_iff [OF l n(1,2)] n(4) by simp
qed

text \<open>
  A daemon polls only the listening socket, but looks at the second entry of its poll array all the
  same, which \<open>poll\<close> does not write. Whether a daemon whose standard input is at its end survives its
  first connection depends on what the stack happened to contain.
\<close>

theorem daemon_reads_garbage:
  assumes "w_nfds w = 1" "w_running w" "log_inv (w_log w)" "ev_ready ev" "ev_input ev = Data []"
    and "main_iter st ev w = Some (Inr w')"
  shows "w_running w' \<longleftrightarrow> \<not> w_revents1 w"
proof -
  obtain w1 where w1: "chores st ev w = Some (Inr w1)" using assms(6) by (auto simp: main_iter_def bindO_eq_Inr)
  note c = chores_keep [OF w1 assms(3)] and r = chores_running [OF w1 assms(3)]
  have "bindO (http_ready st ev w1) (\<lambda>w3. if w_revents1 w3
      then Some (process_line (st_console st) (ev_tm ev) (st_linebuf st) (ev_input ev) w3) else Some (Inr w3)) = Some (Inr w')"
    using assms(1,4,6) w1 c(3) by (simp add: main_iter_def)
  then obtain w3 where w3: "http_ready st ev w1 = Some (Inr w3)"
    and x: "(if w_revents1 w3
      then Some (process_line (st_console st) (ev_tm ev) (st_linebuf st) (ev_input ev) w3) else Some (Inr w3)) = Some (Inr w')"
    by (auto simp: bindO_eq_Inr)
  have l: "w' = (if w_revents1 w3 then exit_gusher w3 else w3)"
    using x assms(5) by (simp add: process_line_def split: if_splits)
  have "w_revents1 w3 = w_revents1 w" "w_running w3"
    using http_ready_keeps(3) [OF w3 c(2)] http_ready_running [OF w3 c(2)] c(4) r assms(2) by simp_all
  then show ?thesis using l by (auto simp: exit_gusher_def)
qed

theorem daemon_reads_garbage_witness:
  "\<exists>w'. main_iter demo_setting (demo_event 0 True) (start_main (default_options\<lparr>o_background := True\<rparr>) 1 0 True Map.empty) =
     Some (Inr w') \<and> \<not> w_running w'"
proof -
  let ?w = "start_main (default_options\<lparr>o_background := True\<rparr>) 1 0 True Map.empty"
  have w: "w_nfds ?w = 1" "w_running ?w" "log_inv (w_log ?w)" "w_revents1 ?w"
    by (simp_all add: start_main_def Let_def log_inv_def init_log_def)
  have e: "ev_ready (demo_event 0 True)" "ev_input (demo_event 0 True) = Data []" by (simp_all add: demo_event_def)
  have m: "main_iter demo_setting (demo_event 0 True) ?w = Some (Inr (exit_gusher ?w))"
    by (simp add: main_iter_def chores_def demo_event_def start_main_def Let_def POLICE_INTVL_def http_ready_def
        process_line_def)
  show ?thesis using daemon_reads_garbage [OF w(1-3) e m] w(4) m by blast
qed



text \<open>
  Without threads the server answers one request after the other: as long as requests return
  normally, \<open>n\<close> connections get exactly their replies; the first exception in a handler ends the
  program, since nothing on the main thread catches it.
\<close>

theorem single_thread_answers:
  assumes "\<not> o_threading o1" "\<forall>K. finite (dom K) \<longrightarrow> K (newfd K) = None"
    and "\<forall>c < n. \<exists>es. gusher env t inp c (fst (peer c)) (snd (peer c)) = Some (es, Inr ())"
  shows "\<exists>s. serve_n (gusher env t inp) peer junk newfd n (w_server (start_main o1 cpus now garbage disk)) = Some (Inr s) \<and>
    nconns s = n \<and> (\<forall>c < n. bytes_to c (out s) = expected (gusher env t inp) peer c) \<and>
    (\<forall>es k. gusher env t inp n (fst (peer n)) (snd (peer n)) = Some (es, Inl (Throw k)) \<longrightarrow>
       process_http (gusher env t inp) peer junk (newfd (conns s)) s = Some (Inl (Throw k)))"
proof -
  let ?s = "w_server (start_main o1 cpus now garbage disk)" and ?work = "gusher env t inp"
  have a: "alone ?s" "nconns ?s = 0"
    using assms(1) by (simp_all add: alone_def start_main_def Let_def init_server_def init_frames_def live_def one_frame_def)
  have sh: "\<forall>c ip p es r. ?work c ip p = Some (es, r) \<longrightarrow> shaped es r" using process_request_shaped by blast
  obtain s where s: "serve_n ?work peer junk newfd n ?s = Some (Inr s)" "alone s" "nconns s = n"
      "\<forall>c < n. bytes_to c (out s) = expected ?work peer c"
    using serve_n_answers [OF assms(2) sh a(1), of peer n junk] a(2) assms(3) by auto
  have "conns s (newfd (conns s)) = None" using assms(2) s(2) by (simp add: alone_def)
  then have "process_http ?work peer junk (newfd (conns s)) s = Some (Inl (Throw k))"
    if "?work n (fst (peer n)) (snd (peer n)) = Some (es, Inl (Throw k))" for es k
    using process_http_alone [of s "newfd (conns s)" ?work peer es "Inl (Throw k)" junk] s(2,3) that sh by auto
  then show ?thesis using s by blast
qed

theorem single_thread_answers_witness:
  "\<exists>newfd s. serve_n (gusher (\<lambda>_. sample_env\<lparr>e_app := \<lambda>_ _. Inl (Throw ''boom'')\<rparr>) (register_all [(''/'', SProc 1)])
        (\<lambda>c. if c = 0 then [] else [Bytes (''GET / HTTP/1.1'' @ CRLF @ CRLF)])) (\<lambda>c. (''10.0.0.1'', 5000)) zero_frame newfd 1
        (w_server (start_main (default_options\<lparr>o_threading := False\<rparr>) 1 0 False Map.empty)) = Some (Inr s) \<and>
     process_http (gusher (\<lambda>_. sample_env\<lparr>e_app := \<lambda>_ _. Inl (Throw ''boom'')\<rparr>) (register_all [(''/'', SProc 1)])
        (\<lambda>c. if c = 0 then [] else [Bytes (''GET / HTTP/1.1'' @ CRLF @ CRLF)])) (\<lambda>c. (''10.0.0.1'', 5000)) zero_frame
        (newfd (conns s)) s = Some (Inl (Throw ''boom''))"
proof -
  let ?env = "\<lambda>_ :: nat. sample_env\<lparr>e_app := \<lambda>_ _. Inl (Throw ''boom'')\<rparr>" and ?t = "register_all [(''/'', SProc 1)]"
  let ?in = "\<lambda>c :: nat. if c = 0 then [] else [Bytes (''GET / HTTP/1.1'' @ CRLF @ CRLF)]"
  let ?peer = "\<lambda>c :: nat. (''10.0.0.1'', 5000 :: int)"
  let ?newfd = "\<lambda>K :: int \<rightharpoonup> nat. Max (insert 2 (dom K)) + 1"
  have o: "\<not> o_threading (default_options\<lparr>o_threading := False\<rparr>)" by simp
  have fd: "\<forall>K :: int \<rightharpoonup> nat. finite (dom K) \<longrightarrow> K (?newfd K) = None"
  proof (intro allI impI)
    fix K :: "int \<rightharpoonup> nat" assume f: "finite (dom K)"
    have "?newfd K \<notin> dom K" using Max_ge [of "insert 2 (dom K)" "?newfd K"] f by auto
    then show "K (?newfd K) = None" by auto
  qed
  have n: "\<forall>c < 1. \<exists>es. gusher ?env ?t ?in c (fst (?peer c)) (snd (?peer c)) = Some (es, Inr ())"
    by (simp add: empty_connection)
  have k: "gusher ?env ?t ?in 1 (fst (?peer 1)) (snd (?peer 1)) = Some ([Release], Inl (Throw ''boom''))"
    using throwing_request by simp
  from single_thread_answers [OF o fd n, of zero_frame 1 0 False Map.empty] k show ?thesis by blast
qed

end
