(* ===== verification/Boot.thy ===== *)
theory Boot
  imports Mainloop Response
begin

text \<open>
  Start-up (\<open>main.c\<close>: \<open>init_env\<close>, \<open>uuid_gen\<close> and the beginning of \<open>main\<close>; the \<open>init_\<close> and \<open>shutdown_\<close> functions of
  the modules). The state \<open>guile\<close> has the top level of the interpreter, the types of foreign objects with
  their callbacks, the objects that the garbage collector must keep, the compiled patterns, the log (absent until
  \<open>init_log\<close>) and the working directory. A C function is its name with the number of its
  parameters. The operating system, the versions of the libraries and the effect of the boot file are
  the parameters \<open>outside\<close>.
\<close>

section \<open>State\<close>

type_synonym cfun = "string \<times> nat"

datatype binding = Gsubr nat nat nat cfun | Value scm

record guile =
  g_env :: "(string \<times> binding) list"
  g_smobs :: "(string \<times> string option \<times> string option) list"
  g_kept :: "(string \<times> scm) list"
  g_cookie_pat :: "string option"
  g_time_pat :: "string option"
  g_curl :: bool
  g_encode :: bool
  g_log :: "logger option"
  g_cwd :: string

definition bare_guile :: "string \<Rightarrow> guile" where
  "bare_guile cwd =
     \<lparr>g_env = [], g_smobs = [], g_kept = [], g_cookie_pat = None, g_time_pat = None, g_curl = False, g_encode = False,
      g_log = None, g_cwd = cwd\<rparr>"

definition lookup :: "guile \<Rightarrow> string \<Rightarrow> binding option" where
  "lookup g nm = map_of (g_env g) nm"

definition scm_c_define :: "string \<Rightarrow> binding \<Rightarrow> guile \<Rightarrow> guile" where
  "scm_c_define nm b g = g\<lparr>g_env := (nm, b) # g_env g\<rparr>"

fun define_gsubrs :: "(string \<times> nat \<times> nat \<times> nat \<times> cfun) list \<Rightarrow> guile \<Rightarrow> guile" where
  "define_gsubrs [] g = g"
| "define_gsubrs ((nm, req, opt, rst, f) # xs) g = define_gsubrs xs (scm_c_define nm (Gsubr req opt rst f) g)"

definition make_smob :: "string \<Rightarrow> string option \<Rightarrow> string option \<Rightarrow> guile \<Rightarrow> guile" where
  "make_smob nm frees marks g = g\<lparr>g_smobs := (nm, frees, marks) # g_smobs g\<rparr>"

definition keep :: "string \<Rightarrow> scm \<Rightarrow> guile \<Rightarrow> guile" where
  "keep var v g = g\<lparr>g_kept := (var, v) # g_kept g\<rparr>"

text \<open>A message before \<open>init_log\<close> uses a mutex and a file that are not there.\<close>

definition boot_log :: "tm \<Rightarrow> string \<Rightarrow> guile \<Rightarrow> guile res" where
  "boot_log lt m g =
     (case g_log g of None \<Rightarrow> Inl NullDeref | Some l \<Rightarrow> bindR (log_msg lt m l) (\<lambda>l1. Inr (g\<lparr>g_log := Some l1\<rparr>)))"

section \<open>What Guile does with a call\<close>

text \<open>
  A call with \<open>n\<close> arguments is refused unless there are enough and, without a rest list, not too many;
  the C function then gets the required and optional arguments and the rest list. A function that
  takes another number of parameters is called with the wrong ones.
\<close>

definition call_gsubr :: "binding \<Rightarrow> nat \<Rightarrow> string res" where
  "call_gsubr b n =
     (case b of
        Value v \<Rightarrow> Inl (Throw ''wrong-type-arg'')
      | Gsubr req opt rst (f, params) \<Rightarrow>
          if n < req \<or> rst = 0 \<and> req + opt < n then Inl (Throw ''wrong-number-of-args'')
          else if params \<noteq> req + opt + rst then Inl BadAccess
          else Inr f)"

section \<open>The modules\<close>

definition start_log :: "(string \<Rightarrow> string option) \<Rightarrow> guile \<Rightarrow> guile" where
  "start_log disk g =
     keep ''lmutex'' (SSmob ''mutex'' 2)
       (define_gsubrs
          [(''log-to'', 1, 0, 0, ''log_to'', 1), (''log-msg-primitive'', 1, 0, 0, ''log_msg_primitive'', 1)]
          (g\<lparr>g_log := Some (init_log disk)\<rparr>))"

definition postgres_gsubrs :: "(string \<times> nat \<times> nat \<times> nat \<times> cfun) list" where
  "postgres_gsubrs =
     [(''pg-open-primitive'', 1, 0, 0, ''pg_open_primitive'', 1), (''pg-close'', 1, 0, 0, ''pg_close'', 1),
      (''pg-exec-primitive'', 2, 0, 0, ''pg_exec'', 2), (''pg-clear'', 1, 0, 0, ''pg_clear'', 1),
      (''pg-tuples'', 1, 0, 0, ''pg_tuples'', 1), (''pg-cmd-tuples'', 1, 0, 0, ''pg_cmd_tuples'', 1),
      (''pg-fields'', 1, 0, 0, ''pg_fields'', 1), (''pg-get-row'', 1, 0, 0, ''pg_get_row'', 1),
      (''pg-each-row'', 2, 0, 0, ''pg_each_row'', 2), (''pg-next-row'', 1, 0, 0, ''pg_next_row'', 1),
      (''pg-one-row-primitive'', 2, 0, 0, ''pg_one_row'', 2), (''pg-map-rows'', 1, 0, 1, ''pg_map_rows'', 2),
      (''pg-end-stream?'', 1, 0, 0, ''pg_done'', 1), (''pg-format'', 2, 0, 0, ''pg_format_sql'', 2),
      (''pg-cell'', 2, 0, 0, ''pg_cell'', 2), (''pg-error-msg'', 1, 0, 0, ''pg_error_msg'', 1),
      (''decode-ts'', 1, 0, 0, ''decode_ts'', 1)]"

definition init_postgres :: "tm \<Rightarrow> nat \<Rightarrow> guile \<Rightarrow> guile res" where
  "init_postgres lt vers g =
     boot_log lt (''PQlib version '' @ dec_nat (vers div 10000) @ ''.'' @ dec_nat (vers div 100 mod 100) @ ''.'' @
         dec_nat (vers mod 100) @ [LF])
       (define_gsubrs postgres_gsubrs
          (make_smob ''pg_res'' (Some ''free_pg_res'') (Some ''mark_pg_res'')
             (make_smob ''pg_conn'' (Some ''free_pg_conn'') (Some ''mark_pg_conn'') g)))"

definition time_gsubrs :: "(string \<times> nat \<times> nat \<times> nat \<times> cfun) list" where
  "time_gsubrs =
     [(''time-local'', 6, 0, 0, ''local_time'', 6), (''time-now'', 0, 0, 0, ''now_time'', 0), (''time-at'', 1, 0, 0, ''time_at'', 1),
      (''time-format'', 2, 0, 0, ''format_time'', 2), (''time-diff'', 2, 0, 0, ''time_diff'', 2),
      (''time-add'', 2, 0, 0, ''time_add'', 2), (''time-year'', 1, 0, 0, ''time_year'', 1),
      (''time-month'', 1, 0, 0, ''time_month'', 1), (''time-mday'', 1, 0, 0, ''time_mday'', 1),
      (''time-wday'', 1, 0, 0, ''time_wday'', 1), (''time-hour'', 1, 0, 0, ''time_hour'', 1),
      (''time-min'', 1, 0, 0, ''time_min'', 1), (''time-sec'', 1, 0, 0, ''time_sec'', 1),
      (''time-epoch'', 1, 0, 0, ''time_epoch'', 1), (''time-gmtoffset'', 1, 0, 0, ''time_offset'', 1),
      (''time-zone'', 1, 0, 0, ''time_zone'', 1), (''time-decode'', 1, 0, 0, ''time_decode'', 1),
      (''snooze'', 1, 0, 0, ''snooze'', 1)]"

definition init_time :: "guile \<Rightarrow> guile" where
  "init_time g =
     define_gsubrs time_gsubrs
       (make_smob ''timestamp'' None None
          (g\<lparr>g_time_pat := Some (''([0-9][0-9][0-9][0-9])'' @ [CHR 0x5C] @ ''-([0-9][0-9])'' @ [CHR 0x5C] @
               ''-([0-9][0-9])T([0-9][0-9]):([0-9][0-9]):([0-9][0-9])[^+'' @ [CHR 0x5C] @ ''-]+([+'' @ [CHR 0x5C] @
               ''-][0-9][0-9])'')\<rparr>))"

definition init_cache :: "guile \<Rightarrow> guile" where
  "init_cache g =
     define_gsubrs
       [(''make-doc'', 2, 0, 0, ''make_doc'', 2), (''touch-doc'', 1, 0, 1, ''touch_node'', 2),
        (''fetch-doc'', 1, 0, 1, ''fetch_node'', 2), (''touched-doc?'', 1, 0, 0, ''touched_node'', 1)]
       (keep ''stamp_sym'' (SSym ''stamp'') (keep ''data_sym'' (SSym ''data'') (keep ''file_sym'' (SSym ''file'')
          (keep ''sessions_db'' (SStr ''sessions'') (make_smob ''make-node'' (Some ''free_node'') (Some ''mark_node'') g)))))"

definition init_json :: "guile \<Rightarrow> guile" where
  "init_json g = define_gsubrs [(''json-encode'', 1, 0, 0, ''json_encode'', 1), (''json-decode'', 1, 0, 0, ''json_decode'', 1)] g"

definition init_template :: "guile \<Rightarrow> guile" where
  "init_template g = define_gsubrs [(''fill-template'', 2, 0, 1, ''fill_template'', 3)] g"

definition http_gsubrs :: "(string \<times> nat \<times> nat \<times> nat \<times> cfun) list" where
  "http_gsubrs =
     [(''http-handle'', 1, 0, 0, ''http_handle'', 1), (''http-get'', 1, 0, 1, ''http_get'', 2),
      (''http-get-raw'', 1, 0, 1, ''http_get_raw'', 2), (''http-req'', 1, 0, 1, ''http_get'', 2),
      (''http-url-encode'', 1, 0, 0, ''http_url_encode'', 1), (''xml-node-name'', 1, 0, 0, ''xml_node_name'', 1),
      (''xml-node-attrs'', 1, 0, 0, ''xml_node_attrs'', 1), (''xml-node-content'', 1, 0, 0, ''xml_node_content'', 1),
      (''xml-parse'', 1, 0, 0, ''parse_xml'', 1)]"

definition init_http :: "bool \<Rightarrow> guile \<Rightarrow> guile" where
  "init_http curl_ok g =
     (define_gsubrs http_gsubrs
        (keep ''infix'' (SSym ''infix'') (make_smob ''chandle'' (Some ''free_chandle'') None (g\<lparr>g_curl := True\<rparr>))))
     \<lparr>g_encode := curl_ok\<rparr>"

text \<open>\<open>sha256_sum\<close> takes one parameter, but is registered with a rest list.\<close>

definition butter_gsubrs :: "(string \<times> nat \<times> nat \<times> nat \<times> cfun) list" where
  "butter_gsubrs =
     [(''to-s'', 1, 0, 0, ''to_s'', 1), (''to-i'', 1, 0, 0, ''to_i'', 1), (''to-f'', 1, 0, 0, ''to_f'', 1),
      (''string-cat'', 1, 0, 1, ''string_cat'', 2), (''sha-256-sum'', 1, 0, 1, ''sha256_sum'', 1)]"

definition init_butter :: "guile \<Rightarrow> guile" where
  "init_butter g = define_gsubrs butter_gsubrs (keep ''infix'' (SSym ''infix'') (keep ''radix10'' (SInt 10) g))"

definition init_smtp :: "guile \<Rightarrow> guile" where
  "init_smtp g = define_gsubrs [(''smtp-send'', 6, 0, 0, ''smtp_send'', 6)] g"

definition uuid_gen :: "8 word list \<Rightarrow> scm" where
  "uuid_gen bytes = SStr (put_uuid bytes)"

definition main_gsubrs :: "(string \<times> nat \<times> nat \<times> nat \<times> cfun) list" where
  "main_gsubrs =
     [(''http'', 2, 0, 0, ''set_handler'', 2), (''responder'', 2, 0, 0, ''set_handler'', 2),
      (''not-found'', 1, 0, 0, ''dump_request'', 1), (''uuid-generate'', 0, 0, 0, ''uuid_gen'', 0),
      (''simple-response'', 2, 0, 0, ''simple_http_response'', 2), (''json-response'', 1, 0, 0, ''json_http_response'', 1),
      (''query-value'', 2, 0, 0, ''query_value'', 2), (''query-value-number'', 2, 0, 0, ''query_value_number'', 2),
      (''query-value-boolean'', 2, 0, 0, ''query_value_boolean'', 2), (''exit'', 0, 0, 0, ''exit_gusher'', 0)]"

definition DEFAULT_GUSHER_ROOT :: string where
  "DEFAULT_GUSHER_ROOT = ''/var/lib/gusher''"

definition BOOT_FILE :: string where
  "BOOT_FILE = ''boot.scm''"

section \<open>\<open>init_env\<close>\<close>

record outside =
  x_getcwd :: "string option"
  x_chdir :: "string \<Rightarrow> bool"
  x_boot_exists :: bool
  x_load_boot :: "guile \<Rightarrow> guile res"
  x_guile_version :: string
  x_pq_version :: nat
  x_curl :: bool
  x_disk :: "string \<Rightarrow> string option"

definition keep_symbols :: "guile \<Rightarrow> guile" where
  "keep_symbols g =
     keep ''session_sym'' (SSym ''session'') (keep ''qstring_sym'' (SSym ''query-string'') (keep ''post_sym'' (SSym ''post'')
       (keep ''clength_sym'' (SSym ''content-length'') (keep ''ctype_sym'' (SSym ''content-type'')
         (keep ''method_sym'' (SSym ''method'') (keep ''query_sym'' (SSym ''query'') g))))))"

text \<open>\<open>init_env\<close> up to the boot file.\<close>

definition init_modules :: "outside \<Rightarrow> tm \<Rightarrow> int \<Rightarrow> string \<Rightarrow> guile \<Rightarrow> guile res" where
  "init_modules x lt port home g =
     (let g1 = define_gsubrs main_gsubrs (keep ''radix10'' (SInt 10) g);
          g2 = keep_symbols (scm_c_define ''gusher-root'' (Value (SStr home)) (scm_c_define ''http-port'' (Value (SInt port)) g1));
          g3 = keep ''pmutex'' (SSmob ''mutex'' 1) (keep ''qmutex'' (SSmob ''mutex'' 0) g2);
          g4 = start_log (x_disk x) (g3\<lparr>g_cookie_pat := Some (take 62 (COOKIE_KEY @ ''=([0-9a-f]+)''))\<rparr>)
      in bindR (boot_log lt (''Guile version '' @ x_guile_version x @ [LF]) g4) (\<lambda>g5.
         bindR (init_postgres lt (x_pq_version x) g5) (\<lambda>g6.
           Inr (init_smtp (init_butter (init_http (x_curl x) (init_template (init_json (init_cache (init_time g6))))))))))"

definition chdir :: "outside \<Rightarrow> string \<Rightarrow> guile \<Rightarrow> guile option" where
  "chdir x dir g = (if x_chdir x dir then Some (g\<lparr>g_cwd := dir\<rparr>) else None)"

text \<open>
  The boot file is loaded from the root directory; nothing catches an exception in it. The result of
  going back is not looked at, and there may be nowhere to go back to.
\<close>

definition load_boot :: "outside \<Rightarrow> tm \<Rightarrow> string \<Rightarrow> guile \<Rightarrow> guile res" where
  "load_boot x lt home g =
     (case chdir x home g of
        None \<Rightarrow> Inr g
      | Some g1 \<Rightarrow>
          bindR (if x_boot_exists x
                 then bindR (boot_log lt (''load '' @ home @ ''/'' @ BOOT_FILE @ [LF]) g1) (x_load_boot x)
                 else Inr g1) (\<lambda>g2.
            Inr (case x_getcwd x of
                   None \<Rightarrow> g2
                 | Some here \<Rightarrow> (case chdir x here g2 of None \<Rightarrow> g2 | Some g3 \<Rightarrow> g3))))"

definition init_env :: "outside \<Rightarrow> tm \<Rightarrow> int \<Rightarrow> string \<Rightarrow> guile \<Rightarrow> guile res" where
  "init_env x lt port home g = bindR (init_modules x lt port home g) (load_boot x lt home)"

section \<open>The end of the modules\<close>

definition shutdown_http :: "guile \<Rightarrow> guile" where
  "shutdown_http g = (if g_encode g then g\<lparr>g_encode := False\<rparr> else g)\<lparr>g_curl := False\<rparr>"

definition shutdown_smtp :: "guile \<Rightarrow> guile" where
  "shutdown_smtp g = g"

definition shutdown_time :: "guile \<Rightarrow> guile" where
  "shutdown_time g = g\<lparr>g_time_pat := None\<rparr>"

definition shutdown_modules :: "guile \<Rightarrow> guile" where
  "shutdown_modules g = shutdown_time (shutdown_smtp (shutdown_http (g\<lparr>g_cookie_pat := None\<rparr>)))"

section \<open>\<open>main\<close>\<close>

text \<open>
  \<open>main\<close> from the command line on: the options with their arguments, the files after them, what \<open>fork\<close>
  returned (\<open>parent\<close>), and the events of the loop. It ends with an exit status, or is still in its loop
  after the events.
\<close>

datatype ending = Exited nat | Ended world guile | Looping world guile

record command =
  c_options :: "(char \<times> string) list"
  c_files :: "string list"
  c_parent :: bool
  c_bind :: "int \<Rightarrow> bool"
  c_listen :: bool
  c_load :: "string \<Rightarrow> (scm \<times> scm) option \<times> bool"
  c_cpus :: nat
  c_now :: int
  c_garbage :: bool
  c_tm :: tm

definition enter_loop :: "command \<Rightarrow> setting \<Rightarrow> options \<Rightarrow> logger \<Rightarrow> guile \<Rightarrow> event list \<Rightarrow> ending res option" where
  "enter_loop c st o1 l g evs =
     (let w = (start_main o1 (c_cpus c) (c_now c) (c_garbage c) Map.empty)\<lparr>w_log := l\<rparr> in
      bindO (Some (load_files (c_load c) (st_console st) (c_tm c) (c_files c) w)) (\<lambda>w1.
      bindO (main_loop st evs w1) (\<lambda>w2.
        if w_running w2 then Some (Inr (Looping w2 (g\<lparr>g_log := Some (w_log w2)\<rparr>)))
        else bindO (Some (finish_main (c_tm c) w2)) (\<lambda>w3.
               Some (Inr (Ended w3 ((shutdown_modules g)\<lparr>g_log := Some (w_log w3)\<rparr>)))))))"

definition gusher_main :: "outside \<Rightarrow> command \<Rightarrow> setting \<Rightarrow> string \<Rightarrow> event list \<Rightarrow> ending res option" where
  "gusher_main x c st cwd evs =
     (case parse_options (c_options c) default_options of
        Inl e \<Rightarrow> Some (Inl e)
      | Inr o1 \<Rightarrow>
          if o_background o1 \<and> c_parent c then Some (Inr (Exited 0))
          else case http_socket (c_bind c) (c_listen c) (o_port o1) of
                 None \<Rightarrow> Some (Inr (Exited 1))
               | Some p \<Rightarrow>
                   (case init_env x (c_tm c) (o_port o1) DEFAULT_GUSHER_ROOT (bare_guile cwd) of
                      Inl e \<Rightarrow> Some (Inl e)
                    | Inr g \<Rightarrow>
                        (case g_log g of
                           None \<Rightarrow> Some (Inl NullDeref)
                         | Some l \<Rightarrow> enter_loop c st o1 l g evs)))"

section \<open>Lemmas\<close>

text \<open>All the procedures, in the order in which they are defined.\<close>

definition all_gsubrs :: "(string \<times> nat \<times> nat \<times> nat \<times> cfun) list" where
  "all_gsubrs =
     main_gsubrs @
     [(''log-to'', 1, 0, 0, ''log_to'', 1), (''log-msg-primitive'', 1, 0, 0, ''log_msg_primitive'', 1)] @
     postgres_gsubrs @ time_gsubrs @
     [(''make-doc'', 2, 0, 0, ''make_doc'', 2), (''touch-doc'', 1, 0, 1, ''touch_node'', 2),
      (''fetch-doc'', 1, 0, 1, ''fetch_node'', 2), (''touched-doc?'', 1, 0, 0, ''touched_node'', 1)] @
     [(''json-encode'', 1, 0, 0, ''json_encode'', 1), (''json-decode'', 1, 0, 0, ''json_decode'', 1)] @
     [(''fill-template'', 2, 0, 1, ''fill_template'', 3)] @ http_gsubrs @ butter_gsubrs @
     [(''smtp-send'', 6, 0, 0, ''smtp_send'', 6)]"

text \<open>What \<open>boot.scm\<close> exports to the library modules.\<close>

definition boot_exports :: "string list" where
  "boot_exports =
     [''pg-format'', ''pg-exec-primitive'', ''pg-one-row-primitive'', ''pg-open-primitive'', ''pg-close'', ''pg-cell'',
      ''pg-cmd-tuples'', ''pg-map-rows'', ''json-decode'', ''json-encode'', ''time-epoch'', ''time-now'', ''time-hour'',
      ''time-min'', ''time-sec'', ''snooze'', ''to-i'', ''log-msg-primitive'', ''http'', ''simple-response'',
      ''json-response'', ''http-port'', ''http-get'', ''query-value'']"

fun as_binding :: "string \<times> nat \<times> nat \<times> nat \<times> cfun \<Rightarrow> string \<times> binding" where
  "as_binding (nm, req, opt, rst, f) = (nm, Gsubr req opt rst f)"

lemma define_gsubrs_env: "g_env (define_gsubrs xs g) = rev (map as_binding xs) @ g_env g"
  by (induction xs g rule: define_gsubrs.induct) (simp_all add: scm_c_define_def)

lemma define_gsubrs_same [simp]:
  "g_log (define_gsubrs xs g) = g_log g" "g_cwd (define_gsubrs xs g) = g_cwd g"
  "g_cookie_pat (define_gsubrs xs g) = g_cookie_pat g" "g_time_pat (define_gsubrs xs g) = g_time_pat g"
  "g_curl (define_gsubrs xs g) = g_curl g"  "g_encode (define_gsubrs xs g) = g_encode g"
  by (induction xs g rule: define_gsubrs.induct) (simp_all add: scm_c_define_def)

lemma names_distinct: "distinct (''http-port'' # ''gusher-root'' # map fst all_gsubrs)"
  by code_simp

lemma keep_same [simp]:
  "g_env (keep v y g) = g_env g"
  "g_log (keep v y g) = g_log g"
  "g_cwd (keep v y g) = g_cwd g"
  "g_cookie_pat (keep v y g) = g_cookie_pat g"
  "g_time_pat (keep v y g) = g_time_pat g"
  "g_curl (keep v y g) = g_curl g"
  "g_encode (keep v y g) = g_encode g"
  by (simp_all add: keep_def)

lemma make_smob_same [simp]:
  "g_env (make_smob nm fr mk g) = g_env g"
  "g_log (make_smob nm fr mk g) = g_log g"
  "g_cwd (make_smob nm fr mk g) = g_cwd g"
  "g_cookie_pat (make_smob nm fr mk g) = g_cookie_pat g"
  "g_time_pat (make_smob nm fr mk g) = g_time_pat g"
  "g_curl (make_smob nm fr mk g) = g_curl g"
  "g_encode (make_smob nm fr mk g) = g_encode g"
  by (simp_all add: make_smob_def)

lemma scm_c_define_same [simp]:
  "g_log (scm_c_define nm b g) = g_log g"
  "g_cwd (scm_c_define nm b g) = g_cwd g"
  "g_cookie_pat (scm_c_define nm b g) = g_cookie_pat g"
  "g_time_pat (scm_c_define nm b g) = g_time_pat g"
  "g_curl (scm_c_define nm b g) = g_curl g"
  "g_encode (scm_c_define nm b g) = g_encode g"
  "g_env (scm_c_define nm b g) = (nm, b) # g_env g"
  by (simp_all add: scm_c_define_def)

lemma boot_log_stderr:
  assumes "g_log g = Some l" "logfile l = Stderr"
  shows "boot_log lt m g = Inr (g\<lparr>g_log := Some (l\<lparr>lg_stderr := lg_stderr l @ log_stamp lt @ m\<rparr>)\<rparr>)"
  using assms by (simp add: boot_log_def log_msg_def fputs_def)

text \<open>The environment, the log and the rest of the state before the boot file.\<close>

definition version_lines :: "outside \<Rightarrow> tm \<Rightarrow> string" where
  "version_lines x lt =
     log_stamp lt @ ''Guile version '' @ x_guile_version x @ [LF] @
     log_stamp lt @ ''PQlib version '' @ dec_nat (x_pq_version x div 10000) @ ''.'' @
       dec_nat (x_pq_version x div 100 mod 100) @ ''.'' @ dec_nat (x_pq_version x mod 100) @ [LF]"

lemma init_modules_result:
  "\<exists>g. init_modules x lt port home (bare_guile cwd) = Inr g \<and>
     g_env g = rev (map as_binding (drop 10 all_gsubrs)) @
       [(''gusher-root'', Value (SStr home)), (''http-port'', Value (SInt port))] @ rev (map as_binding main_gsubrs) \<and>
     g_log g = Some ((init_log (x_disk x))\<lparr>lg_stderr := version_lines x lt\<rparr>) \<and> g_cwd g = cwd \<and>
     g_cookie_pat g \<noteq> None \<and> g_time_pat g \<noteq> None \<and> g_curl g \<and> g_encode g = x_curl x"
proof -
  let ?g4 = "start_log (x_disk x) (keep ''pmutex'' (SSmob ''mutex'' 1) (keep ''qmutex'' (SSmob ''mutex'' 0) (keep_symbols
      (scm_c_define ''gusher-root'' (Value (SStr home)) (scm_c_define ''http-port'' (Value (SInt port))
        (define_gsubrs main_gsubrs (keep ''radix10'' (SInt 10) (bare_guile cwd))))))) \<lparr>g_cookie_pat := Some (take 62 (COOKIE_KEY @ ''=([0-9a-f]+)''))\<rparr>)"
  let ?l = "(init_log (x_disk x))\<lparr>lg_stderr := log_stamp lt @ ''Guile version '' @ x_guile_version x @ [LF]\<rparr>"
  have l4: "g_log ?g4 = Some (init_log (x_disk x))" by (simp add: start_log_def)
  have b: "boot_log lt (''Guile version '' @ x_guile_version x @ [LF]) ?g4 = Inr (?g4\<lparr>g_log := Some ?l\<rparr>)"
    using boot_log_stderr [OF l4] by (simp add: init_log_def)
  obtain g6 where g6: "init_postgres lt (x_pq_version x) (?g4\<lparr>g_log := Some ?l\<rparr>) = Inr g6"
    "g6 = (define_gsubrs postgres_gsubrs (make_smob ''pg_res'' (Some ''free_pg_res'') (Some ''mark_pg_res'')
        (make_smob ''pg_conn'' (Some ''free_pg_conn'') (Some ''mark_pg_conn'') (?g4\<lparr>g_log := Some ?l\<rparr>))))
      \<lparr>g_log := Some ((init_log (x_disk x))\<lparr>lg_stderr := version_lines x lt\<rparr>)\<rparr>"
    by (simp add: init_postgres_def boot_log_stderr init_log_def version_lines_def)
  have "init_modules x lt port home (bare_guile cwd) =
      Inr (init_smtp (init_butter (init_http (x_curl x) (init_template (init_json (init_cache (init_time g6)))))))"
    using b g6(1) unfolding init_modules_def Let_def by simp
  moreover have "g_env g6 = rev (map as_binding postgres_gsubrs) @ g_env ?g4" by (simp add: g6(2) define_gsubrs_env)
  ultimately show ?thesis
    by (simp add: init_smtp_def init_butter_def init_http_def init_template_def init_json_def init_cache_def init_time_def
        start_log_def keep_symbols_def define_gsubrs_env all_gsubrs_def main_gsubrs_def g6(2) bare_guile_def)
qed

lemma env_keys:
  "distinct (map fst (rev (map as_binding (drop 10 all_gsubrs)) @
     [(''gusher-root'', Value (SStr home)), (''http-port'', Value (SInt port))] @ rev (map as_binding main_gsubrs)))"
proof -
  have k: "map fst (map as_binding xs) = map fst xs" for xs by (induction xs) auto
  have "distinct (rev (map fst (drop 10 all_gsubrs)) @ [''gusher-root'', ''http-port''] @ rev (map fst main_gsubrs))"
    by code_simp
  then show ?thesis by (simp add: rev_map [symmetric] k del: map_map)
qed

lemma env_entries: "set (map as_binding (drop 10 all_gsubrs)) \<union> set (map as_binding main_gsubrs) = set (map as_binding all_gsubrs)"
proof -
  have "all_gsubrs = main_gsubrs @ drop 10 all_gsubrs" by (simp add: all_gsubrs_def main_gsubrs_def)
  then show ?thesis by (metis map_append set_append Un_commute)
qed

lemma lookup_boot:
  assumes "init_modules x lt port home (bare_guile cwd) = Inr g"
  shows "lookup g nm = Some b \<longleftrightarrow> (nm, b) \<in> set (map as_binding all_gsubrs) \<or>
    (nm, b) = (''http-port'', Value (SInt port)) \<or> (nm, b) = (''gusher-root'', Value (SStr home))"
proof -
  let ?e = "rev (map as_binding (drop 10 all_gsubrs)) @
     [(''gusher-root'', Value (SStr home)), (''http-port'', Value (SInt port))] @ rev (map as_binding main_gsubrs)"
  have "g_env g = ?e" using init_modules_result [of x lt port home cwd] assms by auto
  then have "lookup g nm = Some b \<longleftrightarrow> (nm, b) \<in> set ?e"
    using map_of_eq_Some_iff [OF env_keys [of home port]] by (simp add: lookup_def)
  then show ?thesis unfolding env_entries [symmetric] by auto
qed

lemma arities_match:
  "\<forall>(nm, req, opt, rst, f, k) \<in> set all_gsubrs.
     (if nm = ''sha-256-sum'' then req = 1 \<and> opt = 0 \<and> rst = 1 \<and> k = 1 else k = req + opt + rst)"
  by code_simp

lemma exports_bound: "set boot_exports \<subseteq> insert ''http-port'' (fst ` set (map as_binding all_gsubrs))"
  by code_simp

text \<open>What the modules set up is given back by their shutdown.\<close>

lemma shutdown_modules_released:
  "g_cookie_pat (shutdown_modules g) = None" "g_time_pat (shutdown_modules g) = None"
  "\<not> g_curl (shutdown_modules g)" "\<not> g_encode (shutdown_modules g)"
  by (simp_all add: shutdown_modules_def shutdown_time_def shutdown_smtp_def shutdown_http_def)

lemma shutdown_releases:
  assumes "init_modules x lt port home (bare_guile cwd) = Inr g"
  shows "g_cookie_pat g \<noteq> None \<and> g_time_pat g \<noteq> None \<and> g_curl g \<and>
    g_cookie_pat (shutdown_modules g) = None \<and> g_time_pat (shutdown_modules g) = None \<and>
    \<not> g_curl (shutdown_modules g) \<and> \<not> g_encode (shutdown_modules g)"
  using init_modules_result [of x lt port home cwd] assms by (auto simp: shutdown_modules_released)

section \<open>Properties\<close>


definition sample_outside :: outside where
  "sample_outside =
     \<lparr>x_getcwd = Some ''/'', x_chdir = (\<lambda>d. True), x_boot_exists = True, x_load_boot = Inr, x_guile_version = ''2.0.11'',
      x_pq_version = 90400, x_curl = True, x_disk = Map.empty\<rparr>"






text \<open>
  How \<open>main\<close> ends: with status 0 in the parent of a daemon, and with status 1 without a socket, before
  anything is set up; and after its loop only with every module shut down.
\<close>

lemma enter_loop_ends:
  "enter_loop c st o1 l g evs = Some (Inr e) \<Longrightarrow>
     (\<exists>w. e = Looping w (g\<lparr>g_log := Some (w_log w)\<rparr>) \<and> w_running w) \<or>
     (\<exists>w. e = Ended w ((shutdown_modules g)\<lparr>g_log := Some (w_log w)\<rparr>))"
  by (auto simp: enter_loop_def bindO_eq_Inr Let_def split: if_splits)

theorem main_exit_status:
  assumes "parse_options (c_options c) default_options = Inr o1"
  shows "(gusher_main x c st cwd evs = Some (Inr (Exited 0)) \<longleftrightarrow> o_background o1 \<and> c_parent c) \<and>
    (gusher_main x c st cwd evs = Some (Inr (Exited 1)) \<longleftrightarrow>
       \<not> (o_background o1 \<and> c_parent c) \<and> http_socket (c_bind c) (c_listen c) (o_port o1) = None) \<and>
    (\<forall>w g. gusher_main x c st cwd evs = Some (Inr (Ended w g)) \<longrightarrow>
       g_cookie_pat g = None \<and> g_time_pat g = None \<and> \<not> g_curl g \<and> \<not> g_encode g \<and> g_log g = Some (w_log w))"
proof -
  have "enter_loop c st o1 l g evs \<noteq> Some (Inr (Exited n))" for l g n using enter_loop_ends by blast
  moreover have "g_cookie_pat g' = None \<and> g_time_pat g' = None \<and> \<not> g_curl g' \<and> \<not> g_encode g' \<and> g_log g' = Some (w_log w)"
    if "enter_loop c st o1 l g evs = Some (Inr (Ended w g'))" for l g w g'
    using enter_loop_ends [OF that] by (auto simp: shutdown_modules_released)
  ultimately show ?thesis using assms by (auto simp: gusher_main_def split: option.splits sum.splits if_splits)
qed

end
