(* ===== verification/Wakeup.thy ===== *)
theory Wakeup
  imports Liveness "HOL-Library.Multiset"
begin

text \<open>
  How dispatchers wait (\<open>main.c\<close>: \<open>dispatcher\<close>, \<open>enqueue_frame\<close>, \<open>add_thread\<close>). \<open>Server\<close> lets a waiting dispatcher
  look at the queue at any time. Here a dispatcher first enters its condition variable into the
  list \<open>qcondvars\<close>, without a lock; then it looks at the queue under \<open>qmutex\<close>, sleeps for at most a second
  when there is nothing to do, and is woken by the main thread, which signals the listed condition
  variables when it puts a frame on an empty queue. The loop refines the waiting threads of \<open>Server\<close>
  (interface \<open>stutter_simulation\<close>), so that the results on the server hold of it.

  A critical section of \<open>qmutex\<close> is one step. The registration is three: reading the list (and
  taking back its protection from the garbage collector), storing the longer list, protecting what the
  variable then holds. The condition variable of dispatcher \<open>i\<close> is the number \<open>i\<close>. Time is in seconds,
  as \<open>time(NULL)\<close> has it.
\<close>

section \<open>State\<close>

datatype dpc =
    Created
  | Consing "nat list"
  | Stored
  | Top
  | Asleep nat
  | Woken bool
  | Away

record dispatch =
  dsv :: server
  pcs :: "dpc list"
  qcondvars :: "nat list"
  protected :: "nat list multiset"
  unbalanced :: bool
  now :: nat

definition init_dispatch :: "nat \<Rightarrow> dispatch" where
  "init_dispatch maxt =
     \<lparr>dsv = init_server maxt, pcs = [], qcondvars = [], protected = {#}, unbalanced = False, now = 0\<rparr>"

definition queued :: "dispatch \<Rightarrow> bool" where
  "queued d \<longleftrightarrow> req_queue (sv_frames (dsv d)) \<noteq> None"

definition goto :: "nat \<Rightarrow> dpc \<Rightarrow> dispatch \<Rightarrow> dispatch" where
  "goto i p d = d\<lparr>pcs := (pcs d)[i := p]\<rparr>"

section \<open>Spawning and signalling\<close>

definition spawn :: "dispatch \<Rightarrow> dispatch" where
  "spawn d =
     (if nthreads (dsv d) \<ge> max_threads (dsv d) then d
      else d\<lparr>dsv := add_thread (dsv d), pcs := pcs d @ [Created]\<rparr>)"

primrec spawn_threads :: "nat \<Rightarrow> dispatch \<Rightarrow> dispatch" where
  "spawn_threads 0 d = d"
| "spawn_threads (Suc n) d = spawn_threads n (spawn d)"

text \<open>A signal wakes a thread that is asleep, and is lost on any other.\<close>

definition signal :: "nat \<Rightarrow> dpc list \<Rightarrow> dpc list" where
  "signal i ps =
     (if i < length ps then case ps ! i of Asleep t \<Rightarrow> ps[i := Woken True] | _ \<Rightarrow> ps else ps)"

primrec signal_all :: "nat list \<Rightarrow> dpc list \<Rightarrow> dpc list" where
  "signal_all [] ps = ps"
| "signal_all (i # node) ps = signal_all node (signal i ps)"

definition queue_and_signal :: "nat \<Rightarrow> dispatch \<Rightarrow> dispatch res" where
  "queue_and_signal a d =
     (let d1 = (if busy_threads (dsv d) \<ge> int (nthreads (dsv d)) then spawn d else d) in
      bindR (enqueue_frame (sv_frames (dsv d1)) a) (\<lambda>(fr, need_sig).
        Inr (d1\<lparr>dsv := (dsv d1)\<lparr>sv_frames := fr, tcount := Suc (tcount (dsv d1)), main_pc := MIdle\<rparr>,
                pcs := (if need_sig then signal_all (qcondvars d1) (pcs d1) else pcs d1)\<rparr>)))"

section \<open>The dispatcher's loop\<close>

text \<open>Registration: the list is read and unprotected, then stored, then protected.\<close>

definition read_condvars :: "nat \<Rightarrow> dispatch \<Rightarrow> dispatch" where
  "read_condvars i d =
     (let q = qcondvars d;
          d1 = goto i (Consing q) d
      in if q \<noteq> []
         then d1\<lparr>protected := protected d - {#q#}, unbalanced := unbalanced d \<or> q \<notin># protected d\<rparr>
         else d1)"

definition store_condvars :: "nat \<Rightarrow> nat list \<Rightarrow> dispatch \<Rightarrow> dispatch" where
  "store_condvars i q d = goto i Stored (d\<lparr>qcondvars := i # q\<rparr>)"

definition protect_condvars :: "nat \<Rightarrow> dispatch \<Rightarrow> dispatch" where
  "protect_condvars i d = goto i Top (d\<lparr>protected := add_mset (qcondvars d) (protected d)\<rparr>)"

definition take_next :: "work \<Rightarrow> nat \<Rightarrow> dispatch \<Rightarrow> dispatch res" where
  "take_next work i d = bindR (take_frame work i (dsv d)) (\<lambda>s. Inr (goto i Away (d\<lparr>dsv := s\<rparr>)))"

text \<open>The queue is looked at under the lock; a timed wait releases the lock and ends at \<open>now + 1\<close>.\<close>

definition look :: "work \<Rightarrow> nat \<Rightarrow> dispatch \<Rightarrow> dispatch res" where
  "look work i d = (if \<not> queued d then Inr (goto i (Asleep (now d + 1)) d) else take_next work i d)"

text \<open>\<open>res\<close> is what the timed wait returned: whether it was a signal.\<close>

definition look_again :: "work \<Rightarrow> nat \<Rightarrow> bool \<Rightarrow> dispatch \<Rightarrow> dispatch res" where
  "look_again work i res d =
     (if \<not> res \<and> \<not> queued d then Inr (goto i Top d)
      else if \<not> queued d then Inr (goto i Top d)
      else take_next work i d)"

lemma look_again_eq: "look_again work i res d = (if queued d then take_next work i d else Inr (goto i Top d))"
  by (simp add: look_again_def)

text \<open>A dispatcher whose request is finished is back at the top of its loop.\<close>

fun rejoin :: "worker \<Rightarrow> dpc \<Rightarrow> dpc" where
  "rejoin Waiting Away = Top"
| "rejoin w p = p"

section \<open>Steps\<close>

text \<open>
  \<open>serve\<close> are the steps of \<open>Server\<close> that neither queue nor take a frame: accepting, filling the frame and
  everything from the taking of a frame to the end of the request.
\<close>

inductive dstep :: "work \<Rightarrow> (nat \<Rightarrow> string \<times> int) \<Rightarrow> dispatch \<Rightarrow> dispatch \<Rightarrow> bool"
  for work :: work and peer :: "nat \<Rightarrow> string \<times> int" where
  serve: "sstep work peer (dsv d) s \<Longrightarrow> tcount s = tcount (dsv d) \<Longrightarrow> taken s = taken (dsv d) \<Longrightarrow>
    dstep work peer d (d\<lparr>dsv := s, pcs := map2 rejoin (workers s) (pcs d)\<rparr>)"
| queue: "\<not> crashed (dsv d) \<Longrightarrow> main_pc (dsv d) = MFilled a \<Longrightarrow> queue_and_signal a d = Inr d' \<Longrightarrow> dstep work peer d d'"
| register: "\<not> crashed (dsv d) \<Longrightarrow> i < length (pcs d) \<Longrightarrow> pcs d ! i = Created \<Longrightarrow> dstep work peer d (read_condvars i d)"
| store: "\<not> crashed (dsv d) \<Longrightarrow> i < length (pcs d) \<Longrightarrow> pcs d ! i = Consing q \<Longrightarrow> dstep work peer d (store_condvars i q d)"
| protect: "\<not> crashed (dsv d) \<Longrightarrow> i < length (pcs d) \<Longrightarrow> pcs d ! i = Stored \<Longrightarrow> dstep work peer d (protect_condvars i d)"
| look: "\<not> crashed (dsv d) \<Longrightarrow> i < length (pcs d) \<Longrightarrow> pcs d ! i = Top \<Longrightarrow> look work i d = Inr d' \<Longrightarrow> dstep work peer d d'"
| timeout: "\<not> crashed (dsv d) \<Longrightarrow> i < length (pcs d) \<Longrightarrow> pcs d ! i = Asleep t \<Longrightarrow> t \<le> now d \<Longrightarrow>
    dstep work peer d (goto i (Woken False) d)"
| look_again: "\<not> crashed (dsv d) \<Longrightarrow> i < length (pcs d) \<Longrightarrow> pcs d ! i = Woken res \<Longrightarrow> look_again work i res d = Inr d' \<Longrightarrow>
    dstep work peer d d'"

text \<open>What happens without the program: time passes, and a wait may end for no reason.\<close>

inductive devent :: "dispatch \<Rightarrow> dispatch \<Rightarrow> bool" where
  tick: "devent d (d\<lparr>now := Suc (now d)\<rparr>)"
| spurious: "i < length (pcs d) \<Longrightarrow> pcs d ! i = Asleep t \<Longrightarrow> devent d (goto i (Woken True) d)"

definition dmove :: "work \<Rightarrow> (nat \<Rightarrow> string \<times> int) \<Rightarrow> dispatch \<Rightarrow> dispatch \<Rightarrow> bool" where
  "dmove work peer d d' \<longleftrightarrow> dstep work peer d d' \<or> devent d d'"

definition start_dispatch :: "nat \<Rightarrow> nat \<Rightarrow> dispatch" where
  "start_dispatch maxt cpus = spawn_threads cpus (init_dispatch maxt)"

text \<open>Registrations that do not overlap.\<close>

fun registering :: "dpc \<Rightarrow> bool" where
  "registering (Consing q) = True"
| "registering Stored = True"
| "registering _ = False"

definition one_registers :: "dispatch \<Rightarrow> bool" where
  "one_registers d \<longleftrightarrow>
     (\<forall>i < length (pcs d). \<forall>j < length (pcs d). registering (pcs d ! i) \<and> registering (pcs d ! j) \<longrightarrow> i = j)"

definition serial_move :: "work \<Rightarrow> (nat \<Rightarrow> string \<times> int) \<Rightarrow> dispatch \<Rightarrow> dispatch \<Rightarrow> bool" where
  "serial_move work peer d d' \<longleftrightarrow> dmove work peer d d' \<and> one_registers d'"

section \<open>The loop refines the waiting threads of the server\<close>

text \<open>
  A simulation with stuttering: a detailed step is a step of the abstract system or leaves its
  state alone, as long as an invariant of the detailed system holds.
\<close>

locale stutter_simulation =
  fixes abs :: "'c \<Rightarrow> 'a" and inv :: "'c \<Rightarrow> bool" and cinit :: 'c and cstep :: "'c \<Rightarrow> 'c \<Rightarrow> bool"
    and ainit :: 'a and astep :: "'a \<Rightarrow> 'a \<Rightarrow> bool"
  assumes inv_init: "inv cinit" and abs_init: "abs cinit = ainit"
    and inv_step: "cstep c c' \<Longrightarrow> inv c \<Longrightarrow> inv c'"
    and abs_step: "cstep c c' \<Longrightarrow> inv c \<Longrightarrow> astep (abs c) (abs c') \<or> abs c' = abs c"
begin

lemma simulated: "cstep\<^sup>*\<^sup>* cinit c \<Longrightarrow> inv c \<and> astep\<^sup>*\<^sup>* ainit (abs c)"
proof (induction rule: rtranclp_induct)
  case (step c c')
  then show ?case using inv_step abs_step [of c c'] by (metis rtranclp.rtrancl_into_rtrancl)
qed (simp add: inv_init abs_init)

lemma invariant_carries_over:
  assumes "cstep\<^sup>*\<^sup>* cinit c" "P ainit" "\<And>a a'. astep a a' \<Longrightarrow> P a \<Longrightarrow> P a'"
  shows "P (abs c)"
proof -
  have "astep\<^sup>*\<^sup>* ainit (abs c)" using simulated assms(1) by blast
  then show ?thesis by induction (use assms(2,3) in auto)
qed

end

definition dinv :: "dispatch \<Rightarrow> bool" where
  "dinv d \<longleftrightarrow> length (pcs d) = length (workers (dsv d)) \<and>
     (\<forall>i < length (pcs d). pcs d ! i = Away \<longleftrightarrow> workers (dsv d) ! i \<noteq> Waiting)"

lemma rejoin_Away: "rejoin w p = Away \<longleftrightarrow> p = Away \<and> w \<noteq> Waiting"
  by (cases "(w, p)" rule: rejoin.cases) auto

lemma rejoin_other: "p \<noteq> Away \<Longrightarrow> rejoin w p = p"
  by (cases "(w, p)" rule: rejoin.cases) auto

text \<open>The steps of \<open>serve\<close> leave the queue and the waiting threads alone.\<close>

lemma serve_keeps:
  assumes "sstep work peer s s'" "tcount s' = tcount s" "taken s' = taken s"
  shows "length (workers s') = length (workers s) \<and> req_queue (sv_frames s') = req_queue (sv_frames s) \<and>
    (\<forall>i < length (workers s). workers s ! i = Waiting \<longrightarrow> workers s' ! i = Waiting)"
  using assms(1)
proof cases
  case (accept fd junk)
  then show ?thesis by (auto simp: accept_conn_def get_frame_def bindR_eq_Inr split: if_splits option.splits)
next
  case (fill a fd c)
  then show ?thesis by (auto simp: fill_frame_def bindR_eq_Inr Let_def)
next
  case (queue a)
  then show ?thesis using assms(2) by (auto simp: queue_frame_def bindR_eq_Inr Let_def add_thread_def split: if_splits)
next
  case (take i)
  then show ?thesis using assms(3) by (auto simp: take_frame_def bindR_eq_Inr set_worker_def split: option.splits)
next
  case (effect i a fd e es r s1)
  then show ?thesis
    by (cases e) (auto simp: perform_def release_frame_def send_to_def close_fd_def bindR_eq_Inr set_worker_def
        nth_list_update split: if_splits)
qed (auto simp: set_worker_def nth_list_update catch_send_def catch_close_def bindR_eq_Inr send_to_def close_fd_def)

lemma length_signal [simp]: "length (signal i ps) = length ps"
  by (simp add: signal_def split: dpc.splits)

lemma length_signal_all [simp]: "length (signal_all node ps) = length ps"
  by (induction node arbitrary: ps) simp_all

lemma nth_signal: "j < length ps \<Longrightarrow>
  signal i ps ! j = (if i = j then case ps ! j of Asleep t \<Rightarrow> Woken True | p \<Rightarrow> p else ps ! j)"
  by (auto simp: signal_def nth_list_update split: dpc.splits)

lemma nth_signal_all: "j < length ps \<Longrightarrow>
  signal_all node ps ! j = (if j \<in> set node then case ps ! j of Asleep t \<Rightarrow> Woken True | p \<Rightarrow> p else ps ! j)"
  by (induction node arbitrary: ps) (auto simp: nth_signal split: dpc.splits)

lemma spawn_abs: "dsv (spawn d) = add_thread (dsv d)"
  by (simp add: spawn_def add_thread_def)

lemma spawn_threads_abs: "dsv (spawn_threads n d) = start_threads n (dsv d)"
  by (induction n arbitrary: d) (simp_all add: spawn_abs)

lemma dinv_spawn: "dinv d \<Longrightarrow> dinv (spawn d)"
  by (auto simp: dinv_def spawn_def add_thread_def nth_append)

lemma dinv_spawn_threads: "dinv d \<Longrightarrow> dinv (spawn_threads n d)"
  by (induction n arbitrary: d) (simp_all add: dinv_spawn)

lemma queue_frame_nconns: "queue_frame a s = Inr s' \<Longrightarrow> nconns s' = nconns s"
  by (auto simp: queue_frame_def add_thread_def bindR_eq_Inr Let_def split: if_splits)

lemma queue_and_signal_abs: "queue_and_signal a d = Inr d' \<Longrightarrow> queue_frame a (dsv d) = Inr (dsv d')"
  by (auto simp: queue_and_signal_def queue_frame_def bindR_eq_Inr Let_def spawn_abs split: if_splits)

lemma enqueue_need_sig: "enqueue_frame fr a = Inr (fr', n) \<Longrightarrow> n = (req_queue fr = None) \<and> req_queue fr' \<noteq> None"
  by (auto simp: enqueue_frame_def bindR_eq_Inr Let_def split: if_splits option.splits)

lemma queue_and_signal_cases:
  assumes "queue_and_signal a d = Inr d'"
  obtains d1 fr where "d1 = spawn d \<or> d1 = d" "req_queue fr \<noteq> None"
    "d' = d1\<lparr>dsv := (dsv d1)\<lparr>sv_frames := fr, tcount := Suc (tcount (dsv d1)), main_pc := MIdle\<rparr>,
       pcs := (if queued d then pcs d1 else signal_all (qcondvars d1) (pcs d1))\<rparr>"
proof -
  let ?d1 = "if busy_threads (dsv d) \<ge> int (nthreads (dsv d)) then spawn d else d"
  obtain fr n where e: "enqueue_frame (sv_frames (dsv ?d1)) a = Inr (fr, n)"
    and d': "d' = ?d1\<lparr>dsv := (dsv ?d1)\<lparr>sv_frames := fr, tcount := Suc (tcount (dsv ?d1)), main_pc := MIdle\<rparr>,
       pcs := (if n then signal_all (qcondvars ?d1) (pcs ?d1) else pcs ?d1)\<rparr>"
    using assms unfolding queue_and_signal_def Let_def bindR_eq_Inr by auto
  have "sv_frames (dsv ?d1) = sv_frames (dsv d)" by (simp add: spawn_abs add_thread_def)
  then have "n = (\<not> queued d)" "req_queue fr \<noteq> None" using enqueue_need_sig [OF e] by (auto simp: queued_def)
  then show thesis using d' by (intro that [of ?d1 fr]) auto
qed

lemma signalled_Away: "j < length ps \<Longrightarrow> signal_all node ps ! j = Away \<longleftrightarrow> ps ! j = Away"
  by (simp add: nth_signal_all split: dpc.splits)

lemma dinv_queue:
  assumes "queue_and_signal a d = Inr d'" "dinv d"
  shows "dinv d'"
  using assms(1)
proof (rule queue_and_signal_cases)
  fix d1 fr
  assume d1: "d1 = spawn d \<or> d1 = d"
    and d': "d' = d1\<lparr>dsv := (dsv d1)\<lparr>sv_frames := fr, tcount := Suc (tcount (dsv d1)), main_pc := MIdle\<rparr>,
       pcs := (if queued d then pcs d1 else signal_all (qcondvars d1) (pcs d1))\<rparr>"
  have "dinv d1" using d1 assms(2) dinv_spawn by auto
  then show ?thesis by (simp add: d' dinv_def signalled_Away)
qed

lemma take_next_abs: "take_next work i d = Inr d' \<Longrightarrow> take_frame work i (dsv d) = Inr (dsv d')"
  by (auto simp: take_next_def bindR_eq_Inr goto_def)

lemma take_frame_cases:
  assumes "take_frame work i s = Inr s'" "req_queue (sv_frames s) \<noteq> None"
  obtains w n where "w \<noteq> Waiting" "workers s' = (workers s)[i := w]" "taken s' = taken s @ [n]"
proof -
  obtain a f w where "workers s' = (workers s)[i := w]" "taken s' = taken s @ [fr_count f]"
    and "w = (case start_work work s f of None \<Rightarrow> Hung | Some (es, r) \<Rightarrow> Serving a (fr_sock f) es r)"
    using assms by (auto simp: take_frame_def dequeue_frame_def bindR_eq_Inr set_worker_def)
  then show thesis using that by (auto split: option.splits)
qed

lemma dinv_take_next:
  assumes "take_next work i d = Inr d'" "dinv d" "queued d" "i < length (pcs d)"
  shows "dinv d'"
proof -
  obtain s where s: "take_frame work i (dsv d) = Inr s" "d' = goto i Away (d\<lparr>dsv := s\<rparr>)"
    using assms(1) by (auto simp: take_next_def bindR_eq_Inr)
  obtain w where "w \<noteq> Waiting" "workers s = (workers (dsv d))[i := w]"
    using take_frame_cases [OF s(1)] assms(3) by (auto simp: queued_def)
  then show ?thesis using assms(2,4) by (simp add: s(2) dinv_def goto_def nth_list_update)
qed

lemma dinv_goto: "dinv d \<Longrightarrow> i < length (pcs d) \<Longrightarrow> pcs d ! i \<noteq> Away \<Longrightarrow> p \<noteq> Away \<Longrightarrow> dinv (goto i p d)"
  by (auto simp: dinv_def goto_def nth_list_update)

lemma dinv_frame: "dinv d \<Longrightarrow> dsv d' = dsv d \<Longrightarrow> pcs d' = pcs d \<Longrightarrow> dinv d'"
  by (simp add: dinv_def)

lemma dinv_step:
  assumes "dstep work peer d d'" "dinv d"
  shows "dinv d'"
  using assms(1)
proof cases
  case (serve s)
  note k = serve_keeps [OF serve(2-4)]
  have l: "length (pcs d) = length (workers s)" using assms(2) k by (simp add: dinv_def)
  have "map2 rejoin (workers s) (pcs d) ! i = Away \<longleftrightarrow> workers s ! i \<noteq> Waiting" if "i < length (pcs d)" for i
    using that assms(2) k l by (auto simp: rejoin_Away dinv_def)
  then show ?thesis using l by (simp add: serve(1) dinv_def)
next
  case (queue a)
  then show ?thesis using dinv_queue assms(2) by blast
next
  case (look i)
  then show ?thesis
    using dinv_take_next assms(2) dinv_goto [OF assms(2)] by (auto simp: look_def split: if_splits)
next
  case (look_again i res)
  then show ?thesis
    using dinv_take_next assms(2) dinv_goto [OF assms(2)] by (auto simp: look_again_eq split: if_splits)
next
  case (register i)
  then have "dinv (goto i (Consing (qcondvars d)) d)" by (simp add: dinv_goto assms(2))
  then show ?thesis unfolding register(1) by (rule dinv_frame) (simp_all add: read_condvars_def Let_def)
next
  case (store i q)
  then have "dinv (goto i Stored d)" by (simp add: dinv_goto assms(2))
  then show ?thesis unfolding store(1) by (rule dinv_frame) (simp_all add: store_condvars_def goto_def)
next
  case (protect i)
  then have "dinv (goto i Top d)" by (simp add: dinv_goto assms(2))
  then show ?thesis unfolding protect(1) by (rule dinv_frame) (simp_all add: protect_condvars_def goto_def)
qed (simp add: dinv_goto assms(2))

lemma dinv_event: "devent d d' \<Longrightarrow> dinv d \<Longrightarrow> dinv d' \<and> dsv d' = dsv d"
proof (induction rule: devent.induct)
  case (spurious i d t)
  then show ?case by (simp add: dinv_goto) (simp add: goto_def)
qed (simp add: dinv_def)

lemma step_abs:
  assumes "dstep work peer d d'" "dinv d"
  shows "sstep work peer (dsv d) (dsv d') \<or> dsv d' = dsv d"
  using assms(1)
proof cases
  case (queue a)
  then show ?thesis using sstep.queue queue_and_signal_abs by blast
next
  case (look i)
  have "i < length (workers (dsv d))" "workers (dsv d) ! i = Waiting" using look assms(2) by (auto simp: dinv_def)
  then show ?thesis
    using look sstep.take take_next_abs by (auto simp: look_def goto_def split: if_splits)
next
  case (look_again i res)
  have "i < length (workers (dsv d))" "workers (dsv d) ! i = Waiting" using look_again assms(2) by (auto simp: dinv_def)
  then show ?thesis
    using look_again sstep.take take_next_abs by (auto simp: look_again_eq goto_def split: if_splits)
qed (auto simp: goto_def read_condvars_def store_condvars_def protect_condvars_def Let_def)

interpretation ds: stutter_simulation dsv dinv "start_dispatch maxt cpus" "dmove work peer"
    "start_threads cpus (init_server maxt)" "sstep work peer"
  for maxt cpus :: nat and work :: work and peer :: "nat \<Rightarrow> string \<times> int"
proof
  have "dinv (init_dispatch maxt)" by (simp add: dinv_def init_dispatch_def init_server_def)
  then show "dinv (start_dispatch maxt cpus)" unfolding start_dispatch_def by (rule dinv_spawn_threads)
  show "dsv (start_dispatch maxt cpus) = start_threads cpus (init_server maxt)"
    by (simp add: start_dispatch_def spawn_threads_abs init_dispatch_def)
next
  fix d d' assume "dmove work peer d d'" "dinv d"
  then show "dinv d'" using dinv_step dinv_event by (auto simp: dmove_def)
next
  fix d d' assume "dmove work peer d d'" "dinv d"
  then show "sstep work peer (dsv d) (dsv d') \<or> dsv d' = dsv d" using step_abs dinv_event by (auto simp: dmove_def)
qed

lemma reachable_run: "(sstep work peer)\<^sup>*\<^sup>* (start_threads cpus (init_server maxt)) s \<Longrightarrow> reachable work peer maxt cpus s"
  by (induction rule: rtranclp_induct) (auto intro: reachable.intros)

lemma dispatch_reachable:
  assumes "(dmove work peer)\<^sup>*\<^sup>* (start_dispatch maxt cpus) d"
  shows "reachable work peer maxt cpus (dsv d)" "dinv d"
  using ds.simulated [OF assms] reachable_run by blast+

section \<open>No wake-up is lost when registrations do not overlap\<close>

fun enrolled :: "dpc \<Rightarrow> bool" where
  "enrolled Created = False"
| "enrolled (Consing q) = False"
| "enrolled _ = True"

fun sleeping :: "dpc \<Rightarrow> bool" where
  "sleeping (Asleep t) = True"
| "sleeping _ = False"

definition asleep :: "dispatch \<Rightarrow> nat \<Rightarrow> bool" where
  "asleep d i \<longleftrightarrow> i < length (pcs d) \<and> sleeping (pcs d ! i)"

definition enrolment :: "dispatch \<Rightarrow> bool" where
  "enrolment d \<longleftrightarrow>
     set (qcondvars d) = {i. i < length (pcs d) \<and> enrolled (pcs d ! i)} \<and> distinct (qcondvars d) \<and>
     (\<forall>i < length (pcs d). \<forall>q. pcs d ! i = Consing q \<longrightarrow> q = qcondvars d) \<and>
     protected d = (if qcondvars d = [] \<or> (\<exists>p \<in> set (pcs d). registering p) then {#} else {#qcondvars d#}) \<and>
     \<not> unbalanced d"

definition cvinv :: "dispatch \<Rightarrow> bool" where
  "cvinv d \<longleftrightarrow> enrolment d \<and> (queued d \<longrightarrow> (\<forall>i. \<not> asleep d i))"

lemma enrolment_set: "enrolment d \<Longrightarrow> i \<in> set (qcondvars d) \<longleftrightarrow> i < length (pcs d) \<and> enrolled (pcs d ! i)"
  by (simp add: enrolment_def)

lemma enrolment_cong:
  assumes "enrolment d" "qcondvars d' = qcondvars d" "protected d' = protected d" "unbalanced d' = unbalanced d"
    and "length (pcs d') = length (pcs d)"
    and "\<And>i. i < length (pcs d) \<Longrightarrow> enrolled (pcs d' ! i) = enrolled (pcs d ! i) \<and>
        registering (pcs d' ! i) = registering (pcs d ! i) \<and> (\<forall>q. pcs d' ! i = Consing q \<longrightarrow> pcs d ! i = Consing q)"
  shows "enrolment d'"
proof -
  have "(\<exists>p \<in> set (pcs d'). registering p) = (\<exists>p \<in> set (pcs d). registering p)"
    using assms(5,6) by (metis in_set_conv_nth)
  moreover have "{i. i < length (pcs d') \<and> enrolled (pcs d' ! i)} = {i. i < length (pcs d) \<and> enrolled (pcs d ! i)}"
    using assms(5,6) by auto
  ultimately show ?thesis using assms unfolding enrolment_def by simp
qed

lemma enrolment_goto:
  assumes "enrolment d" "enrolled p = enrolled (pcs d ! i)" "registering p = registering (pcs d ! i)"
    and "\<And>q. p \<noteq> Consing q"
  shows "enrolment (goto i p d)"
proof (rule enrolment_cong [OF assms(1)])
  fix j assume "j < length (pcs d)"
  then show "enrolled (pcs (goto i p d) ! j) = enrolled (pcs d ! j) \<and>
      registering (pcs (goto i p d) ! j) = registering (pcs d ! j) \<and>
      (\<forall>q. pcs (goto i p d) ! j = Consing q \<longrightarrow> pcs d ! j = Consing q)"
    using assms(2-4) by (cases "i = j") (auto simp: goto_def)
qed (simp_all add: goto_def)

lemma enrolment_spawn: "enrolment d \<Longrightarrow> enrolment (spawn d)"
  by (auto simp: enrolment_def spawn_def nth_append less_Suc_eq)

lemma spawn_threads_created: "set (pcs d) \<subseteq> {Created} \<Longrightarrow> set (pcs (spawn_threads n d)) \<subseteq> {Created}"
proof (induction n arbitrary: d)
  case (Suc n)
  have "set (pcs (spawn d)) \<subseteq> {Created}" using Suc.prems by (auto simp: spawn_def)
  then show ?case by (simp add: Suc.IH)
qed simp

lemma spawn_threads_enrolment: "enrolment d \<Longrightarrow> enrolment (spawn_threads n d)"
  by (induction n arbitrary: d) (simp_all add: enrolment_spawn)

lemma asleep_spawn: "asleep (spawn d) i \<longleftrightarrow> asleep d i"
  by (auto simp: asleep_def spawn_def nth_append less_Suc_eq)

lemma asleep_goto: "asleep (goto i p d) j \<longleftrightarrow> (if i = j \<and> i < length (pcs d) then sleeping p else asleep d j)"
  by (cases "i = j") (auto simp: asleep_def goto_def)

lemma queued_goto [simp]: "queued (goto i p d) = queued d"
  by (simp add: queued_def goto_def)

lemma not_registering:
  assumes "one_registers d" "i < length (pcs d)" "registering (pcs d ! i)" "p \<in> set ((pcs d)[i := x])" "registering p"
  shows "p = x"
proof (rule ccontr)
  assume "p \<noteq> x"
  obtain j where j: "j < length (pcs d)" "(pcs d)[i := x] ! j = p" using assms(4) by (metis in_set_conv_nth length_list_update)
  then have "i \<noteq> j" "pcs d ! j = p" using \<open>p \<noteq> x\<close> by (metis nth_list_update_eq, metis nth_list_update_eq nth_list_update_neq)
  then show False using assms(1-3,5) j(1) unfolding one_registers_def by blast
qed

lemma registration_pcs [simp]:
  "pcs (read_condvars i d) = (pcs d)[i := Consing (qcondvars d)]"
  "pcs (store_condvars i q d) = (pcs d)[i := Stored]"
  "pcs (protect_condvars i d) = (pcs d)[i := Top]"
  by (simp_all add: read_condvars_def store_condvars_def protect_condvars_def goto_def Let_def)

lemma registration_qcondvars [simp]:
  "qcondvars (read_condvars i d) = qcondvars d"
  "qcondvars (store_condvars i q d) = i # q"
  "qcondvars (protect_condvars i d) = qcondvars d"
  by (simp_all add: read_condvars_def store_condvars_def protect_condvars_def goto_def Let_def)

lemma enrolment_register:
  assumes "enrolment d" "i < length (pcs d)" "pcs d ! i = Created" "one_registers (read_condvars i d)"
  shows "enrolment (read_condvars i d)"
proof -
  let ?d = "read_condvars i d"
  have "\<not> registering (pcs d ! j)" if j: "j < length (pcs d)" for j
  proof
    assume "registering (pcs d ! j)"
    then have "registering (pcs ?d ! j)" "registering (pcs ?d ! i)" "j \<noteq> i"
      using assms(2,3) j by (auto simp: nth_list_update)
    then show False using assms(2,4) j unfolding one_registers_def registration_pcs by (metis length_list_update)
  qed
  then have "\<forall>p \<in> set (pcs d). \<not> registering p" by (auto simp: in_set_conv_nth)
  then have "protected d = (if qcondvars d = [] then {#} else {#qcondvars d#})"
    using assms(1) by (auto simp: enrolment_def)
  moreover have "\<exists>p \<in> set (pcs ?d). registering p"
    unfolding registration_pcs by (rule bexI [OF _ set_update_memI [OF assms(2)]]) simp
  moreover have "set (qcondvars d) = {j. j < length (pcs ?d) \<and> enrolled (pcs ?d ! j)}"
  proof (rule set_eqI)
    fix j show "j \<in> set (qcondvars d) \<longleftrightarrow> j \<in> {j. j < length (pcs ?d) \<and> enrolled (pcs ?d ! j)}"
      using assms(2,3) by (cases "i = j") (simp_all add: enrolment_set [OF assms(1)])
  qed
  moreover have "pcs ?d ! j = Consing q' \<Longrightarrow> q' = qcondvars d" if "j < length (pcs d)" for j q'
    using assms(1,2) that by (cases "i = j") (auto simp: enrolment_def)
  moreover have "unbalanced ?d = (unbalanced d \<or> qcondvars d \<noteq> [] \<and> qcondvars d \<notin># protected d)"
    "protected ?d = (if qcondvars d = [] then protected d else protected d - {#qcondvars d#})"
    by (simp_all add: read_condvars_def goto_def Let_def)
  ultimately show ?thesis using assms(1) unfolding enrolment_def by simp
qed

lemma enrolment_store:
  assumes "enrolment d" "i < length (pcs d)" "pcs d ! i = Consing q" "one_registers d"
  shows "enrolment (store_condvars i q d)"
proof -
  let ?d = "store_condvars i q d"
  have "\<exists>p \<in> set (pcs d). registering p" using assms(2,3) nth_mem by (metis registering.simps(1))
  then have q: "q = qcondvars d" "i \<notin> set q" "protected d = {#}" "distinct q"
    using assms(1-3) by (auto simp: enrolment_def)
  have "\<exists>p \<in> set (pcs ?d). registering p"
    unfolding registration_pcs by (rule bexI [OF _ set_update_memI [OF assms(2)]]) simp
  moreover have "pcs ?d ! j \<noteq> Consing q'" if "j < length (pcs d)" for j q'
    using not_registering [OF assms(4,2), of "pcs ?d ! j" Stored] assms(2,3) that by auto
  moreover have "set (i # q) = {j. j < length (pcs ?d) \<and> enrolled (pcs ?d ! j)}"
  proof (rule set_eqI)
    fix j show "j \<in> set (i # q) \<longleftrightarrow> j \<in> {j. j < length (pcs ?d) \<and> enrolled (pcs ?d ! j)}"
      using assms(2) by (cases "i = j") (simp_all add: q(1) enrolment_set [OF assms(1)])
  qed
  ultimately show ?thesis using q assms(1) by (simp add: enrolment_def) (simp add: store_condvars_def goto_def)
qed

lemma enrolment_protect:
  assumes "enrolment d" "i < length (pcs d)" "pcs d ! i = Stored" "one_registers d"
  shows "enrolment (protect_condvars i d)"
proof -
  let ?d = "protect_condvars i d"
  have "\<exists>p \<in> set (pcs d). registering p" using assms(2,3) nth_mem by (metis registering.simps(2))
  then have q: "i \<in> set (qcondvars d)" "protected d = {#}"
    using assms(1-3) by (auto simp: enrolment_def)
  have "\<not> (\<exists>p \<in> set (pcs ?d). registering p)"
    using not_registering [OF assms(4,2), of _ Top] assms(3) unfolding registration_pcs by (metis registering.simps(2,4))
  moreover have "set (qcondvars d) = {j. j < length (pcs ?d) \<and> enrolled (pcs ?d ! j)}"
  proof (rule set_eqI)
    fix j show "j \<in> set (qcondvars d) \<longleftrightarrow> j \<in> {j. j < length (pcs ?d) \<and> enrolled (pcs ?d ! j)}"
      using assms(2,3) by (cases "i = j") (simp_all add: enrolment_set [OF assms(1)])
  qed
  moreover have "q' = qcondvars d" if "j < length (pcs d)" "pcs ?d ! j = Consing q'" for j q'
    using that assms(1,2) by (cases "i = j") (auto simp: enrolment_def)
  moreover have "protected ?d = {#qcondvars d#}" "unbalanced ?d = unbalanced d"
    using q(2) by (simp_all add: protect_condvars_def goto_def)
  moreover have "distinct (qcondvars d)" "\<not> unbalanced d" using assms(1) by (simp_all add: enrolment_def)
  ultimately show ?thesis using q(1) unfolding enrolment_def by auto
qed

lemma enrolment_serve:
  assumes "enrolment d" "dinv d" "sstep work peer (dsv d) s" "tcount s = tcount (dsv d)" "taken s = taken (dsv d)"
  shows "enrolment (d\<lparr>dsv := s, pcs := map2 rejoin (workers s) (pcs d)\<rparr>)"
    "asleep (d\<lparr>dsv := s, pcs := map2 rejoin (workers s) (pcs d)\<rparr>) i = asleep d i"
proof -
  let ?ps = "map2 rejoin (workers s) (pcs d)"
  have l: "length (pcs d) = length (workers s)" using assms(2) serve_keeps [OF assms(3-5)] by (simp add: dinv_def)
  have n: "?ps ! j = (if pcs d ! j = Away \<and> workers s ! j = Waiting then Top else pcs d ! j)" if "j < length (pcs d)" for j
    using that l rejoin_other by (cases "pcs d ! j = Away"; cases "workers s ! j") auto
  show "enrolment (d\<lparr>dsv := s, pcs := ?ps\<rparr>)"
    by (rule enrolment_cong [OF assms(1)]) (use l n in \<open>auto split: if_splits\<close>)
  show "asleep (d\<lparr>dsv := s, pcs := ?ps\<rparr>) i = asleep d i"
    using l n [of i] by (cases "i < length (pcs d)") (auto simp: asleep_def simp del: nth_map)
qed

lemma cvinv_queue:
  assumes "queue_and_signal a d = Inr d'" "cvinv d"
  shows "cvinv d'"
  using assms(1)
proof (rule queue_and_signal_cases)
  fix d1 fr
  assume d1: "d1 = spawn d \<or> d1 = d"
    and d': "d' = d1\<lparr>dsv := (dsv d1)\<lparr>sv_frames := fr, tcount := Suc (tcount (dsv d1)), main_pc := MIdle\<rparr>,
       pcs := (if queued d then pcs d1 else signal_all (qcondvars d1) (pcs d1))\<rparr>"
  have e: "enrolment d1" using d1 assms(2) enrolment_spawn by (auto simp: cvinv_def)
  have s: "asleep d1 i = asleep d i" for i using d1 asleep_spawn by auto
  have "enrolment d'"
    by (rule enrolment_cong [OF e]) (auto simp: d' nth_signal_all split: dpc.splits)
  moreover have "\<not> asleep d' i" for i
  proof (cases "queued d")
    case True
    then show ?thesis using assms(2) s [of i] by (simp add: cvinv_def d' asleep_def)
  next
    case False
    have "asleep d1 i \<Longrightarrow> i \<in> set (qcondvars d1)" using enrolment_set [OF e, of i] by (cases "pcs d1 ! i") (auto simp: asleep_def)
    then show ?thesis using False by (cases "pcs d1 ! i") (auto simp: d' asleep_def nth_signal_all)
  qed
  ultimately show ?thesis by (simp add: cvinv_def)
qed

lemma cvinv_take:
  assumes "take_next work i d = Inr d'" "cvinv d" "queued d" "i < length (pcs d)" "pcs d ! i = Top \<or> pcs d ! i = Woken r"
  shows "cvinv d'"
proof -
  obtain s where d': "d' = goto i Away (d\<lparr>dsv := s\<rparr>)" using assms(1) by (auto simp: take_next_def bindR_eq_Inr)
  have e: "enrolment (d\<lparr>dsv := s\<rparr>)" using assms(2) by (auto simp: cvinv_def intro: enrolment_cong)
  have "enrolment d'" unfolding d' by (rule enrolment_goto [OF e]) (use assms(5) in auto)
  moreover have "\<not> asleep d' j" for j
    using assms(2,3) unfolding d' asleep_goto by (simp add: cvinv_def asleep_def)
  ultimately show ?thesis by (simp add: cvinv_def)
qed

lemma cvinv_goto:
  assumes "cvinv d" "i < length (pcs d)" "enrolled (pcs d ! i)" "\<not> registering (pcs d ! i)"
    and "enrolled p" "\<not> registering p" "queued d \<Longrightarrow> \<not> sleeping p"
  shows "cvinv (goto i p d)"
  using assms enrolment_goto [of d p i] by (fastforce simp: cvinv_def asleep_goto)

lemma cvinv_step:
  assumes "dstep work peer d d'" "cvinv d" "dinv d" "one_registers d" "one_registers d'"
  shows "cvinv d'"
  using assms(1)
proof cases
  case (serve s)
  have "queued d' = queued d" using serve_keeps [OF serve(2-4)] by (simp add: queued_def serve(1))
  then show ?thesis
    using enrolment_serve [OF _ assms(3) serve(2-4)] assms(2) by (simp add: cvinv_def serve(1))
next
  case (queue a)
  then show ?thesis using cvinv_queue assms(2) by blast
next
  case (register i)
  then have "enrolment d'" using enrolment_register assms(2,5) by (simp add: cvinv_def)
  moreover have "asleep d' j \<Longrightarrow> asleep d j" for j
    using asleep_goto [of i "Consing (qcondvars d)" d j] register
    by (auto simp: read_condvars_def Let_def asleep_def split: if_splits)
  moreover have "queued d' = queued d" by (simp add: register(1) read_condvars_def Let_def queued_def goto_def)
  ultimately show ?thesis using assms(2) by (auto simp: cvinv_def)
next
  case (store i q)
  then have "enrolment d'" using enrolment_store assms(2,4) by (simp add: cvinv_def)
  moreover have "asleep d' j \<Longrightarrow> asleep d j" for j
    using asleep_goto [of i Stored "d\<lparr>qcondvars := i # q\<rparr>" j] store
    by (auto simp: store_condvars_def asleep_def split: if_splits)
  moreover have "queued d' = queued d" by (simp add: store(1) store_condvars_def queued_def goto_def)
  ultimately show ?thesis using assms(2) by (auto simp: cvinv_def)
next
  case (protect i)
  then have "enrolment d'" using enrolment_protect assms(2,4) by (simp add: cvinv_def)
  moreover have "asleep d' j \<Longrightarrow> asleep d j" for j
    using asleep_goto [of i Top "d\<lparr>protected := add_mset (qcondvars d) (protected d)\<rparr>" j] protect
    by (auto simp: protect_condvars_def asleep_def split: if_splits)
  moreover have "queued d' = queued d" by (simp add: protect(1) protect_condvars_def queued_def goto_def)
  ultimately show ?thesis using assms(2) by (auto simp: cvinv_def)
next
  case (look i)
  then show ?thesis using cvinv_take assms(2) cvinv_goto [OF assms(2)] by (auto simp: look_def split: if_splits)
next
  case (look_again i res)
  then show ?thesis using cvinv_take assms(2) cvinv_goto [OF assms(2)] by (auto simp: look_again_eq split: if_splits)
next
  case (timeout i t)
  then show ?thesis using cvinv_goto [OF assms(2)] by auto
qed

lemma cvinv_event: "devent d d' \<Longrightarrow> cvinv d \<Longrightarrow> cvinv d'"
proof (induction rule: devent.induct)
  case (tick d)
  then show ?case by (auto simp: cvinv_def queued_def asleep_def intro: enrolment_cong)
qed (simp add: cvinv_goto)

lemma serial_invariant:
  assumes "(serial_move work peer)\<^sup>*\<^sup>* (start_dispatch maxt cpus) d"
  shows "cvinv d \<and> dinv d \<and> one_registers d"
  using assms
proof (induction rule: rtranclp_induct)
  case base
  let ?d = "start_dispatch maxt cpus"
  have "set (pcs ?d) \<subseteq> {Created}"
    unfolding start_dispatch_def by (rule spawn_threads_created) (simp add: init_dispatch_def)
  then have "pcs ?d ! i = Created" if "i < length (pcs ?d)" for i using that nth_mem by blast
  moreover have "enrolment ?d"
    unfolding start_dispatch_def by (rule spawn_threads_enrolment) (simp add: enrolment_def init_dispatch_def)
  ultimately show ?case using ds.inv_init by (simp add: cvinv_def asleep_def one_registers_def)
next
  case (step d d')
  then have "dmove work peer d d'" "one_registers d'" by (simp_all add: serial_move_def)
  then show ?case using step.IH cvinv_step cvinv_event dinv_step dinv_event by (auto simp: dmove_def)
qed

section \<open>Between two events the loop comes to rest\<close>

text \<open>A step of a thread that changes something and accepts no connection.\<close>

definition ddrain :: "work \<Rightarrow> (nat \<Rightarrow> string \<times> int) \<Rightarrow> dispatch \<Rightarrow> dispatch \<Rightarrow> bool" where
  "ddrain work peer d d' \<longleftrightarrow> dstep work peer d d' \<and> d' \<noteq> d \<and> nconns (dsv d') = nconns (dsv d)"

lemma ddrain_move: "ddrain work peer d d' \<Longrightarrow> dmove work peer d d'"
  by (simp add: ddrain_def dmove_def)

fun pc_rank :: "nat \<Rightarrow> dpc \<Rightarrow> nat" where
  "pc_rank n Created = 6"
| "pc_rank n (Consing q) = 5"
| "pc_rank n Stored = 4"
| "pc_rank n (Asleep t) = (if t \<le> n then 3 else 0)"
| "pc_rank n (Woken r) = 2"
| "pc_rank n Top = 1"
| "pc_rank n Away = 0"

definition idle_rank :: "dispatch \<Rightarrow> nat" where
  "idle_rank d = sum_list (map (pc_rank (now d)) (pcs d))"

definition ddrain_order :: "(dispatch \<times> dispatch) set" where
  "ddrain_order = inv_image (drain_order <*lex*> less_than) (\<lambda>d. (dsv d, idle_rank d))"

lemma wf_ddrain_order: "wf ddrain_order"
  by (simp add: ddrain_order_def wf_drain_order wf_inv_image wf_lex_prod)

lemma ddrain_order_server: "(dsv d', dsv d) \<in> drain_order \<Longrightarrow> (d', d) \<in> ddrain_order"
  by (simp add: ddrain_order_def)

lemma ddrain_order_pc:
  assumes "dsv d' = dsv d" "now d' = now d" "pcs d' = (pcs d)[i := p]"
    and "i < length (pcs d)" "pc_rank (now d) p < pc_rank (now d) (pcs d ! i)"
  shows "(d', d) \<in> ddrain_order"
  using assms sum_list_rank [of i "pcs d" "pc_rank (now d)" p] by (simp add: ddrain_order_def idle_rank_def)

lemma registration_dsv [simp]:
  "dsv (read_condvars i d) = dsv d" "dsv (store_condvars i q d) = dsv d" "dsv (protect_condvars i d) = dsv d"
  "now (read_condvars i d) = now d" "now (store_condvars i q d) = now d" "now (protect_condvars i d) = now d"
  by (simp_all add: read_condvars_def store_condvars_def protect_condvars_def goto_def Let_def)

lemma rejoin_idle: "dinv d \<Longrightarrow> map2 rejoin (workers (dsv d)) (pcs d) = pcs d"
proof (rule nth_equalityI)
  assume "dinv d"
  then show "length (map2 rejoin (workers (dsv d)) (pcs d)) = length (pcs d)" by (simp add: dinv_def)
  fix i assume "i < length (map2 rejoin (workers (dsv d)) (pcs d))"
  then show "map2 rejoin (workers (dsv d)) (pcs d) ! i = pcs d ! i"
    using \<open>dinv d\<close> by (cases "pcs d ! i = Away"; cases "workers (dsv d) ! i") (auto simp: dinv_def rejoin_other)
qed

lemma take_next_drains:
  assumes "take_next work i d = Inr d'" "queued d" "sinv strict (dsv d)"
  shows "(d', d) \<in> ddrain_order"
proof -
  have t: "take_frame work i (dsv d) = Inr (dsv d')" by (rule take_next_abs [OF assms(1)])
  then obtain n where "taken (dsv d') = taken (dsv d) @ [n]"
    using take_frame_cases [OF t] assms(2) by (metis queued_def)
  then have "dsv d' \<noteq> dsv d" by auto
  then show ?thesis using drain_take [OF assms(3) t] ddrain_order_server by blast
qed

context request_worker
begin

lemma ddrain_decreases:
  assumes "ddrain work peer d d'" "dinv d" "sinv strict (dsv d)"
  shows "(d', d) \<in> ddrain_order"
proof -
  have st: "dstep work peer d d'" "d' \<noteq> d" "nconns (dsv d') = nconns (dsv d)" using assms(1) by (simp_all add: ddrain_def)
  from st(1) show ?thesis
  proof cases
    case (serve s)
    have "s \<noteq> dsv d" using st(2) rejoin_idle [OF assms(2)] by (auto simp: serve(1))
    then have "drain work peer (dsv d) s" using serve st(3) by (simp add: drain_def)
    then show ?thesis using drain_decreases assms(3) ddrain_order_server by (simp add: serve(1))
  next
    case (queue a)
    then show ?thesis using drain_queue queue_and_signal_abs ddrain_order_server by blast
  next
    case (register i)
    show ?thesis unfolding register(1) by (rule ddrain_order_pc) (use register in auto)
  next
    case (store i q)
    show ?thesis unfolding store(1) by (rule ddrain_order_pc) (use store in auto)
  next
    case (protect i)
    show ?thesis unfolding protect(1) by (rule ddrain_order_pc) (use protect in auto)
  next
    case (look i)
    show ?thesis
    proof (cases "queued d")
      case False
      then show ?thesis using look by (intro ddrain_order_pc [of _ _ i "Asleep (now d + 1)"]) (auto simp: look_def goto_def)
    qed (use look assms(3) take_next_drains in \<open>auto simp: look_def\<close>)
  next
    case (timeout i t)
    show ?thesis unfolding timeout(1) by (rule ddrain_order_pc [of _ _ i "Woken False"]) (use timeout in \<open>auto simp: goto_def\<close>)
  next
    case (look_again i res)
    show ?thesis
    proof (cases "queued d")
      case False
      then show ?thesis using look_again by (intro ddrain_order_pc [of _ _ i Top]) (auto simp: look_again_eq goto_def)
    qed (use look_again assms(3) take_next_drains in \<open>auto simp: look_again_eq\<close>)
  qed
qed

lemma ddrain_run_ends:
  assumes "(dmove work peer)\<^sup>*\<^sup>* (start_dispatch maxt cpus) (f 0)"
  shows "\<not> (\<forall>i. ddrain work peer (f i) (f (Suc i)))"
proof
  assume run: "\<forall>i. ddrain work peer (f i) (f (Suc i))"
  have "(dmove work peer)\<^sup>*\<^sup>* (start_dispatch maxt cpus) (f i)" for i
    by (induction i) (use assms run ddrain_move in \<open>blast intro: rtranclp.rtrancl_into_rtrancl\<close>)+
  then have "dinv (f i)" "sinv False (dsv (f i))" for i
    using dispatch_reachable sinv_reachable [of peer maxt cpus "dsv (f i)" False] by blast+
  then have "(f (Suc i), f i) \<in> ddrain_order" for i using run ddrain_decreases by blast
  then show False using wf_ddrain_order unfolding wf_iff_no_infinite_down_chain by blast
qed

lemma ddrainI:
  "dstep work peer d d' \<Longrightarrow> (d', d) \<in> ddrain_order \<Longrightarrow> nconns (dsv d') = nconns (dsv d) \<Longrightarrow> ddrain work peer d d'"
  using wf_ddrain_order by (auto simp: ddrain_def)

lemma ddrain_serve:
  "serve_drain work peer (dsv d) s \<Longrightarrow> ddrain work peer d (d\<lparr>dsv := s, pcs := map2 rejoin (workers s) (pcs d)\<rparr>)"
  by (auto simp: serve_drain_def drain_def ddrain_def intro!: dstep.serve dest: arg_cong [of _ _ dsv])

lemma ddrain_main:
  assumes "sinv strict (dsv d)" "strict \<longrightarrow> no_late_throw work" "\<not> crashed (dsv d)" "main_pc (dsv d) \<noteq> MIdle"
  shows "\<exists>d'. ddrain work peer d d'"
proof (cases "main_pc (dsv d)")
  case (MGot a fd c)
  then obtain s where s: "fill_frame peer a fd c (dsv d) = Inr s" using steps_enabled(2) [OF assms(1,2)] by blast
  have "serve_drain work peer (dsv d) s"
    by (rule serve_drainI [OF fill [OF assms(3) MGot s]])
      (use s MGot in \<open>auto simp: fill_frame_def bindR_eq_Inr Let_def drain_order_def unqueued_def\<close>)
  then show ?thesis using ddrain_serve by blast
next
  case (MFilled a)
  then obtain s where s: "queue_frame a (dsv d) = Inr s" using steps_enabled(3) [OF assms(1,2)] by blast
  then obtain d' where d': "queue_and_signal a d = Inr d'"
    by (auto simp: queue_and_signal_def queue_frame_def bindR_eq_Inr Let_def spawn_abs split: if_splits)
  then have "queue_frame a (dsv d) = Inr (dsv d')" by (rule queue_and_signal_abs)
  then have "ddrain work peer d d'"
    by (intro ddrainI dstep.queue [OF assms(3) MFilled d'] ddrain_order_server drain_queue [OF MFilled])
      (simp_all add: queue_frame_nconns)
  then show ?thesis by blast
qed (use assms(4) in simp)

lemma ddrain_take:
  assumes "dinv d" "sinv strict (dsv d)" "strict \<longrightarrow> no_late_throw work" "i < length (pcs d)" "pcs d ! i \<noteq> Away" "queued d"
  shows "\<exists>d'. take_next work i d = Inr d' \<and> (d', d) \<in> ddrain_order \<and> nconns (dsv d') = nconns (dsv d)"
proof -
  have "i < length (workers (dsv d))" "workers (dsv d) ! i = Waiting" using assms(1,4,5) by (auto simp: dinv_def)
  then obtain s where s: "take_frame work i (dsv d) = Inr s" using steps_enabled(4) [OF assms(2,3)] by blast
  then have t: "take_next work i d = Inr (goto i Away (d\<lparr>dsv := s\<rparr>))" by (simp add: take_next_def)
  have "nconns s = nconns (dsv d)"
    using s by (auto simp: take_frame_def bindR_eq_Inr set_worker_def split: option.splits)
  then show ?thesis using t take_next_drains [OF t assms(6,2)] by (simp add: goto_def)
qed

lemma ddrain_dispatcher:
  assumes "dinv d" "sinv strict (dsv d)" "strict \<longrightarrow> no_late_throw work" "\<not> crashed (dsv d)" "i < length (pcs d)"
    and "pcs d ! i \<noteq> Away" "\<not> (\<exists>t. pcs d ! i = Asleep t \<and> now d < t)"
  shows "\<exists>d'. ddrain work peer d d'"
proof -
  note st = assms(4,5)
  have go: "\<exists>d'. ddrain work peer d d'" if "dstep work peer d d'" "dsv d' = dsv d" "now d' = now d" "pcs d' = (pcs d)[i := p]"
    "pc_rank (now d) p < pc_rank (now d) (pcs d ! i)" for d' p
    using that ddrain_order_pc [OF that(2-4) assms(5) that(5)] ddrainI [of peer d d'] by auto
  note tk = ddrain_take [OF assms(1-3,5,6)]
  show ?thesis
  proof (cases "pcs d ! i")
    case Created
    show ?thesis by (rule go [OF dstep.register [OF st Created], of "Consing (qcondvars d)"]) (simp_all add: Created)
  next
    case (Consing q)
    show ?thesis by (rule go [OF dstep.store [OF st Consing], of Stored]) (simp_all add: Consing)
  next
    case Stored
    show ?thesis by (rule go [OF dstep.protect [OF st Stored], of Top]) (simp_all add: Stored)
  next
    case Top
    show ?thesis
    proof (cases "queued d")
      case True
      then show ?thesis using tk ddrainI dstep.look [OF st Top] by (fastforce simp: look_def)
    next
      case False
      then have "look work i d = Inr (goto i (Asleep (now d + 1)) d)" by (simp add: look_def)
      then show ?thesis by (rule go [OF dstep.look [OF st Top], of _ "Asleep (now d + 1)"]) (simp_all add: Top goto_def)
    qed
  next
    case (Asleep t)
    then have t: "t \<le> now d" using assms(7) by auto
    show ?thesis by (rule go [OF dstep.timeout [OF st Asleep t], of "Woken False"]) (simp_all add: Asleep t goto_def)
  next
    case (Woken r)
    show ?thesis
    proof (cases "queued d")
      case True
      then show ?thesis using tk ddrainI dstep.look_again [OF st Woken] by (fastforce simp: look_again_eq)
    next
      case False
      then have "look_again work i r d = Inr (goto i Top d)" by (simp add: look_again_eq)
      then show ?thesis by (rule go [OF dstep.look_again [OF st Woken], of _ Top]) (simp_all add: Woken goto_def)
    qed
  qed (use assms(6) in simp)
qed

lemma ddrain_quiet:
  assumes "dinv d" "sinv strict (dsv d)" "strict \<longrightarrow> no_late_throw work" "\<not> crashed (dsv d)"
    and "\<not> (\<exists>d'. ddrain work peer d d')"
  shows "main_pc (dsv d) = MIdle"
    "i < length (pcs d) \<Longrightarrow> workers (dsv d) ! i \<noteq> Hung \<Longrightarrow>
     workers (dsv d) ! i = Waiting \<and> (\<exists>t. pcs d ! i = Asleep t \<and> now d < t)"
proof -
  show "main_pc (dsv d) = MIdle" using ddrain_main [OF assms(2-4)] assms(5) by blast
  assume i: "i < length (pcs d)" "workers (dsv d) ! i \<noteq> Hung"
  have w: "workers (dsv d) ! i = Waiting"
    using busy_worker_drains [OF assms(2-4), of i peer] ddrain_serve i assms(1,5) by (metis dinv_def)
  then have "pcs d ! i \<noteq> Away" using assms(1) i by (simp add: dinv_def)
  then show "workers (dsv d) ! i = Waiting \<and> (\<exists>t. pcs d ! i = Asleep t \<and> now d < t)"
    using ddrain_dispatcher [OF assms(1-4) i(1)] assms(5) w by blast
qed

end

section \<open>Nobody sleeps longer than a second\<close>

definition deadlines :: "dispatch \<Rightarrow> bool" where
  "deadlines d \<longleftrightarrow> (\<forall>i < length (pcs d). \<forall>t. pcs d ! i = Asleep t \<longrightarrow> t \<le> now d + 1)"

text \<open>Only \<open>look\<close> puts a dispatcher to sleep, and only when nothing is queued.\<close>

lemma asleep_before:
  assumes "dstep work peer d d'" "dinv d" "i < length (pcs d')" "pcs d' ! i = Asleep t"
  shows "now d' = now d \<and> (i < length (pcs d) \<and> pcs d ! i = Asleep t \<or> \<not> queued d \<and> dsv d' = dsv d \<and> t = now d + 1)"
  using assms(1)
proof cases
  case (serve s)
  have "length (pcs d) = length (workers s)" using assms(2) serve_keeps [OF serve(2-4)] by (simp add: dinv_def)
  then have "rejoin (workers s ! i) (pcs d ! i) = Asleep t" "i < length (pcs d)" using assms(3,4) by (simp_all add: serve(1))
  then show ?thesis by (cases "(workers s ! i, pcs d ! i)" rule: rejoin.cases) (simp_all add: serve(1))
next
  case (queue a)
  from queue(3) show ?thesis
  proof (rule queue_and_signal_cases)
    fix d1 fr
    assume d1: "d1 = spawn d \<or> d1 = d"
      and d': "d' = d1\<lparr>dsv := (dsv d1)\<lparr>sv_frames := fr, tcount := Suc (tcount (dsv d1)), main_pc := MIdle\<rparr>,
         pcs := (if queued d then pcs d1 else signal_all (qcondvars d1) (pcs d1))\<rparr>"
    have "i < length (pcs d1)" "pcs d1 ! i = Asleep t"
      using assms(3,4) by (auto simp: d' nth_signal_all split: if_splits dpc.splits)
    then have "i < length (pcs d) \<and> pcs d ! i = Asleep t"
      using d1 by (auto simp: spawn_def nth_append less_Suc_eq split: if_splits)
    moreover have "now d1 = now d" using d1 by (auto simp: spawn_def)
    ultimately show ?thesis by (simp add: d')
  qed
next
  case (look j)
  then show ?thesis
    using assms(3,4)
    by (cases "i = j") (auto simp: look_def goto_def take_next_def bindR_eq_Inr split: if_splits)
next
  case (look_again j res)
  then show ?thesis
    using assms(3,4)
    by (cases "i = j") (auto simp: look_again_eq goto_def take_next_def bindR_eq_Inr split: if_splits)
next
  case (register j)
  then show ?thesis using assms(3,4) by (cases "i = j") auto
next
  case (store j q)
  then show ?thesis using assms(3,4) by (cases "i = j") auto
next
  case (protect j)
  then show ?thesis using assms(3,4) by (cases "i = j") auto
next
  case (timeout j u)
  then show ?thesis using assms(3,4) by (cases "i = j") (auto simp: goto_def)
qed

lemma deadlines_move:
  assumes "dmove work peer d d'" "dinv d" "deadlines d"
  shows "deadlines d'"
  using assms(1) unfolding dmove_def
proof
  assume st: "dstep work peer d d'"
  show ?thesis unfolding deadlines_def
  proof (intro allI impI)
    fix i t assume "i < length (pcs d')" "pcs d' ! i = Asleep t"
    then show "t \<le> now d' + 1" using asleep_before [OF st assms(2)] assms(3) by (auto simp: deadlines_def)
  qed
next
  assume "devent d d'"
  then show ?thesis
  proof cases
    case (spurious j t)
    then show ?thesis using assms(3) by (auto simp: deadlines_def goto_def nth_list_update split: if_splits)
  qed (use assms(3) in \<open>auto simp: deadlines_def le_SucI\<close>)
qed

lemma deadlines_run:
  assumes "(dmove work peer)\<^sup>*\<^sup>* (start_dispatch maxt cpus) d"
  shows "deadlines d"
  using assms
proof (induction rule: rtranclp_induct)
  case base
  have "set (pcs (start_dispatch maxt cpus)) \<subseteq> {Created}"
    unfolding start_dispatch_def by (rule spawn_threads_created) (simp add: init_dispatch_def)
  then show ?case unfolding deadlines_def using nth_mem by fastforce
next
  case (step d d')
  then show ?case using deadlines_move dispatch_reachable(2) by blast
qed

text \<open>Without new connections an idle main thread stays idle and queues nothing.\<close>

lemma idle_main:
  assumes "sstep work peer s s'" "main_pc s = MIdle" "nconns s' = nconns s"
  shows "main_pc s' = MIdle \<and> (req_queue (sv_frames s) = None \<longrightarrow> req_queue (sv_frames s') = None)"
  using assms(1)
proof cases
  case (accept fd junk)
  then show ?thesis using assms(3) by (auto simp: accept_conn_def bindR_eq_Inr)
next
  case (take i)
  then show ?thesis
    using assms(2) by (auto simp: take_frame_def dequeue_frame_def bindR_eq_Inr set_worker_def split: option.splits)
next
  case (effect i a fd e es r s1)
  then show ?thesis
    using assms(2) by (cases e) (auto simp: perform_def release_frame_def send_to_def close_fd_def bindR_eq_Inr set_worker_def split: if_splits)
qed (use assms(2) in \<open>auto simp: set_worker_def catch_send_def catch_close_def bindR_eq_Inr send_to_def close_fd_def\<close>)

text \<open>
  After time has moved on over a state at rest, whoever sleeps while something is queued is
  due to wake up.
\<close>

definition due :: "dispatch \<Rightarrow> bool" where
  "due d \<longleftrightarrow> main_pc (dsv d) = MIdle \<and>
     (queued d \<longrightarrow> (\<forall>i < length (pcs d). \<forall>t. pcs d ! i = Asleep t \<longrightarrow> t \<le> now d))"

lemma due_step:
  assumes "ddrain work peer d d'" "dinv d" "due d"
  shows "due d'"
proof -
  have st: "dstep work peer d d'" "nconns (dsv d') = nconns (dsv d)" using assms(1) by (simp_all add: ddrain_def)
  have m: "main_pc (dsv d) = MIdle" using assms(3) by (simp add: due_def)
  have q: "main_pc (dsv d') = MIdle \<and> (\<not> queued d \<longrightarrow> \<not> queued d')"
    using step_abs [OF st(1) assms(2)] idle_main [OF _ m st(2)] m by (auto simp: queued_def)
  show ?thesis unfolding due_def
  proof (intro conjI impI allI)
    show "main_pc (dsv d') = MIdle" using q by blast
    fix i t assume "queued d'" "i < length (pcs d')" "pcs d' ! i = Asleep t"
    then show "t \<le> now d'" using asleep_before [OF st(1) assms(2)] q assms(3) by (auto simp: due_def)
  qed
qed

lemma resting_server:
  assumes "main_pc s = MIdle" "set (workers s) \<subseteq> {Waiting}" "req_queue (sv_frames s) = None"
  shows "\<not> drain work peer s s'"
proof
  have w: "i < length (workers s) \<Longrightarrow> workers s ! i = Waiting" for i using assms(2) nth_mem by blast
  assume dr: "drain work peer s s'"
  then have "sstep work peer s s'" "s' \<noteq> s" "nconns s' = nconns s" by (simp_all add: drain_def)
  then show False
  proof (cases rule: sstep.cases)
    case (accept fd junk)
    then show ?thesis using dr by (auto simp: drain_def accept_conn_def bindR_eq_Inr)
  next
    case (take i)
    then show ?thesis using dr assms(3) by (simp add: drain_def take_frame_def dequeue_frame_def)
  qed (use assms(1) w in simp_all)
qed

context request_worker
begin

lemma ddrain_reachable:
  "(ddrain work peer)\<^sup>*\<^sup>* d d' \<Longrightarrow> (dmove work peer)\<^sup>*\<^sup>* (start_dispatch maxt cpus) d \<Longrightarrow>
   (dmove work peer)\<^sup>*\<^sup>* (start_dispatch maxt cpus) d' \<and> nconns (dsv d') = nconns (dsv d) \<and> (due d \<longrightarrow> due d')"
proof (induction rule: rtranclp_induct)
  case (step d1 d2)
  then have "(dmove work peer)\<^sup>*\<^sup>* (start_dispatch maxt cpus) d2"
    using ddrain_move by (metis rtranclp.rtrancl_into_rtrancl)
  moreover have "nconns (dsv d2) = nconns (dsv d1)" using step.hyps(2) by (simp add: ddrain_def)
  moreover have "due d1 \<longrightarrow> due d2" using due_step [OF step.hyps(2)] dispatch_reachable(2) step.IH step.prems by blast
  ultimately show ?case using step.IH step.prems by simp
qed simp

lemma all_asleep:
  assumes "(dmove work peer)\<^sup>*\<^sup>* (start_dispatch maxt cpus) d" "no_late_throw work" "answers work" "0 < maxt" "0 < cpus"
    and "\<not> (\<exists>d'. ddrain work peer d d')"
  shows "main_pc (dsv d) = MIdle" "set (workers (dsv d)) \<subseteq> {Waiting}" "pcs d \<noteq> []"
    "i < length (pcs d) \<Longrightarrow> \<exists>t. pcs d ! i = Asleep t \<and> now d < t"
proof -
  have r: "reachable work peer maxt cpus (dsv d)" "dinv d" using dispatch_reachable [OF assms(1)] by blast+
  have up: "up (dsv d)" by (rule up_reachable [OF r(1) assms(3-5)])
  have sinv: "sinv True (dsv d)" using sinv_reachable [OF r(1)] assms(2) by blast
  have l: "length (pcs d) = length (workers (dsv d))" using r(2) by (simp add: dinv_def)
  note q = ddrain_quiet [OF r(2) sinv impI [OF assms(2)] _ assms(6)]
  have nc: "\<not> crashed (dsv d)" using up by (simp add: up_def)
  show "main_pc (dsv d) = MIdle" by (rule q(1) [OF nc])
  have nh: "workers (dsv d) ! i \<noteq> Hung" if "i < length (pcs d)" for i
    using up that l nth_mem unfolding up_def by (metis worker_fine.simps(1))
  show "set (workers (dsv d)) \<subseteq> {Waiting}" using q(2) [OF nc _ nh] l by (auto simp: in_set_conv_nth)
  show "pcs d \<noteq> []" using up sinv l by (auto simp: up_def sinv_def sinv_at_def)
  show "\<exists>t. pcs d ! i = Asleep t \<and> now d < t" if "i < length (pcs d)" using q(2) [OF nc that nh [OF that]] by blast
qed

lemma answered_at_rest:
  assumes "(dmove work peer)\<^sup>*\<^sup>* (start_dispatch maxt cpus) d" "no_late_throw work" "answers work" "0 < maxt" "0 < cpus"
    and "\<not> (\<exists>d'. ddrain work peer d d')" "\<not> queued d" "c < nconns (dsv d)"
  shows "bytes_to c (out (dsv d)) = expected work peer c"
proof -
  note a = all_asleep [OF assms(1-6)]
  have "\<not> (\<exists>s. drain work peer (dsv d) s)"
    using resting_server [OF a(1,2)] assms(7) by (simp add: queued_def)
  then show ?thesis
    using all_answered(4) [OF dispatch_reachable(1) [OF assms(1)] assms(2-5)] assms(8) by blast
qed

lemma tick_due:
  assumes "(dmove work peer)\<^sup>*\<^sup>* (start_dispatch maxt cpus) d" "no_late_throw work" "answers work" "0 < maxt" "0 < cpus"
    and "\<not> (\<exists>d'. ddrain work peer d d')"
  shows "due (d\<lparr>now := Suc (now d)\<rparr>)" "(dmove work peer)\<^sup>*\<^sup>* (start_dispatch maxt cpus) (d\<lparr>now := Suc (now d)\<rparr>)"
proof -
  show "due (d\<lparr>now := Suc (now d)\<rparr>)"
    using all_asleep(1) [OF assms] deadlines_run [OF assms(1)] by (simp add: due_def deadlines_def)
  have "dmove work peer d (d\<lparr>now := Suc (now d)\<rparr>)" by (simp add: dmove_def devent.tick)
  then show "(dmove work peer)\<^sup>*\<^sup>* (start_dispatch maxt cpus) (d\<lparr>now := Suc (now d)\<rparr>)"
    using assms(1) by (rule rtranclp.rtrancl_into_rtrancl [rotated])
qed

end

section \<open>Overlapping registrations\<close>

text \<open>The states of the runs below, as explicit records.\<close>

definition dispatch_at :: "server \<Rightarrow> dpc list \<Rightarrow> nat list \<Rightarrow> nat list multiset \<Rightarrow> bool \<Rightarrow> dispatch" where
  "dispatch_at s ps q pr ub = \<lparr>dsv = s, pcs = ps, qcondvars = q, protected = pr, unbalanced = ub, now = 0\<rparr>"

lemmas run_defs = dispatch_at_def trace_defs queued_def goto_def read_condvars_def store_condvars_def
  protect_condvars_def look_def look_again_eq take_next_def queue_and_signal_def spawn_def signal_def Let_def

lemma run_step: "(dmove work peer)\<^sup>*\<^sup>* d0 d \<Longrightarrow> dstep work peer d d' \<Longrightarrow> (dmove work peer)\<^sup>*\<^sup>* d0 d'"
  by (simp add: dmove_def rtranclp.rtrancl_into_rtrancl)

lemma serial_single:
  "(serial_move work peer)\<^sup>*\<^sup>* d0 d \<Longrightarrow> dstep work peer d d' \<Longrightarrow> length (pcs d') = 1 \<Longrightarrow> (serial_move work peer)\<^sup>*\<^sup>* d0 d'"
  by (rule rtranclp.rtrancl_into_rtrancl) (auto simp: serial_move_def dmove_def one_registers_def)

text \<open>Two dispatchers started together: both read the empty list, and the second store drops the first.\<close>

lemma both_registered:
  "(dmove work peer)\<^sup>*\<^sup>* (start_dispatch 2 2)
     (dispatch_at (server_at 2 (frames_at [] None None None) 2 0 0 Map.empty 0 MIdle [Waiting, Waiting] [] [])
        [Asleep 1, Asleep 1] [1] {#[1], [1]#} False)"
proof -
  let ?s = "server_at 2 (frames_at [] None None None) 2 0 0 Map.empty 0 MIdle [Waiting, Waiting] [] []"
  let ?d = "dispatch_at ?s"
  have "start_dispatch 2 2 = ?d [Created, Created] [] {#} False"
    by (simp add: start_dispatch_def init_dispatch_def numeral_2_eq_2 run_defs)
  then have "(dmove work peer)\<^sup>*\<^sup>* (start_dispatch 2 2) (?d [Created, Created] [] {#} False)" by simp
  then have "(dmove work peer)\<^sup>*\<^sup>* (start_dispatch 2 2) (?d [Consing [], Created] [] {#} False)"
    by (rule run_step) (use dstep.register [of "?d [Created, Created] [] {#} False" 0] in \<open>simp add: run_defs\<close>)
  then have "(dmove work peer)\<^sup>*\<^sup>* (start_dispatch 2 2) (?d [Consing [], Consing []] [] {#} False)"
    by (rule run_step) (use dstep.register [of "?d [Consing [], Created] [] {#} False" 1] in \<open>simp add: run_defs\<close>)
  then have "(dmove work peer)\<^sup>*\<^sup>* (start_dispatch 2 2) (?d [Stored, Consing []] [0] {#} False)"
    by (rule run_step) (use dstep.store [of "?d [Consing [], Consing []] [] {#} False" 0 "[]"] in \<open>simp add: run_defs\<close>)
  then have "(dmove work peer)\<^sup>*\<^sup>* (start_dispatch 2 2) (?d [Stored, Stored] [1] {#} False)"
    by (rule run_step) (use dstep.store [of "?d [Stored, Consing []] [0] {#} False" 1 "[]"] in \<open>simp add: run_defs\<close>)
  then have "(dmove work peer)\<^sup>*\<^sup>* (start_dispatch 2 2) (?d [Top, Stored] [1] {#[1]#} False)"
    by (rule run_step) (use dstep.protect [of "?d [Stored, Stored] [1] {#} False" 0] in \<open>simp add: run_defs\<close>)
  then have "(dmove work peer)\<^sup>*\<^sup>* (start_dispatch 2 2) (?d [Top, Top] [1] {#[1], [1]#} False)"
    by (rule run_step) (use dstep.protect [of "?d [Top, Stored] [1] {#[1]#} False" 1] in \<open>simp add: run_defs\<close>)
  then have "(dmove work peer)\<^sup>*\<^sup>* (start_dispatch 2 2) (?d [Asleep 1, Top] [1] {#[1], [1]#} False)"
    by (rule run_step) (rule dstep.look [of _ 0], simp_all add: run_defs)
  then show ?thesis
    by (rule run_step) (rule dstep.look [of _ 1], simp_all add: run_defs)
qed

lemma dstep_serve:
  assumes "sstep work peer s s'" "tcount s' = tcount s" "taken s' = taken s" "ps' = map2 rejoin (workers s') ps"
  shows "dstep work peer (dispatch_at s ps q pr ub) (dispatch_at s' ps' q pr ub)"
  using dstep.serve [of work peer "dispatch_at s ps q pr ub" s'] assms by (simp add: dispatch_at_def)

text \<open>The first request wakes the second dispatcher; the next one finds only it in the list.\<close>

lemma request_waits:
  assumes "work 0 (fst (peer 0)) (snd (peer 0)) = Some (es, r)"
  shows "(dmove work peer)\<^sup>*\<^sup>* (start_dispatch 2 2)
     (dispatch_at (server_at 2 (frames_at [frame_at peer 3 0 0, frame_at peer 4 1 1] None (Some 2) (Some 2)) 2 1 2
        [3 \<mapsto> 0, 4 \<mapsto> 1] 2 MIdle [Waiting, Serving 1 3 es r] [] [0]) [Asleep 1, Away] [1] {#[1], [1]#} False)"
proof -
  let ?f = "frame_at peer 3 0 0" and ?g = "frame_at peer 4 1 1" and ?K = "[3 \<mapsto> 0, 4 \<mapsto> 1]"
  let ?d = "\<lambda>s ps. dispatch_at s ps [1] {#[1], [1]#} False" and ?w = "[Waiting, Waiting]" and ?v = "[Waiting, Serving 1 3 es r]"
  let ?s1 = "server_at 2 (frames_at [zero_frame] None None None) 2 0 0 [3 \<mapsto> 0] 1 (MGot 1 3 0) ?w [] []"
  let ?s2 = "server_at 2 (frames_at [?f] None None None) 2 0 0 [3 \<mapsto> 0] 1 (MFilled 1) ?w [] []"
  let ?s3 = "server_at 2 (frames_at [?f] None (Some 1) (Some 1)) 2 0 1 [3 \<mapsto> 0] 1 MIdle ?w [] []"
  let ?s4 = "server_at 2 (frames_at [?f] None None (Some 1)) 2 1 1 [3 \<mapsto> 0] 1 MIdle ?v [] [0]"
  let ?s5 = "server_at 2 (frames_at [?f, zero_frame] None None (Some 1)) 2 1 1 ?K 2 (MGot 2 4 1) ?v [] [0]"
  let ?s6 = "server_at 2 (frames_at [?f, ?g] None None (Some 1)) 2 1 1 ?K 2 (MFilled 2) ?v [] [0]"
  have "(dmove work peer)\<^sup>*\<^sup>* (start_dispatch 2 2) (?d ?s1 [Asleep 1, Asleep 1])"
    by (rule run_step [OF both_registered dstep_serve [OF accept [where fd = 3 and junk = zero_frame]]])
      (simp_all add: trace_defs)
  then have "(dmove work peer)\<^sup>*\<^sup>* (start_dispatch 2 2) (?d ?s2 [Asleep 1, Asleep 1])"
    by (rule run_step [OF _ dstep_serve [OF fill [where a = 1 and fd = 3 and c = 0]]]) (simp_all add: trace_defs)
  then have "(dmove work peer)\<^sup>*\<^sup>* (start_dispatch 2 2) (?d ?s3 [Asleep 1, Woken True])"
    by (rule run_step [OF _ dstep.queue [where a = 1]]) (simp_all add: run_defs)
  then have "(dmove work peer)\<^sup>*\<^sup>* (start_dispatch 2 2) (?d ?s4 [Asleep 1, Away])"
    by (rule run_step [OF _ dstep.look_again [where i = 1 and res = True]]) (use assms in \<open>simp_all add: run_defs\<close>)
  then have "(dmove work peer)\<^sup>*\<^sup>* (start_dispatch 2 2) (?d ?s5 [Asleep 1, Away])"
    by (rule run_step [OF _ dstep_serve [OF accept [where fd = 4 and junk = zero_frame]]]) (simp_all add: trace_defs)
  then have "(dmove work peer)\<^sup>*\<^sup>* (start_dispatch 2 2) (?d ?s6 [Asleep 1, Away])"
    by (rule run_step [OF _ dstep_serve [OF fill [where a = 2 and fd = 4 and c = 1]]]) (simp_all add: trace_defs)
  then show ?thesis
    by (rule run_step [OF _ dstep.queue [where a = 2]]) (simp_all add: run_defs)
qed

text \<open>A second registration that starts before the first is protected takes back a protection nobody gave.\<close>

lemma unprotects_twice:
  "(dmove work peer)\<^sup>*\<^sup>* (start_dispatch 2 2)
     (dispatch_at (server_at 2 (frames_at [] None None None) 2 0 0 Map.empty 0 MIdle [Waiting, Waiting] [] [])
        [Stored, Consing [0]] [0] {#} True)"
proof -
  let ?s = "server_at 2 (frames_at [] None None None) 2 0 0 Map.empty 0 MIdle [Waiting, Waiting] [] []"
  let ?d = "dispatch_at ?s"
  have "start_dispatch 2 2 = ?d [Created, Created] [] {#} False"
    by (simp add: start_dispatch_def init_dispatch_def numeral_2_eq_2 run_defs)
  then have "(dmove work peer)\<^sup>*\<^sup>* (start_dispatch 2 2) (?d [Created, Created] [] {#} False)" by simp
  then have "(dmove work peer)\<^sup>*\<^sup>* (start_dispatch 2 2) (?d [Consing [], Created] [] {#} False)"
    by (rule run_step) (use dstep.register [of "?d [Created, Created] [] {#} False" 0] in \<open>simp add: run_defs\<close>)
  then have "(dmove work peer)\<^sup>*\<^sup>* (start_dispatch 2 2) (?d [Stored, Created] [0] {#} False)"
    by (rule run_step) (use dstep.store [of "?d [Consing [], Created] [] {#} False" 0 "[]"] in \<open>simp add: run_defs\<close>)
  then show ?thesis
    by (rule run_step) (use dstep.register [of "?d [Stored, Created] [0] {#} False" 1] in \<open>simp add: run_defs\<close>)
qed

section \<open>Properties\<close>



text \<open>
  C5: No wake-up is lost as long as registrations do not overlap. In every state that is reached with
  at most one dispatcher registering at a time, whatever the application does, no dispatcher sleeps
  while a request is queued; the list of condition variables holds each dispatcher that has registered
  exactly once; and the list is protected from the garbage collector exactly once, except while
  somebody registers.
\<close>

theorem no_wakeup_lost:
  assumes "(serial_move work peer)\<^sup>*\<^sup>* (start_dispatch maxt cpus) d"
  shows "(queued d \<longrightarrow> (\<forall>i. \<not> asleep d i)) \<and> distinct (qcondvars d) \<and>
    set (qcondvars d) = {i. i < length (pcs d) \<and> enrolled (pcs d ! i)} \<and> \<not> unbalanced d \<and>
    (qcondvars d \<noteq> [] \<and> (\<forall>p \<in> set (pcs d). \<not> registering p) \<longrightarrow> protected d = {#qcondvars d#})"
  using serial_invariant [OF assms] by (auto simp: cvinv_def enrolment_def)

theorem no_wakeup_lost_witness:
  "\<exists>d. (serial_move (\<lambda>_ _ _. None) (\<lambda>_. ([], 0)))\<^sup>*\<^sup>* (start_dispatch 1 1) d \<and> pcs d = [Woken True] \<and> queued d \<and>
     qcondvars d = [0] \<and> \<not> asleep d 0 \<and> protected d = {#[0]#}"
proof -
  let ?W = "\<lambda>_ _ _. None" and ?p = "\<lambda>_. ([], 0)"
  let ?d = "\<lambda>s p q pr. dispatch_at s [p] q pr False"
  let ?s = "server_at 1 (frames_at [] None None None) 1 0 0 Map.empty 0 MIdle [Waiting] [] []"
  let ?s1 = "server_at 1 (frames_at [zero_frame] None None None) 1 0 0 [3 \<mapsto> 0] 1 (MGot 1 3 0) [Waiting] [] []"
  let ?f = "frame_at ?p 3 0 0"
  let ?s2 = "server_at 1 (frames_at [?f] None None None) 1 0 0 [3 \<mapsto> 0] 1 (MFilled 1) [Waiting] [] []"
  let ?s3 = "server_at 1 (frames_at [?f] None (Some 1) (Some 1)) 1 0 1 [3 \<mapsto> 0] 1 MIdle [Waiting] [] []"
  note go = serial_single [where work = ?W and peer = ?p]
  have "start_dispatch 1 1 = ?d ?s Created [] {#}" by (simp add: start_dispatch_def init_dispatch_def run_defs)
  then have "(serial_move ?W ?p)\<^sup>*\<^sup>* (start_dispatch 1 1) (?d ?s Created [] {#})" by simp
  then have "(serial_move ?W ?p)\<^sup>*\<^sup>* (start_dispatch 1 1) (?d ?s (Consing []) [] {#})"
    by (rule go) (use dstep.register [of "?d ?s Created [] {#}" 0 ?W ?p] in \<open>simp add: run_defs\<close>, simp add: dispatch_at_def)
  then have "(serial_move ?W ?p)\<^sup>*\<^sup>* (start_dispatch 1 1) (?d ?s Stored [0] {#})"
    by (rule go) (use dstep.store [of "?d ?s (Consing []) [] {#}" 0 "[]" ?W ?p] in \<open>simp add: run_defs\<close>, simp add: dispatch_at_def)
  then have "(serial_move ?W ?p)\<^sup>*\<^sup>* (start_dispatch 1 1) (?d ?s Top [0] {#[0]#})"
    by (rule go) (use dstep.protect [of "?d ?s Stored [0] {#}" 0 ?W ?p] in \<open>simp add: run_defs\<close>, simp add: dispatch_at_def)
  then have "(serial_move ?W ?p)\<^sup>*\<^sup>* (start_dispatch 1 1) (?d ?s (Asleep 1) [0] {#[0]#})"
    by (rule go [OF _ dstep.look [where i = 0]]) (simp_all add: run_defs)
  then have "(serial_move ?W ?p)\<^sup>*\<^sup>* (start_dispatch 1 1) (?d ?s1 (Asleep 1) [0] {#[0]#})"
    by (rule go [OF _ dstep_serve [OF accept [where fd = 3 and junk = zero_frame]]]) (simp_all add: run_defs)
  then have "(serial_move ?W ?p)\<^sup>*\<^sup>* (start_dispatch 1 1) (?d ?s2 (Asleep 1) [0] {#[0]#})"
    by (rule go [OF _ dstep_serve [OF fill [where a = 1 and fd = 3 and c = 0]]]) (simp_all add: run_defs)
  then have r: "(serial_move ?W ?p)\<^sup>*\<^sup>* (start_dispatch 1 1) (?d ?s3 (Woken True) [0] {#[0]#})"
    by (rule go [OF _ dstep.queue [where a = 1]]) (simp_all add: run_defs)
  have q: "queued (?d ?s3 (Woken True) [0] {#[0]#})" "qcondvars (?d ?s3 (Woken True) [0] {#[0]#}) = [0]"
    "pcs (?d ?s3 (Woken True) [0] {#[0]#}) = [Woken True]" by (simp_all add: run_defs)
  then show ?thesis using no_wakeup_lost [OF r] r by (intro exI [of _ "?d ?s3 (Woken True) [0] {#[0]#}"]) simp
qed

text \<open>
  C40: Registrations that overlap lose a dispatcher. The list of condition variables is extended
  without a lock: with two processors there is a run in which, while no time passes, one
  dispatcher serves a request, the next request is queued, and the other dispatcher stays asleep beside it, because
  its condition variable has been dropped from the list; and a run in which a dispatcher takes back
  the protection of a list that was not protected.
\<close>

theorem overlapping_registration_loses_dispatcher:
  assumes "work 0 (fst (peer 0)) (snd (peer 0)) = Some (es, r)"
  shows "(\<exists>d. (dmove work peer)\<^sup>*\<^sup>* (start_dispatch 2 2) d \<and> now d = 0 \<and> queued d \<and> asleep d 0 \<and>
      pcs d ! 1 = Away \<and> workers (dsv d) = [Waiting, Serving 1 3 es r] \<and> 0 \<notin> set (qcondvars d)) \<and>
    (\<exists>d. (dmove work peer)\<^sup>*\<^sup>* (start_dispatch 2 2) d \<and> unbalanced d)"
proof
  show "\<exists>d. (dmove work peer)\<^sup>*\<^sup>* (start_dispatch 2 2) d \<and> now d = 0 \<and> queued d \<and> asleep d 0 \<and>
      pcs d ! 1 = Away \<and> workers (dsv d) = [Waiting, Serving 1 3 es r] \<and> 0 \<notin> set (qcondvars d)"
    by (intro exI [of _ "dispatch_at (server_at 2 (frames_at [frame_at peer 3 0 0, frame_at peer 4 1 1] None (Some 2) (Some 2))
        2 1 2 [3 \<mapsto> 0, 4 \<mapsto> 1] 2 MIdle [Waiting, Serving 1 3 es r] [] [0]) [Asleep 1, Away] [1] {#[1], [1]#} False"] conjI
        request_waits assms)
      (simp_all add: dispatch_at_def queued_def asleep_def server_at_def frames_at_def)
  show "\<exists>d. (dmove work peer)\<^sup>*\<^sup>* (start_dispatch 2 2) d \<and> unbalanced d"
    using unprotects_twice [of work peer] by (intro exI conjI) (assumption, simp add: dispatch_at_def)
qed

theorem overlapping_registration_loses_dispatcher_witness:
  "\<exists>d. (dmove not_found_app (\<lambda>c. (''10.0.0.1'', 5000)))\<^sup>*\<^sup>* (start_dispatch 2 2) d \<and> now d = 0 \<and> queued d \<and> asleep d 0"
proof -
  obtain es where "not_found_app 0 (fst (''10.0.0.1'', 5000 :: int)) (snd (''10.0.0.1'', 5000 :: int)) = Some (es, Inr ())"
    using not_found_served by blast
  then show ?thesis
    using overlapping_registration_loses_dispatcher [of not_found_app "\<lambda>c. (''10.0.0.1'', 5000)" es "Inr ()"] by blast
qed

text \<open>
  C7: The loop of the dispatchers, with condition variables, timeouts, spurious wake-ups and
  registration, refines the waiting threads of the server: what it reaches is reached there too, so each
  connection receives only a prefix of its own reply, in every interleaving, if handlers do not
  throw after their frame is released; and every wait ends within a second.
\<close>

theorem dispatchers_refine_server:
  assumes "(dmove (gusher env t inp) peer)\<^sup>*\<^sup>* (start_dispatch maxt cpus) d"
  shows "reachable (gusher env t inp) peer maxt cpus (dsv d) \<and> length (pcs d) = nthreads (dsv d) \<and>
    (\<forall>i < length (pcs d). (pcs d ! i = Away \<longleftrightarrow> workers (dsv d) ! i \<noteq> Waiting) \<and>
       (\<forall>u. pcs d ! i = Asleep u \<longrightarrow> u \<le> now d + 1)) \<and>
    (no_late_throw (gusher env t inp) \<longrightarrow> (\<forall>c. prefix (bytes_to c (out (dsv d))) (expected (gusher env t inp) peer c)))"
proof -
  have r: "reachable (gusher env t inp) peer maxt cpus (dsv d)" "dinv d" using dispatch_reachable [OF assms] by blast+
  have "sinv False (dsv d)" using rw.sinv_reachable [OF r(1), of False] by simp
  then have "length (workers (dsv d)) = nthreads (dsv d)" by (auto simp: sinv_def sinv_at_def)
  then have "length (pcs d) = nthreads (dsv d)" using r(2) unfolding dinv_def by metis
  then show ?thesis using r deadlines_run [OF assms] rw.isolation [OF r(1)] unfolding dinv_def deadlines_def by blast
qed

theorem dispatchers_refine_server_witness:
  "\<exists>d. (dmove not_found_app (\<lambda>c. (''10.0.0.1'', 5000)))\<^sup>*\<^sup>* (start_dispatch 2 2) d \<and> pcs d = [Asleep 1, Asleep 1] \<and>
     reachable not_found_app (\<lambda>c. (''10.0.0.1'', 5000)) 2 2 (dsv d)"
proof -
  let ?peer = "\<lambda>c :: nat. (''10.0.0.1'', 5000 :: int)"
  let ?d = "dispatch_at (server_at 2 (frames_at [] None None None) 2 0 0 Map.empty 0 MIdle [Waiting, Waiting] [] [])
        [Asleep 1, Asleep 1] [1] {#[1], [1]#} False"
  have r: "(dmove not_found_app ?peer)\<^sup>*\<^sup>* (start_dispatch 2 2) ?d" by (rule both_registered)
  have "pcs ?d = [Asleep 1, Asleep 1]" by (simp add: dispatch_at_def)
  then show ?thesis using r dispatchers_refine_server [OF r] by blast
qed

end
