(* ===== verification/Report.thy ===== *)
theory Report
  imports Log Server
begin

text \<open>
  How an exception in a handler is logged (\<open>main.c\<close>: \<open>grab_stack\<close>, \<open>backtrace\<close>, \<open>show_location\<close> and the messages of
  \<open>catch_req\<close>). When a dispatcher raises, \<open>grab_stack\<close> stores the stack in the global variable
  \<open>captured_stack\<close> before the stack is unwound; \<open>catch_req\<close> logs key, parameters, a location and the stack that
  the variable then holds. Threads raise at any time, so that the two are events of a schedule; a message is one
  step because of the mutex of the log. The texts that Guile prints are parameters; the location is one text
  for all, since \<open>current-source-location\<close> stands for the place where it is written.
\<close>

section \<open>State and operations\<close>

record raised =
  x_key :: string
  x_params :: string
  x_stack :: string

record reporting =
  captured_stack :: string
  r_log :: logger

definition grab_stack :: "string \<Rightarrow> reporting \<Rightarrow> reporting" where
  "grab_stack stack s = s\<lparr>captured_stack := stack\<rparr>"

definition report_line :: "tm \<Rightarrow> string \<Rightarrow> string \<Rightarrow> reporting \<Rightarrow> reporting res" where
  "report_line lt label body s =
     bindR (log_msg lt (label @ '': '' @ body @ [LF]) (r_log s)) (\<lambda>l. Inr (s\<lparr>r_log := l\<rparr>))"

definition show_location :: "tm \<Rightarrow> string \<Rightarrow> reporting \<Rightarrow> reporting res" where
  "show_location lt here s = report_line lt ''WHERE'' here s"

definition backtrace :: "tm \<Rightarrow> reporting \<Rightarrow> reporting res" where
  "backtrace lt s = report_line lt ''TRACE'' (captured_stack s) s"

definition catch_log :: "tm \<Rightarrow> string \<Rightarrow> raised \<Rightarrow> reporting \<Rightarrow> reporting res" where
  "catch_log lt here x s =
     bindR (report_line lt ''ERROR'' (x_key x) s) (\<lambda>s1.
     bindR (report_line lt ''DETAIL'' (x_params x) s1) (\<lambda>s2.
     bindR (show_location lt here s2) (backtrace lt)))"

text \<open>Thread \<open>i\<close> raises \<open>exn i\<close>: \<open>Grab i\<close> before the stack is unwound, \<open>Caught i\<close> after.\<close>

datatype happening = Grab nat | Caught nat

fun happen :: "(nat \<Rightarrow> raised) \<Rightarrow> tm \<Rightarrow> string \<Rightarrow> happening list \<Rightarrow> reporting \<Rightarrow> reporting res" where
  "happen exn lt here [] s = Inr s"
| "happen exn lt here (Grab i # hs) s = happen exn lt here hs (grab_stack (x_stack (exn i)) s)"
| "happen exn lt here (Caught i # hs) s = bindR (catch_log lt here (exn i) s) (happen exn lt here hs)"

section \<open>What is logged\<close>

text \<open>The report that the log should have: everything from the same exception.\<close>

definition report_text :: "tm \<Rightarrow> string \<Rightarrow> raised \<Rightarrow> string \<Rightarrow> string" where
  "report_text lt here x stack =
     log_stamp lt @ ''ERROR: '' @ x_key x @ [LF] @ log_stamp lt @ ''DETAIL: '' @ x_params x @ [LF] @
     log_stamp lt @ ''WHERE: '' @ here @ [LF] @ log_stamp lt @ ''TRACE: '' @ stack @ [LF]"

fun last_grab :: "happening list \<Rightarrow> nat option" where
  "last_grab [] = None"
| "last_grab (Grab i # hs) = (case last_grab hs of None \<Rightarrow> Some i | Some j \<Rightarrow> Some j)"
| "last_grab (Caught i # hs) = last_grab hs"

lemma happen_append: "happen exn lt here (hs @ ks) s = bindR (happen exn lt here hs s) (happen exn lt here ks)"
proof (induction hs arbitrary: s)
  case (Cons h hs)
  then show ?case
    by (cases h) (auto simp: bindR_def split: sum.splits)
qed simp

lemma report_line_stderr:
  "logfile (r_log s) = Stderr \<Longrightarrow> report_line lt label body s =
     Inr (s\<lparr>r_log := (r_log s)\<lparr>lg_stderr := lg_stderr (r_log s) @ log_stamp lt @ label @ '': '' @ body @ [LF]\<rparr>\<rparr>)"
  by (simp add: report_line_def log_msg_def fputs_def)

lemma catch_log_stderr:
  "logfile (r_log s) = Stderr \<Longrightarrow> catch_log lt here x s =
     Inr (s\<lparr>r_log := (r_log s)\<lparr>lg_stderr := lg_stderr (r_log s) @ report_text lt here x (captured_stack s)\<rparr>\<rparr>)"
  by (simp add: catch_log_def show_location_def backtrace_def report_line_stderr report_text_def)

lemma happen_stderr:
  assumes "logfile (r_log s) = Stderr"
  shows "\<exists>s'. happen exn lt here hs s = Inr s' \<and> logfile (r_log s') = Stderr \<and>
    captured_stack s' = (case last_grab hs of None \<Rightarrow> captured_stack s | Some i \<Rightarrow> x_stack (exn i))"
  using assms
proof (induction exn lt here hs s rule: happen.induct)
  case (2 exn lt here i hs s)
  then show ?case by (auto simp: grab_stack_def split: option.splits)
next
  case (3 exn lt here i hs s)
  then show ?case by (auto simp: catch_log_stderr split: option.splits)
qed simp

text \<open>
  The trace in a report is the stack of whoever raised last before it. In every schedule of exceptions
  and reports, the report of thread \<open>i\<close> has the key and the parameters of its own exception, and the stack of
  the last thread that raised before the report was written, which is its own as long as no other
  thread has raised in between.
\<close>

theorem trace_of_last_raised:
  assumes "logfile (r_log s) = Stderr" "last_grab ks = g"
  shows "\<exists>s1 s2. happen exn lt here (hs @ Grab i # ks) s = Inr s1 \<and> happen exn lt here (hs @ Grab i # ks @ [Caught i]) s = Inr s2 \<and>
    lg_stderr (r_log s2) = lg_stderr (r_log s1) @
      report_text lt here (exn i) (x_stack (exn (case g of None \<Rightarrow> i | Some j \<Rightarrow> j)))"
proof -
  obtain s1 where s1: "happen exn lt here (hs @ Grab i # ks) s = Inr s1" "logfile (r_log s1) = Stderr"
    "captured_stack s1 = (case last_grab (hs @ Grab i # ks) of None \<Rightarrow> captured_stack s | Some i \<Rightarrow> x_stack (exn i))"
    using happen_stderr [OF assms(1)] by metis
  have "last_grab (hs @ Grab i # ks) = Some (case g of None \<Rightarrow> i | Some j \<Rightarrow> j)"
  proof (induction hs)
    case (Cons h hs)
    then show ?case by (cases h) simp_all
  qed (simp add: assms(2) split: option.splits)
  then have c: "captured_stack s1 = x_stack (exn (case g of None \<Rightarrow> i | Some j \<Rightarrow> j))" using s1(3) by simp
  have "happen exn lt here ((hs @ Grab i # ks) @ [Caught i]) s = catch_log lt here (exn i) s1"
    using happen_append [of exn lt here "hs @ Grab i # ks" "[Caught i]" s] s1(1)
    by (cases "catch_log lt here (exn i) s1") (simp_all add: bindR_def)
  then have "happen exn lt here (hs @ Grab i # ks @ [Caught i]) s = catch_log lt here (exn i) s1" by simp
  then show ?thesis using s1(1) c catch_log_stderr [OF s1(2)] by (intro exI conjI) (assumption, simp, simp)
qed

theorem trace_of_last_raised_witness:
  "\<forall>lt here exn. \<exists>s1 s2. happen exn lt here [Grab 0, Grab 1] \<lparr>captured_stack = ''#f'', r_log = init_log Map.empty\<rparr> = Inr s1 \<and>
     happen exn lt here [Grab 0, Grab 1, Caught 0] \<lparr>captured_stack = ''#f'', r_log = init_log Map.empty\<rparr> = Inr s2 \<and>
     lg_stderr (r_log s2) = lg_stderr (r_log s1) @ report_text lt here (exn 0) (x_stack (exn 1))"
  using trace_of_last_raised [of "\<lparr>captured_stack = ''#f'', r_log = init_log Map.empty\<rparr>" "[Grab 1]" "Some 1" _ _ _ "[]" 0]
  by (simp add: init_log_def)

end
