(* ===== verification/Template.thy ===== *)
theory Template
  imports Scm
begin

text \<open>
  Templates (\<open>template.c\<close>): \<open>fill-template\<close> replaces the slots \<open>[[NAME]]\<close> of a text by the payloads of
  an association list. \<open>pin\<close> and \<open>sense\<close> are pointers into one buffer; the model passes the rest of
  the buffer from \<open>pin\<close> on. \<open>num_s\<close> is Guile's printing of a double.
\<close>

section \<open>The table of slots\<close>

type_synonym slot_table = "(string \<times> string) list"

definition upcase :: "string \<Rightarrow> string" where
  "upcase s = map toupper s"

definition slot_payload :: "(real64 \<Rightarrow> string) \<Rightarrow> scm \<Rightarrow> string res" where
  "slot_payload num_s v =
     (case v of
        SInt n \<Rightarrow> Inr (dec n)
      | SReal r \<Rightarrow> Inr (num_s r)
      | SSym s \<Rightarrow> scm_to_cstring (SStr s)
      | SStr s \<Rightarrow> scm_to_cstring (SStr s)
      | _ \<Rightarrow> Inr [])"

definition slot_token :: "scm \<Rightarrow> string res" where
  "slot_token v = (case v of SSym s \<Rightarrow> bindR (scm_to_cstring (SStr s)) (\<lambda>t. Inr (upcase t)) | _ \<Rightarrow> Inl wrong_type)"

fun build_table :: "(real64 \<Rightarrow> string) \<Rightarrow> scm list \<Rightarrow> slot_table res" where
  "build_table num_s [] = Inr []"
| "build_table num_s (pair # rest) =
     bindR (scm_car pair) (\<lambda>k.
     bindR (slot_token k) (\<lambda>token.
     bindR (scm_cdr pair) (\<lambda>v.
     bindR (slot_payload num_s v) (\<lambda>payload.
     bindR (build_table num_s rest) (\<lambda>tab. Inr ((token, payload) # tab))))))"

section \<open>Filling\<close>

abbreviation SLOT_MARK :: string where "SLOT_MARK \<equiv> ''[[''"

abbreviation SLOT_END :: string where "SLOT_END \<equiv> '']]''"

text \<open>\<open>while (sense[2] && !isupper(sense[2])) sense++\<close>: how far \<open>sense\<close> moves.\<close>

fun skip_to_upper :: "string \<Rightarrow> nat" where
  "skip_to_upper (a # b # c # cs) = (if isupper c then 0 else Suc (skip_to_upper (b # c # cs)))"
| "skip_to_upper _ = 0"

text \<open>
  The token starts two characters after \<open>pin\<close> and ends at the terminator written over the slot
  end, unless the slot end was found before it: then it runs to the end of the buffer.
\<close>

definition slot_name :: "string \<Rightarrow> nat \<Rightarrow> string" where
  "slot_name here e = (if 2 \<le> e then take (e - 2) (drop 2 here) else drop 2 here)"

definition slot_parts :: "slot_table \<Rightarrow> bool \<Rightarrow> string \<Rightarrow> string list" where
  "slot_parts tab partial token =
     (case map_of tab token of
        Some payload \<Rightarrow> [payload]
      | None \<Rightarrow> if partial then [SLOT_MARK, token, SLOT_END] else [])"

function fill_loop :: "slot_table \<Rightarrow> bool \<Rightarrow> string \<Rightarrow> string list" where
  "fill_loop tab partial pin =
     (case strstr pin SLOT_MARK of
        None \<Rightarrow> [pin]
      | Some k \<Rightarrow>
          let s = k + skip_to_upper (drop k pin); here = drop s pin in
          take s pin #
          (case strstr here SLOT_END of
             None \<Rightarrow> [here]
           | Some e \<Rightarrow> slot_parts tab partial (slot_name here e) @ fill_loop tab partial (drop (e + 2) here)))"
  by pat_completeness auto
termination
proof (relation "measure (\<lambda>(tab, partial, pin). length pin)", goal_cases)
  case (2 tab partial pin k s here e)
  have "prefix SLOT_END (drop e here)" using 2 strstr_Some by blast
  then have "here \<noteq> []" by auto
  then show ?case using 2 by auto
qed simp

declare fill_loop.simps [simp del]

definition fill_template :: "(real64 \<Rightarrow> string) \<Rightarrow> scm \<Rightarrow> scm \<Rightarrow> scm list \<Rightarrow> scm res" where
  "fill_template num_s template partial slots =
     bindR (scm_to_cstring template) (\<lambda>master.
     bindR (build_table num_s slots) (\<lambda>tab.
       Inr (SStr (concat (fill_loop tab (partial = SBool True) master)))))"

section \<open>Well-formed templates\<close>

text \<open>
  A template is a text followed by slots, each with the text after it. Before a slot, a text may
  contain slot marks that open no slot, as long as no capital letter follows them.
\<close>

type_synonym segments = "(string \<times> string) list"

definition plain_text :: "string \<Rightarrow> bool" where
  "plain_text t \<longleftrightarrow>
     (\<forall>k \<in> set [0..<length t]. prefix SLOT_MARK (drop k t) \<longrightarrow> (\<forall>c \<in> set (drop (k + 2) t). \<not> isupper c))"

definition last_text :: "string \<Rightarrow> bool" where
  "last_text t \<longleftrightarrow> plain_text t \<and> (strstr t SLOT_MARK = None \<or> \<not> suffix SLOT_END t)"

definition valid_name :: "string \<Rightarrow> bool" where
  "valid_name n \<longleftrightarrow> n \<noteq> [] \<and> isupper (hd n) \<and> CHR '']'' \<notin> set n"

fun valid_segments :: "string \<Rightarrow> segments \<Rightarrow> bool" where
  "valid_segments t [] = last_text t"
| "valid_segments t ((n, u) # segs) = (plain_text t \<and> valid_name n \<and> valid_segments u segs)"

fun write_template :: "string \<Rightarrow> segments \<Rightarrow> string" where
  "write_template t [] = t"
| "write_template t ((n, u) # segs) = t @ SLOT_MARK @ n @ SLOT_END @ write_template u segs"

text \<open>What filling means: every slot gives way to its payload, or stays, or vanishes.\<close>

fun filled :: "slot_table \<Rightarrow> bool \<Rightarrow> string \<Rightarrow> segments \<Rightarrow> string" where
  "filled tab partial t [] = t"
| "filled tab partial t ((n, u) # segs) =
     t @ (case map_of tab n of
            Some v \<Rightarrow> v
          | None \<Rightarrow> if partial then SLOT_MARK @ n @ SLOT_END else []) @ filled tab partial u segs"

section \<open>Lemmas\<close>

lemma plain_textD:
  "\<lbrakk>plain_text t; k < length t; prefix SLOT_MARK (drop k t)\<rbrakk> \<Longrightarrow> \<forall>c \<in> set (drop (k + 2) t). \<not> isupper c"
  unfolding plain_text_def by (metis atLeastLessThan_iff le0 set_upt)

lemma skip_to_upper_at:
  "\<lbrakk>m + 2 < length y; isupper (y ! (m + 2)); \<forall>j < m. \<not> isupper (y ! (j + 2))\<rbrakk> \<Longrightarrow> skip_to_upper y = m"
proof (induction m arbitrary: y)
  case 0
  then obtain a b c cs where "y = a # b # c # cs"
    by (cases y rule: skip_to_upper.cases) auto
  with 0 show ?case by simp
next
  case (Suc m)
  then obtain a b c cs where y: "y = a # b # c # cs"
    by (cases y rule: skip_to_upper.cases) auto
  have "\<not> isupper c" using Suc.prems(3) y by (auto dest: spec [of _ 0])
  moreover have "skip_to_upper (b # c # cs) = m"
    by (rule Suc.IH) (use Suc.prems y in auto)
  ultimately show ?case using y by simp
qed

lemma skip_to_upper_end:
  "\<lbrakk>2 \<le> length y; \<forall>c \<in> set (drop 2 y). \<not> isupper c\<rbrakk> \<Longrightarrow> skip_to_upper y = length y - 2"
  by (induction y rule: skip_to_upper.induct) auto

lemma strstr_first_end: "CHR '']'' \<notin> set n \<Longrightarrow> strstr (n @ SLOT_END @ rest) SLOT_END = Some (length n)"
  by (induction n) auto

lemma slot_found:
  assumes "plain_text t" "valid_name n"
  shows "\<exists>k. strstr (t @ SLOT_MARK @ n @ rest) SLOT_MARK = Some k \<and>
    k + skip_to_upper (drop k (t @ SLOT_MARK @ n @ rest)) = length t"
proof -
  let ?x = "t @ SLOT_MARK @ n @ rest"
  have "sublist SLOT_MARK ?x" by (metis sublist_appendI append_assoc)
  then obtain k where k: "strstr ?x SLOT_MARK = Some k" by (cases "strstr ?x SLOT_MARK") (auto simp: strstr_None)
  have pre: "prefix SLOT_MARK (drop k ?x)" using strstr_Some [OF k] by simp
  have "k \<le> length t" using strstr_least [OF k, of "length t"] by (cases "length t < k") auto
  have "skip_to_upper (drop k ?x) = length t - k"
  proof (rule skip_to_upper_at)
    show "length t - k + 2 < length (drop k ?x)"
      using assms(2) \<open>k \<le> length t\<close> by (cases n) (auto simp: valid_name_def)
    show "isupper (drop k ?x ! (length t - k + 2))"
      using assms(2) \<open>k \<le> length t\<close> by (cases n) (auto simp: valid_name_def nth_append)
    show "\<forall>j < length t - k. \<not> isupper (drop k ?x ! (j + 2))"
    proof (intro allI impI)
      fix j
      assume j: "j < length t - k"
      show "\<not> isupper (drop k ?x ! (j + 2))"
      proof (cases "k + j + 2 < length t")
        case True
        then have "prefix SLOT_MARK (drop k t)"
          using prefix_length_prefix [OF pre, of "drop k t"] \<open>k \<le> length t\<close> by simp
        then have "\<forall>c \<in> set (drop (k + 2) t). \<not> isupper c"
          using True by (intro plain_textD [OF assms(1)]) simp_all
        moreover have "t ! (k + j + 2) \<in> set (drop (k + 2) t)"
          using True by (auto simp: in_set_conv_nth intro!: exI [of _ j])
        ultimately show ?thesis using True by (auto simp: nth_append add.assoc)
      next
        case False
        then have "k + j + 2 = length t \<or> k + j + 2 = Suc (length t)" using j by linarith
        then show ?thesis by (auto simp: nth_append isupper_def code_def add.assoc)
      qed
    qed
  qed
  then show ?thesis using k \<open>k \<le> length t\<close> by auto
qed


lemma fill_loop_slot:
  assumes "plain_text t" "valid_name n"
  shows "fill_loop tab partial (t @ SLOT_MARK @ n @ SLOT_END @ rest) =
    t # slot_parts tab partial n @ fill_loop tab partial rest"
proof -
  let ?x = "t @ SLOT_MARK @ n @ SLOT_END @ rest"
  obtain k where k: "strstr ?x SLOT_MARK = Some k" "k + skip_to_upper (drop k ?x) = length t"
    using slot_found [OF assms, of "SLOT_END @ rest"] by auto
  have "strstr (n @ SLOT_END @ rest) SLOT_END = Some (length n)"
    using assms(2) by (intro strstr_first_end) (simp add: valid_name_def)
  then have e: "strstr (SLOT_MARK @ n @ SLOT_END @ rest) SLOT_END = Some (length n + 2)" by simp
  have name: "slot_name (SLOT_MARK @ n @ SLOT_END @ rest) (length n + 2) = n" by (simp add: slot_name_def)
  have rest: "drop (length n + 2 + 2) (SLOT_MARK @ n @ SLOT_END @ rest) = rest" by simp
  have "drop (length t) ?x = SLOT_MARK @ n @ SLOT_END @ rest" "take (length t) ?x = t" by simp_all
  then show ?thesis
    unfolding fill_loop.simps [of tab partial ?x] k(1) option.case Let_def k(2)
    using e name rest by simp
qed

lemma fill_loop_last: "last_text t \<Longrightarrow> concat (fill_loop tab partial t) = t"
proof (cases "strstr t SLOT_MARK")
  case None
  then show ?thesis by (simp add: fill_loop.simps)
next
  case (Some k)
  assume last: "last_text t"
  note pre = strstr_Some [OF Some]
  have len: "k + 2 \<le> length t" using pre prefix_length_le by fastforce
  then have "\<forall>c \<in> set (drop (k + 2) t). \<not> isupper c"
    using last pre by (intro plain_textD) (simp_all add: last_text_def)
  then have "skip_to_upper (drop k t) = length (drop k t) - 2"
    using len by (intro skip_to_upper_end) (auto simp: add.commute)
  then have s: "k + skip_to_upper (drop k t) = length t - 2" using len by simp
  have "strstr (drop (length t - 2) t) SLOT_END = None"
  proof (rule ccontr)
    assume "strstr (drop (length t - 2) t) SLOT_END \<noteq> None"
    then have "sublist SLOT_END (drop (length t - 2) t)" by (simp add: strstr_None)
    then obtain ps ss where ps: "drop (length t - 2) t = ps @ SLOT_END @ ss" by (auto simp: sublist_def)
    moreover have "length (drop (length t - 2) t) = 2" using len by simp
    ultimately have "drop (length t - 2) t = SLOT_END" by simp
    then have "suffix SLOT_END t" by (metis suffix_drop)
    then show False using last Some by (simp add: last_text_def)
  qed
  then show ?thesis using Some s by (simp add: fill_loop.simps [of tab partial t] Let_def)
qed

lemma slot_parts_concat:
  "concat (slot_parts tab partial n) =
    (case map_of tab n of Some v \<Rightarrow> v | None \<Rightarrow> if partial then SLOT_MARK @ n @ SLOT_END else [])"
  by (simp add: slot_parts_def split: option.splits)

lemma fill_loop_filled:
  "valid_segments t segs \<Longrightarrow> concat (fill_loop tab partial (write_template t segs)) = filled tab partial t segs"
proof (induction t segs rule: valid_segments.induct)
  case (1 t)
  then show ?case by (simp add: fill_loop_last)
next
  case (2 t n u segs)
  then show ?case using fill_loop_slot [of t n tab partial "write_template u segs"] by (simp add: slot_parts_concat)
qed

lemma build_table_alist:
  "\<forall>(k, v) \<in> set kvs. NUL \<notin> set k \<and> NUL \<notin> set v \<Longrightarrow>
   build_table num_s (map (\<lambda>(k, v). SCons (SSym k) (SStr v)) kvs) = Inr (map (\<lambda>(k, v). (upcase k, v)) kvs)"
  by (induction kvs) (auto simp: slot_token_def slot_payload_def)

section \<open>Properties\<close>



text \<open>
  Text is lost when a capital letter follows a slot mark that opens no slot: the code takes the two
  characters before the letter for the mark, and everything up to the next slot end for the name.
\<close>

theorem capital_after_mark_loses_text:
  "fill_template num_s (SStr ''see [[1]] Foo, [[NAME]].'') (SBool False) [SCons (SSym ''name'') (SStr ''Ann'')] =
   Inr (SStr ''see [[1].'')"
proof -
  have "upcase ''name'' = ''NAME''" by code_simp
  then have t: "build_table num_s [SCons (SSym ''name'') (SStr ''Ann'')] = Inr [(''NAME'', ''Ann'')]"
    by (simp add: slot_token_def slot_payload_def)
  have "concat (fill_loop [(''NAME'', ''Ann'')] False ''see [[1]] Foo, [[NAME]].'') = ''see [[1].''"
    by code_simp
  then show ?thesis using t by (simp add: fill_template_def)
qed

end
