(* ===== verification/Json.thy ===== *)
theory Json
  imports Scm
begin

text \<open>
  JSON (\<open>json.c\<close>). A \<open>json_t\<close> of the jansson library is a value of type \<open>json\<close>; an object is the list
  of its members in the order they were first set, which is the order \<open>json_object_foreach\<close> visits
  them. A null \<open>json_t\<close> pointer is \<open>None\<close>: \<open>json_real\<close> returns it for an infinity and for NaN, and
  setting or appending it leaves the object or array as it was. The printer and the parser of
  jansson are the parameters \<open>dumps\<close> and \<open>loads\<close>; \<open>fmt\<close> is the text of a time stamp.
\<close>

section \<open>Values\<close>

datatype json =
    JStr string
  | JInt int
  | JReal rat
  | JTrue
  | JFalse
  | JNull
  | JArr "json list"
  | JObj "(string \<times> json) list"

fun json_object_set_new :: "(string \<times> json) list \<Rightarrow> string \<Rightarrow> json option \<Rightarrow> (string \<times> json) list" where
  "json_object_set_new ms k None = ms"
| "json_object_set_new [] k (Some v) = [(k, v)]"
| "json_object_set_new ((k', v') # ms) k (Some v) =
     (if k' = k then (k, v) # ms else (k', v') # json_object_set_new ms k (Some v))"

definition json_array_append_new :: "json list \<Rightarrow> json option \<Rightarrow> json list" where
  "json_array_append_new xs v = (case v of None \<Rightarrow> xs | Some j \<Rightarrow> xs @ [j])"

section \<open>Encoding\<close>

definition make_key :: "scm \<Rightarrow> string res" where
  "make_key k =
     (case k of
        SStr s \<Rightarrow> scm_to_cstring (SStr s)
      | SSym s \<Rightarrow> scm_to_cstring (SStr s)
      | _ \<Rightarrow> Inl wrong_type)"

text \<open>A list whose first element is a pair that starts with a symbol is taken for an object.\<close>

fun looks_like_object :: "scm \<Rightarrow> bool" where
  "looks_like_object (SCons (SCons (SSym k) v) d) = is_list d"
| "looks_like_object _ = False"

function (sequential)
  json_build :: "(nat \<Rightarrow> string) \<Rightarrow> scm \<Rightarrow> json option res" and
  build_members :: "(nat \<Rightarrow> string) \<Rightarrow> (string \<times> json) list \<Rightarrow> scm \<Rightarrow> json option res" and
  build_items :: "(nat \<Rightarrow> string) \<Rightarrow> json list \<Rightarrow> scm \<Rightarrow> json option res" where
  "json_build fmt (SStr s) = bindR (scm_to_cstring (SStr s)) (\<lambda>b. Inr (Some (JStr b)))"
| "json_build fmt (SSym s) = bindR (scm_to_cstring (SStr s)) (\<lambda>b. Inr (Some (JStr b)))"
| "json_build fmt (SBool b) = Inr (Some (if b then JTrue else JFalse))"
| "json_build fmt (SInt n) = bindR (scm_to_int n) (\<lambda>i. Inr (Some (JInt i)))"
| "json_build fmt (SReal r) = Inr (case r of Fin q \<Rightarrow> Some (JReal q) | _ \<Rightarrow> None)"
| "json_build fmt SEol = Inr (Some JNull)"
| "json_build fmt (SCons a d) =
     (if looks_like_object (SCons a d) then build_members fmt [] (SCons a d)
      else if is_list (SCons a d) then build_items fmt [] (SCons a d)
      else Inr (Some JNull))"
| "json_build fmt (SSmob tag i) = Inr (Some (if tag = ''timestamp'' then JStr (fmt i) else JNull))"
| "json_build fmt _ = Inr (Some JNull)"
| "build_members fmt ms SEol = Inr (Some (JObj ms))"
| "build_members fmt ms (SCons (SCons k v) d) =
     bindR (make_key k) (\<lambda>key.
     bindR (json_build fmt v) (\<lambda>j. build_members fmt (json_object_set_new ms key j) d))"
| "build_members fmt ms _ = Inl BadAccess"
| "build_items fmt xs SEol = Inr (Some (JArr xs))"
| "build_items fmt xs (SCons a d) =
     bindR (json_build fmt a) (\<lambda>j. build_items fmt (json_array_append_new xs j) d)"
| "build_items fmt xs _ = Inl BadAccess"
  by pat_completeness auto
termination
  by (relation "measure (\<lambda>x. case x of Inl (fmt, v) \<Rightarrow> 2 * size v + 1
        | Inr (Inl (fmt, ms, v)) \<Rightarrow> 2 * size v | Inr (Inr (fmt, xs, v)) \<Rightarrow> 2 * size v)") auto

definition json_encode :: "(json \<Rightarrow> string option) \<Rightarrow> (nat \<Rightarrow> string) \<Rightarrow> scm \<Rightarrow> scm res" where
  "json_encode dumps fmt obj =
     bindR (json_build fmt obj) (\<lambda>jobj.
       Inr (case jobj of
              None \<Rightarrow> SBool False
            | Some j \<Rightarrow> (case dumps j of None \<Rightarrow> SBool False | Some s \<Rightarrow> SStr s)))"

section \<open>Decoding\<close>

text \<open>\<open>(int)json_integer_value\<close> keeps the low 32 bits. An object's members are consed in turn.\<close>

fun parse :: "json \<Rightarrow> scm" where
  "parse (JStr s) = SStr s"
| "parse (JInt i) = SInt (signed_take_bit 31 i)"
| "parse (JReal q) = SReal (Fin q)"
| "parse JTrue = SBool True"
| "parse JFalse = SBool False"
| "parse JNull = SEol"
| "parse (JArr xs) = scm_of_list (map parse xs)"
| "parse (JObj ms) = scm_of_list (rev (map (\<lambda>(k, v). SCons (SSym k) (parse v)) ms))"

definition json_decode :: "(string \<Rightarrow> json option) \<Rightarrow> scm \<Rightarrow> scm res" where
  "json_decode loads s =
     bindR (scm_to_cstring s) (\<lambda>buf.
       Inr (case loads buf of None \<Rightarrow> SBool False | Some j \<Rightarrow> parse j))"

section \<open>The values both directions keep\<close>

text \<open>
  \<open>valid_json\<close>: integers of 32 bits, distinct keys, no empty array and no empty object. \<open>mirror\<close>
  reverses the members of every object.
\<close>

fun valid_json :: "json \<Rightarrow> bool" where
  "valid_json (JStr s) = (NUL \<notin> set s)"
| "valid_json (JInt i) = (- (2 ^ 31) \<le> i \<and> i < 2 ^ 31)"
| "valid_json (JArr xs) = (xs \<noteq> [] \<and> (\<forall>x \<in> set xs. valid_json x))"
| "valid_json (JObj ms) =
     (ms \<noteq> [] \<and> distinct (map fst ms) \<and> (\<forall>(k, v) \<in> set ms. NUL \<notin> set k \<and> valid_json v))"
| "valid_json _ = True"

fun mirror :: "json \<Rightarrow> json" where
  "mirror (JArr xs) = JArr (map mirror xs)"
| "mirror (JObj ms) = JObj (rev (map (\<lambda>(k, v). (k, mirror v)) ms))"
| "mirror j = j"

section \<open>Lemmas\<close>

lemma set_new_fresh: "k \<notin> fst ` set ms \<Longrightarrow> json_object_set_new ms k (Some v) = ms @ [(k, v)]"
  by (induction ms) auto

lemma parse_not_sym: "parse j \<noteq> SSym k"
proof (cases j)
  case (JArr xs)
  then show ?thesis by (cases xs) auto
next
  case (JObj ms)
  then show ?thesis by (cases "rev (map (\<lambda>(k, v). SCons (SSym k) (parse v)) ms)") (auto simp del: rev_map)
qed auto

lemma parse_no_member: "parse j \<noteq> SCons (SSym k) v"
proof (cases j)
  case (JArr xs)
  then show ?thesis by (cases xs) (auto simp: parse_not_sym)
next
  case (JObj ms)
  then show ?thesis by (cases ms rule: rev_cases) auto
qed auto

lemma parse_array_no_object: "\<not> looks_like_object (scm_of_list (map parse xs))"
proof (cases xs)
  case (Cons x ys)
  then show ?thesis using parse_no_member [of x] by (cases "parse x" rule: looks_like_object.cases; cases "parse x") (auto elim: looks_like_object.elims)
qed simp

lemma build_items_parse:
  "\<forall>x \<in> set xs. json_build fmt (parse x) = Inr (Some (mirror x)) \<Longrightarrow>
   build_items fmt acc (scm_of_list (map parse xs)) = Inr (Some (JArr (acc @ map mirror xs)))"
  by (induction xs arbitrary: acc) (auto simp: json_array_append_new_def)

lemma build_members_parse:
  "\<lbrakk>\<forall>(k, v) \<in> set ms. NUL \<notin> set k \<and> json_build fmt (parse v) = Inr (Some (mirror v));
    distinct (map fst ms); fst ` set acc \<inter> fst ` set ms = {}\<rbrakk> \<Longrightarrow>
   build_members fmt acc (scm_of_list (map (\<lambda>(k, v). SCons (SSym k) (parse v)) ms)) =
     Inr (Some (JObj (acc @ map (\<lambda>(k, v). (k, mirror v)) ms)))"
proof (induction ms arbitrary: acc)
  case (Cons m ms)
  obtain k v where m: "m = (k, v)" by (cases m)
  have "json_object_set_new acc k (Some (mirror v)) = acc @ [(k, mirror v)]"
    using Cons.prems(3) m by (intro set_new_fresh) auto
  moreover have "build_members fmt (acc @ [(k, mirror v)]) (scm_of_list (map (\<lambda>(k, v). SCons (SSym k) (parse v)) ms)) =
      Inr (Some (JObj ((acc @ [(k, mirror v)]) @ map (\<lambda>(k, v). (k, mirror v)) ms)))"
    by (rule Cons.IH) (use Cons.prems m in \<open>auto simp: image_iff\<close>)
  ultimately show ?case using Cons.prems(1) m by (simp add: make_key_def)
qed simp

lemma build_parse: "valid_json j \<Longrightarrow> json_build fmt (parse j) = Inr (Some (mirror j))"
proof (induction j rule: valid_json.induct)
  case (3 xs)
  then obtain y ys where xs: "xs = y # ys" by (cases xs) auto
  have "json_build fmt (parse (JArr xs)) = build_items fmt [] (scm_of_list (map parse xs))"
    using parse_array_no_object [of xs] xs by simp
  then show ?case using build_items_parse [of xs fmt "[]"] 3 by simp
next
  case (4 ms)
  let ?l = "map (\<lambda>(k, v). SCons (SSym k) (parse v)) (rev ms)"
  obtain k v rest where "rev ms = (k, v) # rest" using 4 by (cases "rev ms") auto
  then have "json_build fmt (scm_of_list ?l) = build_members fmt [] (scm_of_list ?l)" by simp
  moreover have "build_members fmt [] (scm_of_list ?l) = Inr (Some (JObj ([] @ map (\<lambda>(k, v). (k, mirror v)) (rev ms))))"
    by (rule build_members_parse) (use 4 in \<open>auto simp flip: rev_map\<close>)
  ultimately show ?case by (simp add: rev_map)
qed (auto simp: scm_to_int_def signed_take_bit_int_eq_self)


lemma mirror_mirror [simp]: "mirror (mirror j) = j"
  by (induction j rule: mirror.induct) (auto simp: rev_map comp_def case_prod_beta intro!: map_idI)

section \<open>Properties\<close>



text \<open>
  Integers beyond 32 bits are refused on the way out and cut on the way in; an empty list is
  encoded as \<open>null\<close>, so an empty array or object does not survive.
\<close>

theorem json_integer_edges:
  "json_encode dumps fmt (SInt (2 ^ 31)) = Inl out_of_range \<and>
   parse (JInt (2 ^ 32 + 1)) = SInt 1 \<and>
   json_build fmt (parse (JArr [])) = Inr (Some JNull) \<and> json_build fmt (parse (JObj [])) = Inr (Some JNull)"
proof -
  have "signed_take_bit 31 (2 ^ 32 + 1 :: int) = 1" by code_simp
  then show ?thesis by (simp add: json_encode_def scm_to_int_def)
qed

text \<open>
  A number that is not finite is left out of the object or array it belongs to, and the encoding of
  the number by itself fails.
\<close>

theorem json_drops_nan:
  "json_encode dumps fmt (SReal NaN) = Inr (SBool False) \<and>
   json_build fmt (SCons (SInt 1) (SCons (SReal NaN) (SCons (SInt 2) SEol))) = Inr (Some (JArr [JInt 1, JInt 2]))"
  by (simp add: json_encode_def scm_to_int_def json_array_append_new_def)

end
