(* ===== verification/Http.thy ===== *)
theory Http
  imports Json Butter
begin

text \<open>
  The HTTP client (\<open>http.c\<close>). libcurl and libxml2 are parameters: \<open>perform\<close> runs a transfer with the
  options of a handle and yields the calls of the two callbacks, the status and the result code;
  \<open>escape\<close> is \<open>curl_easy_escape\<close>; \<open>xmlReadMemory\<close> yields a tree. The options of a handle stay set from
  one transfer to the next, as libcurl documents.
\<close>

section \<open>Collecting a reply\<close>

text \<open>The list of \<open>CNODE\<close>s, newest first.\<close>

type_synonym chunks = "string list"

definition write_handler :: "string \<Rightarrow> chunks \<Rightarrow> chunks \<times> nat" where
  "write_handler data cs = (data # cs, length data)"

definition memcpy_at :: "buf \<Rightarrow> nat \<Rightarrow> string \<Rightarrow> buf res" where
  "memcpy_at b i s =
     (if i + length s \<le> length b then Inr (take i b @ s @ drop (i + length s) b) else Inl BadAccess)"

text \<open>The loop that fills \<open>bag\<close> from its end; \<open>pt -= chunks->size\<close> below the start is a fault.\<close>

fun fill_bag :: "chunks \<Rightarrow> buf \<Rightarrow> nat \<Rightarrow> buf res" where
  "fill_bag [] bag pt = Inr bag"
| "fill_bag (c # cs) bag pt =
     (if length c \<le> pt then bindR (memcpy_at bag (pt - length c) c) (\<lambda>b. fill_bag cs b (pt - length c))
      else Inl BadAccess)"

text \<open>Memory from \<open>malloc\<close> holds whatever it held before: \<open>junk\<close>.\<close>

definition malloc :: "(nat \<Rightarrow> char) \<Rightarrow> nat \<Rightarrow> buf" where
  "malloc junk n = map junk [0..<n]"

definition collect_body :: "(nat \<Rightarrow> char) \<Rightarrow> chunks \<Rightarrow> string res" where
  "collect_body junk cs =
     (let tsize = sum_list (map length cs) in
      bindR (fill_bag cs (malloc junk (tsize + 1)) tsize) (\<lambda>bag. Inr (take tsize bag)))"

section \<open>Headers\<close>

definition downcase :: "string \<Rightarrow> string" where
  "downcase s = map tolower s"

text \<open>The loop \<open>while (isspace(*pt)) pt++\<close> from an offset.\<close>

function skip_space :: "buf \<Rightarrow> nat \<Rightarrow> nat res" where
  "skip_space b i = (if i < length b then if isspace (b ! i) then skip_space b (Suc i) else Inr i else Inl BadAccess)"
  by pat_completeness auto
termination by (relation "measure (\<lambda>(b, i). length b - i)") auto

declare skip_space.simps [simp del]

text \<open>
  The loop that cuts white space at the end: \<open>pt\<close> runs down from \<open>value + strlen(value) - 1\<close> and stops
  at \<open>value\<close>. For an empty value it starts one below, on the terminator or the space before it.
\<close>

function cut_space :: "buf \<Rightarrow> nat \<Rightarrow> nat \<Rightarrow> buf res" where
  "cut_space b val pt =
     (if pt < length b then
        if isspace (b ! pt) then
          if pt = val then Inr (b[pt := NUL])
          else if pt = 0 then Inl BadAccess
          else cut_space (b[pt := NUL]) val (pt - 1)
        else Inr b
      else Inl BadAccess)"
  by pat_completeness auto
termination by (relation "measure (\<lambda>(b, val, pt). pt)") auto

declare cut_space.simps [simp del]

text \<open>
  \<open>header_handler\<close> on a buffer whose first \<open>rsize\<close> bytes are the header line; it stores a NUL in the
  byte after them. \<open>headers\<close> is the association list built so far.
\<close>

definition header_handler :: "buf \<Rightarrow> nat \<Rightarrow> alist \<Rightarrow> (alist \<times> nat) res" where
  "header_handler data rsize headers =
     bindR (wr data rsize NUL) (\<lambda>buf.
     bindR (bindex (CHR '':'') buf 0) (\<lambda>colon.
       case colon of
         None \<Rightarrow> Inr (headers, rsize)
       | Some pt \<Rightarrow>
           bindR (wr buf pt NUL) (\<lambda>buf.
           bindR (skip_space buf (Suc pt)) (\<lambda>val.
           bindR (cut_space buf val (val + length (cstr buf val) - 1)) (\<lambda>buf'.
             Inr (acons (downcase (cstr buf 0)) (SStr (cstr buf' val)) headers, rsize))))))"

section \<open>XML\<close>

text \<open>
  Nodes of libxml2: \<open>Elem\<close> with a name that may be missing, attributes whose content node may be
  missing, and children; text and CDATA nodes; comments; any other type.
\<close>

datatype xnode =
    Elem "string option" "(string \<times> string option) list" "xnode list"
  | Text string
  | Cdata string
  | Comment
  | OtherNode

text \<open>
  \<open>trim_cat\<close> on the joined text: \<open>pt\<close> starts at \<open>buf + strlen(buf) - 1\<close> and runs down over white space
  with no test for the start of the buffer. The position is the number of characters left, so 0
  stands for the byte before the buffer.
\<close>

fun trim_end :: "string \<Rightarrow> nat \<Rightarrow> string res" where
  "trim_end b 0 = Inl BadAccess"
| "trim_end b (Suc k) = (if isspace (b ! k) then trim_end b k else Inr (take (Suc k) b))"

definition trim_cat :: "string list \<Rightarrow> string res" where
  "trim_cat ss =
     (let joined = string_join [] ss in
      bindR (trim_end joined (length joined)) (\<lambda>s. Inr (dropWhile isspace s)))"

fun attr_list :: "(string \<times> string option) list \<Rightarrow> alist \<Rightarrow> alist res" where
  "attr_list [] acc = Inr acc"
| "attr_list ((k, v) # as) acc =
     (case v of None \<Rightarrow> Inl NullDeref | Some s \<Rightarrow> attr_list as (acons k (SStr s) acc))"

fun node_text :: "xnode \<Rightarrow> string list" where
  "node_text (Text s) = [s]"
| "node_text (Cdata s) = [s]"
| "node_text _ = []"

fun is_elem :: "xnode \<Rightarrow> bool" where
  "is_elem (Elem n as ks) = True"
| "is_elem _ = False"

text \<open>The accumulators of the loop over the children are reversed after it: the lists are in order.\<close>

fun walk_tree :: "xnode \<Rightarrow> scm res" and walk_kids :: "xnode list \<Rightarrow> scm list res" where
  "walk_tree (Elem name attrs kids) =
     bindR (walk_kids kids) (\<lambda>elements.
     bindR (if elements = [] then bindR (trim_cat (concat (map node_text kids))) (\<lambda>s. Inr (SStr s))
            else Inr (scm_of_list elements)) (\<lambda>content.
     bindR (attr_list attrs []) (\<lambda>attribs.
       Inr (SCons (SSym (case name of None \<Rightarrow> ''no-name'' | Some n \<Rightarrow> n))
              (SCons (scm_of_alist attribs) (SCons content SEol))))))"
| "walk_tree _ = Inl BadAccess"
| "walk_kids [] = Inr []"
| "walk_kids (k # ks) =
     (if is_elem k then bindR (walk_tree k) (\<lambda>e. bindR (walk_kids ks) (\<lambda>es. Inr (e # es))) else walk_kids ks)"

definition parse_xml :: "(string \<Rightarrow> xnode option) \<Rightarrow> scm \<Rightarrow> scm res" where
  "parse_xml read_xml doc =
     bindR (scm_to_cstring doc) (\<lambda>buf.
       case read_xml buf of None \<Rightarrow> Inr (SBool False) | Some node \<Rightarrow> walk_tree node)"

definition xml_node_name :: "scm \<Rightarrow> scm res" where
  "xml_node_name d = scm_car d"

definition xml_node_attrs :: "scm \<Rightarrow> scm res" where
  "xml_node_attrs d = bindR (scm_cdr d) scm_car"

definition xml_node_content :: "scm \<Rightarrow> scm res" where
  "xml_node_content d = bindR (scm_cdr d) (\<lambda>x. bindR (scm_cdr x) scm_car)"

section \<open>Requests\<close>

definition matchn :: "string \<Rightarrow> string \<Rightarrow> bool" where
  "matchn val mime = strncmp_eq val mime (length mime)"

definition process_body ::
  "(string \<Rightarrow> json option) \<Rightarrow> (string \<Rightarrow> xnode option) \<Rightarrow> alist \<Rightarrow> scm \<Rightarrow> scm res" where
  "process_body loads read_xml headers body =
     (let ctype = assq_ref headers ''content-type'' in
      if ctype = SBool False then Inr body
      else bindR (scm_to_cstring ctype) (\<lambda>stype.
        if matchn stype ''text/json'' \<or> matchn stype ''application/json'' \<or> matchn stype ''application/javascript''
        then json_decode loads body
        else if matchn stype ''application/xml'' \<or> matchn stype ''application/atom+xml'' \<or>
                matchn stype ''application/rss+xml'' \<or> matchn stype ''text/xml''
        then parse_xml read_xml body
        else Inr body))"

definition get_auth_creds :: "scm \<Rightarrow> string option res" where
  "get_auth_creds args =
     (if args = SEol then Inr None
      else let upwd = scm_assq_ref args ''userpwd'' in
           if upwd = SBool False then Inr None else bindR (scm_to_cstring upwd) (\<lambda>s. Inr (Some s)))"

text \<open>The list of \<open>qduple\<close>s, newest first; only the value is escaped.\<close>

fun duples :: "(string \<Rightarrow> string) \<Rightarrow> scm \<Rightarrow> (string \<times> string) list \<Rightarrow> (string \<times> string) list res" where
  "duples escape SEol acc = Inr acc"
| "duples escape (SCons pair node) acc =
     bindR (scm_car pair) (\<lambda>k.
     bindR (scm_to_cstring k) (\<lambda>key.
     bindR (scm_cdr pair) (\<lambda>v.
     bindR (scm_to_cstring v) (\<lambda>val. duples escape node ((key, escape val) # acc)))))"
| "duples escape _ acc = Inl BadAccess"

definition duples_size :: "(string \<times> string) list \<Rightarrow> nat" where
  "duples_size ds = sum_list (map (\<lambda>(k, v). length k + length v + 1) ds) + length ds"

fun write_duples :: "(string \<times> string) list \<Rightarrow> bool \<Rightarrow> buf \<Rightarrow> nat \<Rightarrow> (buf \<times> nat) res" where
  "write_duples [] first b cpt = Inr (b, cpt)"
| "write_duples ((k, v) # ds) first b cpt =
     bindR (if first then Inr (b, cpt) else bindR (wr b cpt (CHR ''&'')) (\<lambda>b. Inr (b, Suc cpt))) (\<lambda>(b, cpt).
     bindR (memcpy_at b cpt (k @ [NUL])) (\<lambda>b.
     bindR (wr b (cpt + length k) (CHR ''='')) (\<lambda>b.
     bindR (memcpy_at b (cpt + length k + 1) (v @ [NUL])) (\<lambda>b.
       write_duples ds False b (cpt + length k + 1 + length v)))))"

definition post_data :: "(string \<Rightarrow> string) \<Rightarrow> (nat \<Rightarrow> char) \<Rightarrow> scm \<Rightarrow> string option res" where
  "post_data escape junk args =
     (if args = SEol then Inr None
      else let post = scm_assq_ref args ''post'' in
           if post = SBool False then Inr None
           else bindR (duples escape post []) (\<lambda>ds.
                bindR (write_duples ds True (malloc junk (duples_size ds)) 0) (\<lambda>(b, cpt).
                bindR (wr b cpt NUL) (\<lambda>b. Inr (Some (cstr b 0))))))"

definition http_url_encode :: "(string \<Rightarrow> string) \<Rightarrow> bool \<Rightarrow> scm \<Rightarrow> scm res" where
  "http_url_encode escape have_handle src =
     (case src of
        SStr s \<Rightarrow> if have_handle then bindR (scm_to_cstring src) (\<lambda>t. Inr (SStr (escape t))) else Inr (SStr [])
      | _ \<Rightarrow> Inr (SStr []))"

text \<open>The options of a curl handle that the code sets, and what a transfer delivers.\<close>

record chandle =
  h_url :: string
  h_post :: "string option"
  h_userpwd :: "string option"

datatype curl_event = HeaderLine string | BodyData string

record transfer =
  events :: "curl_event list"
  rescode :: int
  failed :: bool

definition new_handle :: "bool \<Rightarrow> string \<Rightarrow> chandle option" where
  "new_handle init_ok url = (if init_ok then Some \<lparr>h_url = url, h_post = None, h_userpwd = None\<rparr> else None)"

text \<open>
  The options a request runs with: the post data are set or cleared, the credentials are set when
  the arguments have them and otherwise left as they are.
\<close>

definition set_options :: "(string \<Rightarrow> string) \<Rightarrow> (nat \<Rightarrow> char) \<Rightarrow> scm \<Rightarrow> chandle \<Rightarrow> chandle res" where
  "set_options escape junk args h =
     bindR (post_data escape junk args) (\<lambda>post.
     bindR (get_auth_creds args) (\<lambda>creds.
       Inr (case creds of
              None \<Rightarrow> h\<lparr>h_post := post\<rparr>
            | Some u \<Rightarrow> h\<lparr>h_post := post, h_userpwd := Some u\<rparr>)))"

text \<open>The callbacks of one transfer; \<open>slack\<close> are the bytes that follow a header line in libcurl's buffer.\<close>

fun run_events :: "string \<Rightarrow> curl_event list \<Rightarrow> alist \<Rightarrow> chunks \<Rightarrow> (alist \<times> chunks) res" where
  "run_events slack [] headers cs = Inr (headers, cs)"
| "run_events slack (HeaderLine l # es) headers cs =
     bindR (header_handler (l @ slack) (length l) headers) (\<lambda>(headers', _). run_events slack es headers' cs)"
| "run_events slack (BodyData d # es) headers cs = run_events slack es headers (fst (write_handler d cs))"

record libs =
  l_perform :: "chandle \<Rightarrow> transfer"
  l_escape :: "string \<Rightarrow> string"
  l_loads :: "string \<Rightarrow> json option"
  l_read_xml :: "string \<Rightarrow> xnode option"
  l_slack :: string
  l_junk :: "nat \<Rightarrow> char"

definition http_request :: "libs \<Rightarrow> bool \<Rightarrow> scm \<Rightarrow> chandle \<Rightarrow> (chandle \<times> scm) res" where
  "http_request L raw args h =
     bindR (set_options (l_escape L) (l_junk L) args h) (\<lambda>h'.
     let t = l_perform L h' in
     bindR (run_events (l_slack L) (events t) [] []) (\<lambda>(hs, cs).
     let headers = acons ''status'' (SInt (signed_take_bit 31 (rescode t))) hs in
     if failed t then Inr (h', SBool False)
     else bindR (collect_body (l_junk L) cs) (\<lambda>body.
          bindR (if raw then Inr (SStr body) else process_body (l_loads L) (l_read_xml L) headers (SStr body)) (\<lambda>b.
            Inr (h', SCons (scm_of_alist headers) b)))))"

text \<open>
  \<open>http_get_master\<close>: with a handle made by \<open>http-handle\<close>, whose options are kept, or with an address,
  for which a handle is made and thrown away.
\<close>

definition http_get_master ::
  "libs \<Rightarrow> bool \<Rightarrow> bool \<Rightarrow> scm \<Rightarrow> scm \<Rightarrow> (nat \<rightharpoonup> chandle) \<Rightarrow> ((nat \<rightharpoonup> chandle) \<times> scm) res" where
  "http_get_master L init_ok raw url args hs =
     (case url of
        SSmob tag i \<Rightarrow>
          if tag = ''chandle'' then
            (case hs i of
               None \<Rightarrow> Inl BadAccess
             | Some h \<Rightarrow> bindR (http_request L raw args h) (\<lambda>(h', r). Inr (hs(i \<mapsto> h'), r)))
          else Inl wrong_type
      | _ \<Rightarrow>
          bindR (scm_to_cstring url) (\<lambda>surl.
            case new_handle init_ok surl of
              None \<Rightarrow> Inr (hs, SBool False)
            | Some h \<Rightarrow> bindR (http_request L raw args h) (\<lambda>(_, r). Inr (hs, r))))"

definition http_get :: "libs \<Rightarrow> bool \<Rightarrow> scm \<Rightarrow> scm \<Rightarrow> (nat \<rightharpoonup> chandle) \<Rightarrow> ((nat \<rightharpoonup> chandle) \<times> scm) res" where
  "http_get L init_ok url args hs = http_get_master L init_ok False url args hs"

definition http_get_raw :: "libs \<Rightarrow> bool \<Rightarrow> scm \<Rightarrow> scm \<Rightarrow> (nat \<rightharpoonup> chandle) \<Rightarrow> ((nat \<rightharpoonup> chandle) \<times> scm) res" where
  "http_get_raw L init_ok url args hs = http_get_master L init_ok True url args hs"

text \<open>\<open>http_handle\<close>: the handle is stored under a new number.\<close>

definition http_handle :: "bool \<Rightarrow> scm \<Rightarrow> nat \<Rightarrow> (nat \<rightharpoonup> chandle) \<Rightarrow> ((nat \<rightharpoonup> chandle) \<times> scm) res" where
  "http_handle init_ok url i hs =
     bindR (scm_to_cstring url) (\<lambda>surl.
       case new_handle init_ok surl of
         None \<Rightarrow> Inr (hs, SBool False)
       | Some h \<Rightarrow> Inr (hs(i \<mapsto> h), SSmob ''chandle'' i))"

text \<open>The collector's callback for a handle; it also says whether libcurl cleans a handle up.\<close>

definition free_chandle :: "nat \<Rightarrow> (nat \<rightharpoonup> chandle) \<Rightarrow> (nat \<rightharpoonup> chandle) \<times> bool" where
  "free_chandle i hs = (case hs i of None \<Rightarrow> (hs, False) | Some h \<Rightarrow> (hs(i := None), True))"

section \<open>Lemmas on buffers\<close>

lemma memcpy_at_ok [simp]:
  "i + length s \<le> length b \<Longrightarrow> memcpy_at b i s = Inr (take i b @ s @ drop (i + length s) b)"
  by (simp add: memcpy_at_def)

lemma length_malloc [simp]: "length (malloc junk n) = n"
  by (simp add: malloc_def)

lemma fill_bag_concat:
  "\<lbrakk>pt = sum_list (map length cs); pt \<le> length bag\<rbrakk> \<Longrightarrow> fill_bag cs bag pt = Inr (concat (rev cs) @ drop pt bag)"
proof (induction cs arbitrary: bag pt)
  case (Cons c cs)
  let ?p = "pt - length c"
  have len: "length c \<le> pt" using Cons.prems by simp
  have "fill_bag cs (take ?p bag @ c @ drop pt bag) ?p =
      Inr (concat (rev cs) @ drop ?p (take ?p bag @ c @ drop pt bag))"
    by (rule Cons.IH) (use Cons.prems len in auto)
  then show ?case using Cons.prems len by (simp add: add.commute)
qed simp

lemma collect_body_concat: "collect_body junk cs = Inr (concat (rev cs))"
  by (simp add: collect_body_def fill_bag_concat Let_def length_concat rev_map sum_list_rev
      flip: rev_map)

section \<open>Lemmas on form data\<close>

definition form_field :: "string \<times> string \<Rightarrow> string" where
  "form_field kv = fst kv @ ''='' @ snd kv"

definition form_rest :: "(string \<times> string) list \<Rightarrow> string" where
  "form_rest ds = concat (map (\<lambda>kv. CHR ''&'' # form_field kv) ds)"

lemma write_field:
  assumes "cpt + length k + length v + 2 \<le> length b"
  shows "bindR (memcpy_at b cpt (k @ [NUL])) (\<lambda>b.
     bindR (wr b (cpt + length k) (CHR ''='')) (\<lambda>b.
     bindR (memcpy_at b (cpt + length k + 1) (v @ [NUL])) f)) =
     f (take cpt b @ form_field (k, v) @ NUL # drop (cpt + length k + length v + 2) b)"
proof -
  have e: "(take cpt b @ k @ NUL # drop (Suc (cpt + length k)) b)[cpt + length k := CHR ''=''] =
      take cpt b @ k @ CHR ''='' # drop (Suc (cpt + length k)) b"
    using assms by (simp add: list_update_append)
  show ?thesis
    using assms by (simp add: e form_field_def min_def add.commute add.left_commute)
qed

lemma write_duples_rest:
  "cpt + length (form_rest ds) < length b \<Longrightarrow>
   \<exists>b'. write_duples ds False b cpt = Inr (b', cpt + length (form_rest ds)) \<and> length b' = length b \<and>
     take (cpt + length (form_rest ds)) b' = take cpt b @ form_rest ds"
proof (induction ds arbitrary: b cpt)
  case (Cons kv ds)
  obtain k v where kv: "kv = (k, v)" by (cases kv)
  let ?c = "Suc cpt + length k + 1 + length v"
  have len: "?c + length (form_rest ds) < length b"
    using Cons.prems kv by (simp add: form_rest_def form_field_def)
  let ?b = "take (Suc cpt) (b[cpt := CHR ''&'']) @ form_field (k, v) @ NUL # drop (?c + 1) (b[cpt := CHR ''&''])"
  have step: "write_duples (kv # ds) False b cpt = write_duples ds False ?b ?c"
    using write_field [of "Suc cpt" k v "b[cpt := CHR ''&'']"] len kv by simp
  have "length ?b = length b" using len by (simp add: form_field_def)
  moreover have "take ?c ?b = take cpt b @ CHR ''&'' # form_field (k, v)"
    using len by (simp add: form_field_def take_Suc_conv_app_nth)
  ultimately obtain b' where "write_duples ds False ?b ?c = Inr (b', ?c + length (form_rest ds))"
      "length b' = length b" "take (?c + length (form_rest ds)) b' = (take cpt b @ CHR ''&'' # form_field (k, v)) @ form_rest ds"
    using Cons.IH [of ?c ?b] len by auto
  moreover have "form_rest (kv # ds) = CHR ''&'' # form_field (k, v) @ form_rest ds"
    using kv by (simp add: form_rest_def)
  moreover have "cpt + length (CHR ''&'' # form_field (k, v) @ form_rest ds) = ?c + length (form_rest ds)"
    by (simp add: form_field_def)
  ultimately show ?case using step by (simp add: add.assoc)
qed (simp add: form_rest_def)

lemma write_duples_first:
  assumes "length (form_field kv) + length (form_rest ds) < length b"
  shows "\<exists>b'. write_duples (kv # ds) True b 0 = Inr (b', length (form_field kv @ form_rest ds)) \<and>
    length b' = length b \<and> take (length (form_field kv @ form_rest ds)) b' = form_field kv @ form_rest ds"
proof -
  obtain k v where kv: "kv = (k, v)" by (cases kv)
  let ?c = "length k + 1 + length v"
  let ?b = "form_field (k, v) @ NUL # drop (?c + 1) b"
  have len: "?c + length (form_rest ds) < length b" using assms kv by (simp add: form_field_def)
  have step: "write_duples (kv # ds) True b 0 = write_duples ds False ?b ?c"
    using write_field [of 0 k v b] len kv by simp
  have "length ?b = length b" "take ?c ?b = form_field (k, v)" using len by (simp_all add: form_field_def)
  then obtain b' where "write_duples ds False ?b ?c = Inr (b', ?c + length (form_rest ds))" "length b' = length b"
      "take (?c + length (form_rest ds)) b' = form_field (k, v) @ form_rest ds"
    using write_duples_rest [of ?c ds ?b] len by auto
  then show ?thesis using step kv by (simp add: form_field_def add.assoc)
qed

lemma form_join: "string_join ''&'' (map form_field (kv # ds)) = form_field kv @ form_rest ds"
  by (induction ds arbitrary: kv) (auto simp: form_rest_def string_join_Cons)

lemma duples_size_form: "duples_size (kv # ds) = length (form_field kv) + length (form_rest ds) + 1"
  by (induction ds) (auto simp: duples_size_def form_rest_def form_field_def case_prod_beta)

lemma duples_pairs:
  "\<forall>(k, v) \<in> set kvs. NUL \<notin> set k \<and> NUL \<notin> set v \<Longrightarrow>
   duples esc (scm_of_list (map (\<lambda>(k, v). SCons (SStr k) (SStr v)) kvs)) acc =
     Inr (rev (map (\<lambda>(k, v). (k, esc v)) kvs) @ acc)"
  by (induction kvs arbitrary: acc) auto

lemma post_written:
  assumes "ds \<noteq> []" "\<forall>(k, v) \<in> set ds. NUL \<notin> set k \<and> NUL \<notin> set v"
  shows "bindR (write_duples ds True (malloc junk (duples_size ds)) 0) (\<lambda>(b, cpt).
      bindR (wr b cpt NUL) (\<lambda>b. Inr (Some (cstr b 0)))) = Inr (Some (string_join ''&'' (map form_field ds)))"
proof -
  obtain kv es where ds: "ds = kv # es" using assms(1) by (cases ds) auto
  let ?t = "form_field kv @ form_rest es"
  obtain b where b: "write_duples ds True (malloc junk (duples_size ds)) 0 = Inr (b, length ?t)"
      "length b = Suc (length ?t)" "take (length ?t) b = ?t"
    using write_duples_first [of kv es "malloc junk (duples_size ds)"] ds by (auto simp: duples_size_form)
  have "NUL \<notin> set ?t"
    using assms(2) ds by (auto simp: form_field_def form_rest_def)
  moreover have "b[length ?t := NUL] = ?t @ [NUL]"
    using b(2,3) by (metis append_take_drop_id drop_all le_refl length_list_update take_update_cancel
        take_Suc_conv_app_nth lessI nth_list_update_eq take_all)
  ultimately have "cstr (b[length ?t := NUL]) 0 = ?t" by (simp add: cstr_str_at str_at_drop)
  then show ?thesis using b(1,2) ds form_join [of kv es] by simp
qed


section \<open>Lemmas on headers\<close>

lemma skip_space_run:
  "\<lbrakk>drop i b = ws @ c # r; \<forall>x \<in> set ws. isspace x; \<not> isspace c\<rbrakk> \<Longrightarrow> skip_space b i = Inr (i + length ws)"
proof (induction ws arbitrary: i)
  case Nil
  then have d: "drop i b = c # r" by simp
  show ?case using drop_eq_ConsD [OF d] Nil.prems(3) by (simp add: skip_space.simps)
next
  case (Cons w ws)
  then have d: "drop i b = w # (ws @ c # r)" by simp
  have "skip_space b (Suc i) = Inr (Suc i + length ws)"
    using drop_eq_ConsD [OF d] Cons.prems by (intro Cons.IH) auto
  then show ?case using drop_eq_ConsD [OF d] Cons.prems(2) by (simp add: skip_space.simps [of b i])
qed

lemma cut_space_run:
  "\<lbrakk>P \<noteq> []; \<not> isspace (last P); \<forall>x \<in> set t. isspace x; val < length P \<or> length P + length t \<le> val\<rbrakk> \<Longrightarrow>
   cut_space (P @ t @ Q) val (length P + length t - 1) = Inr (P @ replicate (length t) NUL @ Q)"
proof (induction t arbitrary: Q rule: rev_induct)
  case Nil
  then obtain P' p where "P = P' @ [p]" by (cases P rule: rev_cases) auto
  with Nil show ?case
    by (subst cut_space.simps) (auto simp: nth_append)
next
  case (snoc x t)
  let ?i = "length P + length t"
  have x: "(P @ (t @ [x]) @ Q) ! ?i = x" "(P @ (t @ [x]) @ Q)[?i := NUL] = P @ t @ NUL # Q"
    by (simp_all add: nth_append list_update_append)
  have "cut_space (P @ (t @ [x]) @ Q) val ?i = cut_space (P @ t @ NUL # Q) val (?i - 1)"
    using snoc.prems x by (subst cut_space.simps) (auto simp del: append_assoc simp: append_assoc [symmetric])
  also have "\<dots> = Inr (P @ replicate (length t) NUL @ NUL # Q)"
    by (rule snoc.IH) (use snoc.prems in auto)
  finally show ?case by (simp add: replicate_app_Cons_same)
qed

text \<open>A header line: a name, a colon, white space, a value and white space to the end.\<close>

definition header_line :: "string \<Rightarrow> string \<Rightarrow> string \<Rightarrow> string \<Rightarrow> string" where
  "header_line name ws val trail = name @ '':'' @ ws @ val @ trail"

definition ok_header :: "string \<Rightarrow> string \<Rightarrow> string \<Rightarrow> string \<Rightarrow> bool" where
  "ok_header name ws val trail \<longleftrightarrow> CHR '':'' \<notin> set name \<and> NUL \<notin> set (name @ val) \<and>
     (\<forall>c \<in> set (ws @ trail). isspace c) \<and> (val = [] \<or> \<not> isspace (hd val) \<and> \<not> isspace (last val))"

lemma isspace_NUL [simp]: "\<not> isspace NUL"
  by (simp add: isspace_def)

lemma space_not_NUL: "\<forall>c \<in> set ws. isspace c \<Longrightarrow> NUL \<notin> set ws"
  by auto

lemma header_value:
  assumes "ok_header name ws val trail" "buf = name @ [NUL] @ ws @ val @ trail @ NUL # rest"
  shows "\<exists>v buf'. skip_space buf (Suc (length name)) = Inr v \<and>
    cut_space buf v (v + length (cstr buf v) - 1) = Inr buf' \<and> cstr buf' v = val"
proof (cases "val = []")
  case True
  let ?w = "ws @ trail"
  have sp: "\<forall>x \<in> set ?w. isspace x" using assms(1) by (simp add: ok_header_def)
  have buf: "buf = (name @ [NUL]) @ ?w @ NUL # rest" using assms(2) True by simp
  let ?v = "Suc (length name) + length ?w"
  have "skip_space buf (Suc (length name)) = Inr ?v"
    by (rule skip_space_run [of _ _ _ NUL rest]) (use sp buf in auto)
  moreover have c: "cstr buf ?v = []" using buf by (simp add: cstr_def)
  moreover have "cut_space buf ?v (length (name @ [NUL]) + length ?w - 1) =
      Inr ((name @ [NUL]) @ replicate (length ?w) NUL @ NUL # rest)"
    unfolding buf by (rule cut_space_run) (use sp in auto)
  moreover have "cstr ((name @ [NUL]) @ replicate (length ?w) NUL @ NUL # rest) ?v = []" by (simp add: cstr_def)
  ultimately show ?thesis using True by auto
next
  case False
  let ?P = "name @ [NUL] @ ws @ val" and ?v = "Suc (length name) + length ws"
  have h: "\<forall>x \<in> set ws. isspace x" "\<forall>x \<in> set trail. isspace x" "\<not> isspace (hd val)" "\<not> isspace (last val)"
      "NUL \<notin> set val"
    using assms(1) False by (auto simp: ok_header_def)
  have buf: "buf = ?P @ trail @ NUL # rest" using assms(2) by simp
  obtain c cs where val: "val = c # cs" using False by (cases val) auto
  have s: "skip_space buf (Suc (length name)) = Inr ?v"
    by (rule skip_space_run [of _ _ _ c "cs @ trail @ NUL # rest"]) (use h val buf in auto)
  have "str_at buf ?v (val @ trail)"
    using h space_not_NUL [OF h(2)] buf by (auto simp: str_at_drop)
  then have e: "?v + length (cstr buf ?v) - 1 = length ?P + length trail - 1"
    by (simp add: cstr_str_at)
  have cut: "cut_space buf ?v (length ?P + length trail - 1) = Inr (?P @ replicate (length trail) NUL @ NUL # rest)"
    unfolding buf by (rule cut_space_run) (use h False in auto)
  have str: "str_at (?P @ replicate (length trail) NUL @ NUL # rest) ?v val"
    using h by (cases trail) (auto simp: str_at_drop)
  show ?thesis
    by (intro exI conjI) (rule s, unfold e, rule cut, rule cstr_str_at [OF str])
qed

lemma header_handler_field:
  assumes "ok_header name ws val trail" "slack \<noteq> []"
  shows "header_handler (header_line name ws val trail @ slack) (length (header_line name ws val trail)) hs =
    Inr (acons (downcase name) (SStr val) hs, length (header_line name ws val trail))"
proof -
  let ?l = "header_line name ws val trail"
  obtain x sl where slack: "slack = x # sl" using assms(2) by (cases slack) auto
  have nul: "NUL \<notin> set ?l" "CHR '':'' \<notin> set name"
    using assms(1) space_not_NUL [of ws] space_not_NUL [of trail] by (auto simp: ok_header_def header_line_def)
  have w: "wr (?l @ slack) (length ?l) NUL = Inr (?l @ NUL # sl)" using slack by simp
  have i: "bindex (CHR '':'') (?l @ NUL # sl) 0 = Inr (Some (length name))"
    using bindex_drop [of 0 "?l @ NUL # sl" ?l sl "CHR '':''"] nul
    by (simp add: header_line_def index_of_takeWhile takeWhile_stop takeWhile_no)
  let ?b = "name @ [NUL] @ ws @ val @ trail @ NUL # sl"
  have w2: "wr (?l @ NUL # sl) (length name) NUL = Inr ?b" by (simp add: header_line_def list_update_append)
  obtain v b' where v: "skip_space ?b (Suc (length name)) = Inr v"
      "cut_space ?b v (v + length (cstr ?b v) - 1) = Inr b'" "cstr b' v = val"
    using header_value [OF assms(1) refl] by blast
  have "cstr ?b 0 = name"
    using nul assms(1) by (intro cstr_str_at) (auto simp: str_at_drop ok_header_def)
  then show ?thesis using w i w2 v by (simp add: header_handler_def)
qed


section \<open>Lemmas on XML\<close>

lemma string_join_concat: "string_join [] ss = concat ss"
proof (induction ss)
  case (Cons s ss)
  then show ?case by (cases ss) auto
qed simp

definition strip :: "string \<Rightarrow> string" where
  "strip s = dropWhile isspace (rev (dropWhile isspace (rev s)))"

lemma trim_end_cases:
  "k \<le> length b \<Longrightarrow>
   trim_end b k = (if \<forall>c \<in> set (take k b). isspace c then Inl BadAccess
                   else Inr (rev (dropWhile isspace (rev (take k b)))))"
  by (induction k) (auto simp: take_Suc_conv_app_nth)

lemma trim_cat_cases:
  "trim_cat ss = (if \<forall>c \<in> set (concat ss). isspace c then Inl BadAccess else Inr (strip (concat ss)))"
  unfolding trim_cat_def Let_def string_join_concat
  by (subst trim_end_cases) (simp_all add: strip_def)

lemma attr_list_cases:
  "attr_list as acc =
     (if \<exists>(k, v) \<in> set as. v = None then Inl NullDeref
      else Inr (rev (map (\<lambda>(k, v). (k, SStr (the v))) as) @ acc))"
  by (induction as arbitrary: acc) (auto simp: acons_def split: option.splits)

text \<open>
  The trees the walk gets through: every element has an element below it or a character of text
  that is not white space, and every attribute has a content node.
\<close>

fun sound_tree :: "xnode \<Rightarrow> bool" where
  "sound_tree (Elem name attrs kids) =
     ((\<forall>k \<in> set kids. sound_tree k) \<and>
      ((\<exists>k \<in> set kids. is_elem k) \<or> (\<exists>c \<in> set (concat (concat (map node_text kids))). \<not> isspace c)) \<and>
      (\<forall>(k, v) \<in> set attrs. v \<noteq> None))"
| "sound_tree _ = True"

text \<open>What the document is: name, attributes and content, which is the elements or the trimmed text.\<close>

fun tree_of :: "xnode \<Rightarrow> scm" where
  "tree_of (Elem name attrs kids) =
     scm_of_list
       [SSym (case name of None \<Rightarrow> ''no-name'' | Some n \<Rightarrow> n),
        scm_of_alist (rev (map (\<lambda>(k, v). (k, SStr (the v))) attrs)),
        (if \<exists>k \<in> set kids. is_elem k then scm_of_list (map tree_of (filter is_elem kids))
         else SStr (strip (concat (concat (map node_text kids)))))]"
| "tree_of _ = SEol"

lemma walk_kids_sound:
  "(\<forall>k \<in> set kids. is_elem k \<longrightarrow> walk_tree k = Inr (tree_of k)) \<Longrightarrow>
   walk_kids kids = Inr (map tree_of (filter is_elem kids))"
  by (induction kids) auto

lemma walk_tree_sound: "sound_tree t \<Longrightarrow> is_elem t \<Longrightarrow> walk_tree t = Inr (tree_of t)"
proof (induction t rule: sound_tree.induct)
  case (1 name attrs kids)
  have k: "walk_kids kids = Inr (map tree_of (filter is_elem kids))"
    by (rule walk_kids_sound) (use 1 in auto)
  have a: "attr_list attrs [] = Inr (rev (map (\<lambda>(k, v). (k, SStr (the v))) attrs))"
    using 1(2) by (auto simp: attr_list_cases)
  show ?case
  proof (cases "\<exists>k \<in> set kids. is_elem k")
    case True
    then have "filter is_elem kids \<noteq> []" by (auto simp: filter_empty_conv)
    then show ?thesis using True k a by simp
  next
    case False
    then have "filter is_elem kids = []" by (auto simp: filter_empty_conv)
    moreover have "\<not> (\<forall>c \<in> set (concat (concat (map node_text kids))). isspace c)"
      using 1(2) False by auto
    ultimately show ?thesis using False k a by (simp add: trim_cat_cases)
  qed
qed auto


lemma walk_kids_Inr:
  "walk_kids kids = Inr es \<Longrightarrow>
   (\<forall>k \<in> set kids. is_elem k \<longrightarrow> (\<exists>v. walk_tree k = Inr v)) \<and> (es = [] \<longleftrightarrow> \<not> (\<exists>k \<in> set kids. is_elem k))"
  by (induction kids arbitrary: es) (auto simp: bindR_eq_Inr split: if_splits)

lemma walk_tree_Inr: "walk_tree t = Inr v \<Longrightarrow> is_elem t \<and> sound_tree t"
proof (induction t arbitrary: v rule: sound_tree.induct)
  case (1 name attrs kids)
  from 1(2) obtain es where es: "walk_kids kids = Inr es" by (auto simp: bindR_eq_Inr)
  note k = walk_kids_Inr [OF es]
  have "sound_tree x" if "x \<in> set kids" for x
    using 1(1) k that by (cases "is_elem x") (auto elim: is_elem.elims intro: is_elem.cases [of x "sound_tree x"])
  moreover have "\<forall>(k, v) \<in> set attrs. v \<noteq> None"
    using 1(2) es by (auto simp: bindR_eq_Inr attr_list_cases split: if_splits)
  moreover have "(\<exists>k \<in> set kids. is_elem k) \<or> (\<exists>c \<in> set (concat (concat (map node_text kids))). \<not> isspace c)"
  proof (cases "es = []")
    case True
    then have "\<exists>s. trim_cat (concat (map node_text kids)) = Inr s" using 1(2) es by (auto simp: bindR_eq_Inr)
    then show ?thesis by (auto simp: trim_cat_cases split: if_splits)
  qed (use k in auto)
  ultimately show ?case by simp
qed auto

section \<open>Properties\<close>

text \<open>The body of a reply is the data of the write callbacks in the order they came.\<close>

fun body_data :: "curl_event list \<Rightarrow> string" where
  "body_data [] = []"
| "body_data (HeaderLine l # es) = body_data es"
| "body_data (BodyData d # es) = d @ body_data es"

text \<open>A script of a reply, as header fields and pieces of body, and its events.\<close>

datatype reply_item = Field string string string string | Piece string

fun event_of :: "reply_item \<Rightarrow> curl_event" where
  "event_of (Field name ws val trail) = HeaderLine (header_line name ws val trail)"
| "event_of (Piece d) = BodyData d"

fun ok_item :: "reply_item \<Rightarrow> bool" where
  "ok_item (Field name ws val trail) = ok_header name ws val trail"
| "ok_item (Piece d) = True"

fun reply_fields :: "reply_item list \<Rightarrow> (string \<times> string) list" where
  "reply_fields [] = []"
| "reply_fields (Field name ws val trail # is) = (downcase name, val) # reply_fields is"
| "reply_fields (Piece d # is) = reply_fields is"

lemma run_events_reply:
  "\<lbrakk>\<forall>i \<in> set is. ok_item i; slack \<noteq> []\<rbrakk> \<Longrightarrow>
   \<exists>cs'. run_events slack (map event_of is) hs cs =
       Inr (rev (map (\<lambda>(k, v). (k, SStr v)) (reply_fields is)) @ hs, cs') \<and>
     concat (rev cs') = concat (rev cs) @ body_data (map event_of is)"
proof (induction "is" arbitrary: hs cs)
  case (Cons i "is")
  show ?case
  proof (cases i)
    case (Field name ws val trail)
    then have "header_handler (header_line name ws val trail @ slack) (length (header_line name ws val trail)) hs =
        Inr (acons (downcase name) (SStr val) hs, length (header_line name ws val trail))"
      using Cons.prems by (intro header_handler_field) auto
    then show ?thesis using Cons Field by (simp add: acons_def)
  next
    case (Piece d)
    then show ?thesis
      using Cons.IH [of hs "d # cs"] Cons.prems by (auto simp: write_handler_def)
  qed
qed simp


definition demo_libs :: libs where
  "demo_libs =
     \<lparr>l_perform = (\<lambda>h. \<lparr>events = [HeaderLine ''Server: x '', BodyData ''ab'', BodyData ''c''], rescode = 200, failed = False\<rparr>),
      l_escape = (\<lambda>s. s), l_loads = (\<lambda>_. None), l_read_xml = (\<lambda>_. None), l_slack = '' '', l_junk = (\<lambda>_. NUL)\<rparr>"


text \<open>
  The fields of a form are written as \<open>key=value\<close> with the value escaped, joined by ampersands, last
  field first, in exactly the memory allocated for them; for an empty form nothing is allocated
  and the terminator is stored outside.
\<close>

theorem post_data_written:
  assumes "\<forall>(k, v) \<in> set kvs. NUL \<notin> set k \<and> NUL \<notin> set v" "\<And>s. NUL \<notin> set (esc s)"
  shows "post_data esc junk (SCons (SCons (SSym ''post'') (scm_of_list (map (\<lambda>(k, v). SCons (SStr k) (SStr v)) kvs))) SEol) =
    (if kvs = [] then Inl BadAccess
     else Inr (Some (string_join ''&'' (rev (map (\<lambda>(k, v). k @ ''='' @ esc v) kvs)))))"
proof -
  let ?ds = "rev (map (\<lambda>(k, v). (k, esc v)) kvs)"
  have ds: "duples esc (scm_of_list (map (\<lambda>(k, v). SCons (SStr k) (SStr v)) kvs)) [] = Inr ?ds"
    using duples_pairs [OF assms(1), of esc "[]"] by simp
  have nb: "scm_of_list (map (\<lambda>(k, v). SCons (SStr k) (SStr v)) kvs) \<noteq> SBool False" by (cases kvs) auto
  show ?thesis
  proof (cases "kvs = []")
    case True
    then show ?thesis by (simp add: post_data_def duples_size_def malloc_def)
  next
    case False
    have f: "map form_field ?ds = rev (map (\<lambda>(k, v). k @ ''='' @ esc v) kvs)"
      by (simp add: rev_map form_field_def case_prod_beta comp_def)
    have "bindR (write_duples ?ds True (malloc junk (duples_size ?ds)) 0) (\<lambda>(b, cpt).
        bindR (wr b cpt NUL) (\<lambda>b. Inr (Some (cstr b 0)))) = Inr (Some (string_join ''&'' (map form_field ?ds)))"
      by (rule post_written) (use assms False in auto)
    then show ?thesis using False ds nb unfolding f by (simp add: post_data_def)
  qed
qed

theorem post_data_written_witness:
  "post_data (\<lambda>s. ''%41'') (\<lambda>_. NUL) (SCons (SCons (SSym ''post'')
     (SCons (SCons (SStr ''a'') (SStr ''A'')) (SCons (SCons (SStr ''b'') (SStr ''A'')) SEol))) SEol) =
   Inr (Some ''b=%41&a=%41'')"
  using post_data_written [of "[(''a'', ''A''), (''b'', ''A'')]" "\<lambda>s. ''%41''" "\<lambda>_. NUL"] by simp

text \<open>
  C38: The XML walk returns the tree of name, attributes and content exactly on the documents in which
  every element has an element or some text that is not blank, and every attribute has a content
  node. On any other document, one with an empty element
  among them, it reads outside an object.
\<close>

theorem walk_tree_defined_iff:
  "walk_tree t = Inr v \<longleftrightarrow> is_elem t \<and> sound_tree t \<and> v = tree_of t"
  using walk_tree_sound [of t] walk_tree_Inr [of t v] by auto

text \<open>A handle is cleaned up once, however often it is collected, and the other handles stay as they are.\<close>

lemma handle_cleaned_once:
  assumes "http_handle True url i hs = Inr (hs', v)" "j \<noteq> i"
  shows "free_chandle i hs' = (hs(i := None), True) \<and> free_chandle i (hs(i := None)) = (hs(i := None), False) \<and>
    fst (free_chandle i hs') j = hs j"
  using assms by (auto simp: http_handle_def new_handle_def free_chandle_def bindR_eq_Inr)

text \<open>
  Credentials given once stay with a handle: a later request on it without any still sends them.
\<close>

theorem handle_keeps_credentials:
  assumes "set_options esc junk args h = Inr h1" "get_auth_creds args = Inr (Some u)"
  shows "set_options esc junk SEol h1 = Inr (h1\<lparr>h_post := None\<rparr>) \<and> h_userpwd (h1\<lparr>h_post := None\<rparr>) = Some u"
  using assms by (auto simp: set_options_def bindR_eq_Inr post_data_def get_auth_creds_def)

theorem handle_keeps_credentials_witness:
  "\<exists>h1. set_options (\<lambda>s. s) (\<lambda>_. NUL) (SCons (SCons (SSym ''userpwd'') (SStr ''u:p'')) SEol)
       \<lparr>h_url = ''x'', h_post = None, h_userpwd = None\<rparr> = Inr h1 \<and>
     h_userpwd (h1\<lparr>h_post := None\<rparr>) = Some ''u:p''"
  using handle_keeps_credentials [of "\<lambda>s. s" "\<lambda>_. NUL" "SCons (SCons (SSym ''userpwd'') (SStr ''u:p'')) SEol"
      "\<lparr>h_url = ''x'', h_post = None, h_userpwd = None\<rparr>"
      "\<lparr>h_url = ''x'', h_post = None, h_userpwd = Some ''u:p''\<rparr>" "''u:p''"]
  by (simp add: set_options_def post_data_def get_auth_creds_def)

end
