(* ===== verification/Postgres.thy ===== *)
theory Postgres
  imports Gtime
begin

text \<open>
  The PostgreSQL client (\<open>postgres.c\<close>). libpq is the parameter \<open>libpq\<close>: its accessors take a result
  pointer, \<open>None\<close> for a null pointer, which libpq accepts everywhere. \<open>atof\<close> is the C conversion,
  \<open>p_smob\<close> the object that a time stamp becomes, \<open>p_time\<close> the time stamp behind such an object. The
  field \<open>freed\<close> counts the calls of \<open>PQclear\<close> on a pointer that is not null. The mutex of a
  connection is held only across single calls of libpq and is left out.
\<close>

section \<open>State\<close>

type_synonym pgptr = "nat option"

record libpq =
  PQexec :: "bool \<Rightarrow> string \<Rightarrow> pgptr"
  PQnfields :: "pgptr \<Rightarrow> nat"
  PQntuples :: "pgptr \<Rightarrow> nat"
  PQcmdTuples :: "pgptr \<Rightarrow> string"
  PQresultStatus :: "pgptr \<Rightarrow> nat"
  PQresultErrorMessage :: "pgptr \<Rightarrow> string"
  PQfname :: "pgptr \<Rightarrow> nat \<Rightarrow> string"
  PQftype :: "pgptr \<Rightarrow> nat \<Rightarrow> int"
  PQgetisnull :: "pgptr \<Rightarrow> nat \<Rightarrow> nat \<Rightarrow> bool"
  PQgetvalue :: "pgptr \<Rightarrow> nat \<Rightarrow> nat \<Rightarrow> string"
  PQescapeLiteral :: "bool \<Rightarrow> string \<Rightarrow> string option"

record penv =
  p_pq :: libpq
  p_clib :: clib
  p_atof :: "string \<Rightarrow> real64"
  p_num :: "real64 \<Rightarrow> string"
  p_smob :: "stamp \<Rightarrow> scm"
  p_time :: "nat \<Rightarrow> g_time option"

text \<open>A connection is open or its pointer is null; \<open>finished\<close> counts the calls of \<open>PQfinish\<close>.\<close>

record pg_conn =
  conn_open :: bool
  finished :: nat

record pg_res =
  res :: pgptr
  cursor :: nat
  nfields :: nat
  tuples :: nat
  cmd_tuples :: int
  status :: nat
  ftypes :: "int list"
  fnames :: "string list"
  freed :: nat

abbreviation PGRES_NONFATAL_ERROR :: nat where "PGRES_NONFATAL_ERROR \<equiv> 6"

abbreviation PGRES_FATAL_ERROR :: nat where "PGRES_FATAL_ERROR \<equiv> 7"

text \<open>\<open>PQclear(pgr->res); pgr->res = NULL\<close>.\<close>

definition clear_res :: "pg_res \<Rightarrow> pg_res" where
  "clear_res r = r\<lparr>res := None, freed := freed r + (if res r = None then 0 else 1)\<rparr>"

section \<open>Connections and queries\<close>

definition pg_open_primitive :: "(string \<Rightarrow> bool) \<Rightarrow> scm \<Rightarrow> pg_conn res" where
  "pg_open_primitive connect conninfo =
     bindR (scm_to_cstring conninfo) (\<lambda>s. Inr \<lparr>conn_open = connect s, finished = (if connect s then 0 else 1)\<rparr>)"

definition pg_close :: "pg_conn \<Rightarrow> pg_conn" where
  "pg_close c = c\<lparr>conn_open := False, finished := finished c + (if conn_open c then 1 else 0)\<rparr>"

text \<open>The collector's callback for a connection.\<close>

definition free_pg_conn :: "pg_conn \<Rightarrow> pg_conn" where
  "free_pg_conn c = (if conn_open c then c\<lparr>conn_open := False, finished := finished c + 1\<rparr> else c)"

definition pg_exec :: "penv \<Rightarrow> pg_conn \<Rightarrow> scm \<Rightarrow> pg_res res" where
  "pg_exec E c query =
     bindR (scm_to_cstring query) (\<lambda>q.
       let p = PQexec (p_pq E) (conn_open c) q; n = PQnfields (p_pq E) p in
       Inr \<lparr>res = p, cursor = 0, nfields = n, tuples = PQntuples (p_pq E) p,
            cmd_tuples = atoi (PQcmdTuples (p_pq E) p), status = PQresultStatus (p_pq E) p,
            ftypes = map (PQftype (p_pq E) p) [0..<n], fnames = map (PQfname (p_pq E) p) [0..<n], freed = 0\<rparr>)"

definition pg_error_msg :: "penv \<Rightarrow> pg_res \<Rightarrow> scm" where
  "pg_error_msg E r =
     (if status r \<noteq> PGRES_FATAL_ERROR \<and> status r \<noteq> PGRES_NONFATAL_ERROR then SBool False
      else SStr (PQresultErrorMessage (p_pq E) (res r)))"

section \<open>Decoding of columns\<close>

text \<open>\<open>index(here, c) + 1\<close>; the result of \<open>index\<close> is used without a test.\<close>

definition after :: "char \<Rightarrow> string \<Rightarrow> string res" where
  "after c s = (case index_of c s of None \<Rightarrow> Inl NullDeref | Some k \<Rightarrow> Inr (drop (Suc k) s))"

definition decode_timestamp :: "penv \<Rightarrow> string \<Rightarrow> stamp res" where
  "decode_timestamp E s =
     bindR (after (CHR ''-'') s) (\<lambda>h1.
     bindR (after (CHR ''-'') h1) (\<lambda>h2.
       if index_of (CHR '':'') h2 = None
       then Inr (local_time_intern (p_clib E) (atoi s) (atoi h1) (atoi h2) 0 0 0)
       else bindR (after (CHR '' '') h2) (\<lambda>h3.
            bindR (after (CHR '':'') h3) (\<lambda>h4.
            bindR (after (CHR '':'') h4) (\<lambda>h5.
              Inr (on_finite (p_atof E h5)
                (local_time_intern (p_clib E) (atoi s) (atoi h1) (atoi h2) (atoi h3) (atoi h4))))))))"

definition decode_ts :: "penv \<Rightarrow> scm \<Rightarrow> scm res" where
  "decode_ts E ts = bindR (scm_to_cstring ts) (\<lambda>s. bindR (decode_timestamp E s) (\<lambda>t. Inr (p_smob E t)))"

definition pg_decode :: "penv \<Rightarrow> string \<Rightarrow> int \<Rightarrow> scm res" where
  "pg_decode E s dtype =
     (if dtype \<in> {701, 1700, 700} then Inr (SReal (p_atof E s))
      else if dtype \<in> {20, 21, 23} then Inr (SInt (atoi s))
      else if dtype \<in> {1114, 1184, 1082} then bindR (decode_timestamp E s) (\<lambda>t. Inr (p_smob E t))
      else if dtype \<in> {16, 1000} then Inr (SBool (s \<noteq> [] \<and> hd s = CHR ''t''))
      else Inr (SStr s))"

text \<open>The loop of \<open>build_row\<close>: \<open>n\<close> fields from number \<open>i\<close> on, the names and types still to come.\<close>

fun build_cells :: "penv \<Rightarrow> pg_res \<Rightarrow> nat \<Rightarrow> nat \<Rightarrow> string list \<Rightarrow> int list \<Rightarrow> alist \<Rightarrow> alist res" where
  "build_cells E r i 0 fs ts row = Inr row"
| "build_cells E r i (Suc n) (f # fs) (t # ts) row =
     bindR (if PQgetisnull (p_pq E) (res r) (cursor r) i then Inr SEol
            else bindR (scm_to_int t) (\<lambda>dtype. pg_decode E (PQgetvalue (p_pq E) (res r) (cursor r) i) dtype)) (\<lambda>v.
       build_cells E r (Suc i) n fs ts (acons f v row))"
| "build_cells E r i (Suc n) _ _ row = Inl BadAccess"

definition build_row :: "penv \<Rightarrow> pg_res \<Rightarrow> scm res" where
  "build_row E r =
     bindR (build_cells E r 0 (nfields r) (fnames r) (ftypes r) []) (\<lambda>row. Inr (scm_of_alist row))"

section \<open>The cursor\<close>

definition pg_get_row :: "penv \<Rightarrow> pg_res \<Rightarrow> pg_res \<times> scm res" where
  "pg_get_row E r =
     (if tuples r \<le> cursor r then (r, Inr (SBool False))
      else case build_row E r of
             Inl e \<Rightarrow> (r, Inl e)
           | Inr row \<Rightarrow> (r\<lparr>cursor := Suc (cursor r)\<rparr>, Inr row))"

definition pg_next_row :: "penv \<Rightarrow> pg_res \<Rightarrow> pg_res \<times> scm res" where
  "pg_next_row E r =
     (if tuples r \<le> cursor r then (clear_res r, Inr (SBool False))
      else case build_row E r of
             Inl e \<Rightarrow> (r, Inl e)
           | Inr row \<Rightarrow> (r\<lparr>cursor := Suc (cursor r)\<rparr>, Inr row))"

text \<open>
  \<open>pg_each_row\<close> and \<open>pg_map_rows\<close> with a procedure \<open>f\<close> that does not touch the result itself and may
  raise. The middle component of \<open>each_loop\<close> is the rows it was called with.
\<close>

function each_loop :: "penv \<Rightarrow> (scm \<Rightarrow> scm res) \<Rightarrow> pg_res \<Rightarrow> pg_res \<times> scm list \<times> scm res" where
  "each_loop E f r =
     (if cursor r < tuples r then
        case build_row E r of
          Inl e \<Rightarrow> (r, [], Inl e)
        | Inr row \<Rightarrow>
            (case f row of
               Inl e \<Rightarrow> (r, [row], Inl e)
             | Inr _ \<Rightarrow> (let (r', rows, x) = each_loop E f (r\<lparr>cursor := Suc (cursor r)\<rparr>) in (r', row # rows, x)))
      else (clear_res r, [], Inr SUnspec))"
  by pat_completeness auto
termination by (relation "measure (\<lambda>(E, f, r). tuples r - cursor r)") auto

declare each_loop.simps [simp del]

definition pg_each_row :: "penv \<Rightarrow> (scm \<Rightarrow> scm res) \<Rightarrow> pg_res \<Rightarrow> pg_res \<times> scm list \<times> scm res" where
  "pg_each_row E f r = each_loop E f r"

function map_loop :: "penv \<Rightarrow> (scm \<Rightarrow> scm res) option \<Rightarrow> pg_res \<Rightarrow> scm list \<Rightarrow> pg_res \<times> scm res" where
  "map_loop E f r bag =
     (if cursor r < tuples r then
        case bindR (build_row E r) (\<lambda>row. case f of None \<Rightarrow> Inr row | Some g \<Rightarrow> g row) of
          Inl e \<Rightarrow> (r, Inl e)
        | Inr v \<Rightarrow> map_loop E f (r\<lparr>cursor := Suc (cursor r)\<rparr>) (v # bag)
      else (clear_res r, Inr (scm_of_list (rev bag))))"
  by pat_completeness auto
termination by (relation "measure (\<lambda>(E, f, r, bag). tuples r - cursor r)") auto

declare map_loop.simps [simp del]

definition pg_map_rows :: "penv \<Rightarrow> (scm \<Rightarrow> scm res) option \<Rightarrow> pg_res \<Rightarrow> pg_res \<times> scm res" where
  "pg_map_rows E f r = map_loop E f r []"

definition pg_one_row :: "penv \<Rightarrow> pg_conn \<Rightarrow> scm \<Rightarrow> (pg_res \<times> scm) res" where
  "pg_one_row E c query =
     bindR (pg_exec E c query) (\<lambda>r.
     bindR (if cursor r < tuples r then build_row E r else Inr (SBool False)) (\<lambda>row. Inr (clear_res r, row)))"

definition pg_done :: "pg_res \<Rightarrow> scm" where
  "pg_done r = SBool (res r = None)"

definition pg_clear :: "pg_res \<Rightarrow> pg_res" where
  "pg_clear r = (if res r \<noteq> None then clear_res r else r)"

definition pg_fields :: "pg_res \<Rightarrow> scm" where
  "pg_fields r = scm_of_list (map SSym (fnames r))"

definition pg_tuples :: "pg_res \<Rightarrow> scm" where
  "pg_tuples r = SInt (int (tuples r))"

definition pg_cmd_tuples :: "pg_res \<Rightarrow> scm" where
  "pg_cmd_tuples r = SInt (cmd_tuples r)"

text \<open>The collector's call when the object is no longer reachable.\<close>

definition free_pg_res :: "pg_res \<Rightarrow> pg_res" where
  "free_pg_res r = (if res r \<noteq> None then r\<lparr>freed := freed r + 1\<rparr> else r)"

definition pg_cell :: "scm \<Rightarrow> string \<Rightarrow> scm" where
  "pg_cell row col_key = scm_assq_ref row col_key"

section \<open>Formatting for SQL\<close>

definition format_literal :: "penv \<Rightarrow> pg_conn option \<Rightarrow> string \<Rightarrow> scm res" where
  "format_literal E conn s =
     (if s = [] then Inr (SStr ''NULL'')
      else bindR (scm_to_cstring (SStr s)) (\<lambda>src.
        case conn of
          None \<Rightarrow> Inl wrong_type
        | Some c \<Rightarrow> (case PQescapeLiteral (p_pq E) (conn_open c) src of
                       None \<Rightarrow> Inl NullDeref
                     | Some sql \<Rightarrow> Inr (SStr sql))))"

definition pg_format_sql :: "penv \<Rightarrow> pg_conn option \<Rightarrow> scm \<Rightarrow> scm res" where
  "pg_format_sql E conn obj =
     (case obj of
        SSmob tag i \<Rightarrow>
          if tag = ''timestamp'' then format_time (p_clib E) (p_time E i) (SStr ([CHR 0x27] @ ''%Y-%m-%d %H:%M:%S'' @ [CHR 0x27]))
          else Inr (SStr ''NULL'')
      | SBool b \<Rightarrow> Inr (SStr (if b then [CHR 0x27, CHR ''t'', CHR 0x27] else [CHR 0x27, CHR ''f'', CHR 0x27]))
      | SInt n \<Rightarrow> Inr (SStr (dec n))
      | SReal x \<Rightarrow> Inr (SStr (p_num E x))
      | SSym s \<Rightarrow> format_literal E conn s
      | SStr s \<Rightarrow> format_literal E conn s
      | _ \<Rightarrow> Inr (SStr ''NULL''))"

section \<open>Lemmas on the cursor\<close>

text \<open>Row number \<open>k\<close> of a result, and the assumption that every row can be decoded.\<close>

definition row_at :: "penv \<Rightarrow> pg_res \<Rightarrow> nat \<Rightarrow> scm" where
  "row_at E r k = (case build_row E (r\<lparr>cursor := k\<rparr>) of Inr v \<Rightarrow> v | Inl _ \<Rightarrow> SUnspec)"

definition decodable :: "penv \<Rightarrow> pg_res \<Rightarrow> bool" where
  "decodable E r \<longleftrightarrow> (\<forall>k < tuples r. \<exists>v. build_row E (r\<lparr>cursor := k\<rparr>) = Inr v)"

lemma decodable_row: "decodable E r \<Longrightarrow> cursor r < tuples r \<Longrightarrow> build_row E r = Inr (row_at E r (cursor r))"
  unfolding decodable_def row_at_def by (drule spec [of _ "cursor r"]) auto

lemma decodable_cursor [simp]: "decodable E (r\<lparr>cursor := k\<rparr>) = decodable E r"
  by (simp add: decodable_def)

lemma row_at_cursor [simp]: "row_at E (r\<lparr>cursor := k\<rparr>) j = row_at E r j"
  by (simp add: row_at_def)

definition at_end :: "pg_res \<Rightarrow> pg_res" where
  "at_end r = clear_res (r\<lparr>cursor := max (cursor r) (tuples r)\<rparr>)"

lemma at_end_step: "cursor r < tuples r \<Longrightarrow> at_end (r\<lparr>cursor := Suc (cursor r)\<rparr>) = at_end r"
  by (simp add: at_end_def)

lemma at_end_done: "\<not> cursor r < tuples r \<Longrightarrow> clear_res r = at_end r"
  by (simp add: at_end_def max_def)

lemma upt_step: "i < n \<Longrightarrow> map g [i..<n] = g i # map g [Suc i..<n]"
  by (simp add: upt_conv_Cons)

text \<open>Calling \<open>pg_next_row\<close> until it returns false.\<close>

function next_all :: "penv \<Rightarrow> pg_res \<Rightarrow> pg_res \<times> scm list res" where
  "next_all E r =
     (if cursor r < tuples r then
        case pg_next_row E r of
          (r', Inl e) \<Rightarrow> (r', Inl e)
        | (r', Inr row) \<Rightarrow>
            if tuples r' - cursor r' < tuples r - cursor r
            then (case next_all E r' of (r2, x) \<Rightarrow> (r2, bindR x (\<lambda>rows. Inr (row # rows))))
            else (r', Inr [row])
      else (case pg_next_row E r of (r', _) \<Rightarrow> (r', Inr [])))"
  by pat_completeness auto
termination by (relation "measure (\<lambda>(E, r). tuples r - cursor r)") auto

declare next_all.simps [simp del]

lemma next_all_rows:
  "decodable E r \<Longrightarrow> next_all E r = (at_end r, Inr (map (row_at E r) [cursor r..<tuples r]))"
proof (induction E r rule: next_all.induct)
  case (1 E r)
  show ?case
  proof (cases "cursor r < tuples r")
    case True
    let ?r = "r\<lparr>cursor := Suc (cursor r)\<rparr>"
    have n: "pg_next_row E r = (?r, Inr (row_at E r (cursor r)))"
      using True decodable_row [OF 1(2)] by (simp add: pg_next_row_def)
    have d: "tuples ?r - cursor ?r < tuples r - cursor r" using True by simp
    have "next_all E ?r = (at_end ?r, Inr (map (row_at E ?r) [cursor ?r..<tuples ?r]))"
      by (rule 1(1) [OF True n [symmetric] refl d]) (use 1(2) in simp)
    then show ?thesis
      using True n d at_end_step [OF True] by (subst next_all.simps) (simp add: upt_step comp_def)
  next
    case False
    then show ?thesis by (subst next_all.simps) (simp add: pg_next_row_def at_end_done)
  qed
qed

lemma map_loop_rows:
  "decodable E r \<Longrightarrow>
   map_loop E None r bag = (at_end r, Inr (scm_of_list (rev bag @ map (row_at E r) [cursor r..<tuples r])))"
proof (induction E "None :: (scm \<Rightarrow> scm res) option" r bag rule: map_loop.induct)
  case (1 E r bag)
  show ?case
  proof (cases "cursor r < tuples r")
    case True
    then show ?thesis
      using 1(1) [OF True] decodable_row [OF 1(2) True] 1(2) at_end_step [OF True]
      by (subst map_loop.simps) (simp add: upt_step comp_def)
  next
    case False
    then show ?thesis by (subst map_loop.simps) (simp add: at_end_done)
  qed
qed

lemma each_loop_rows:
  "\<lbrakk>decodable E r; \<And>v. \<exists>w. f v = Inr w\<rbrakk> \<Longrightarrow>
   each_loop E f r = (at_end r, map (row_at E r) [cursor r..<tuples r], Inr SUnspec)"
proof (induction E f r rule: each_loop.induct)
  case (1 E f r)
  show ?case
  proof (cases "cursor r < tuples r")
    case True
    obtain w where w: "f (row_at E r (cursor r)) = Inr w" using 1(3) by blast
    have b: "build_row E r = Inr (row_at E r (cursor r))" by (rule decodable_row [OF 1(2) True])
    have "each_loop E f (r\<lparr>cursor := Suc (cursor r)\<rparr>) =
        (at_end r, map (row_at E r) [Suc (cursor r)..<tuples r], Inr SUnspec)"
      using 1(1) [OF True b w] 1(2,3) at_end_step [OF True] by simp
    then show ?thesis using True b w by (subst each_loop.simps) (simp add: upt_step)
  next
    case False
    then show ?thesis by (subst each_loop.simps) (simp add: at_end_done)
  qed
qed

section \<open>Lemmas on time stamps\<close>

lemma after_hit: "after c (c # r) = Inr r"
  by (simp add: after_def)

lemma after_skip: "c \<noteq> x \<Longrightarrow> after c (x # r) = after c r"
  by (simp add: after_def split: option.splits)

lemma after_dec2:
  assumes "n < 100" "\<not> isdigit c"
  shows "after c (dec2 n @ r) = after c r"
proof -
  have "isdigit (dig (n div 10))" "isdigit (dig (n mod 10))" using assms(1) by auto
  then have "c \<noteq> dig (n div 10)" "c \<noteq> dig (n mod 10)" using assms(2) by auto
  then show ?thesis by (simp add: dec2_def after_skip)
qed

lemma atoi_dec2_stop: "n < 100 \<Longrightarrow> r = [] \<or> \<not> isdigit (hd r) \<Longrightarrow> atoi (dec2 n @ r) = int n"
proof -
  assume n: "n < 100" "r = [] \<or> \<not> isdigit (hd r)"
  have "digits_val 0 (dec2 n @ r) = int n" using digits_val_dec2 [OF n(1)] digits_val_stop [OF n(2)] by simp
  moreover have "isdigit (dig (n div 10))" using n by auto
  ultimately show ?thesis
    using n atoi_digits(1) [of "dig (n div 10)" "dig (n mod 10) # r" "int n"] by (simp add: dec2_def del: digits_val.simps)
qed

lemma atoi_dec4_stop: "n < 10000 \<Longrightarrow> r = [] \<or> \<not> isdigit (hd r) \<Longrightarrow> atoi (dec4 n @ r) = int n"
proof -
  assume n: "n < 10000" "r = [] \<or> \<not> isdigit (hd r)"
  then have "n div 100 < 100" "n mod 100 < 100" by linarith+
  then have "digits_val 0 (dec4 n @ r) = 100 * int (n div 100) + int (n mod 100)"
    using digits_val_stop [OF n(2)] by (simp add: dec4_def digits_val_dec2 del: of_nat_mod of_nat_div)
  also have "\<dots> = int n" by presburger
  finally have "digits_val 0 (dec4 n @ r) = int n" .
  moreover have "isdigit (dig (n div 100 div 10))" using n by (intro isdigit_dig) linarith
  ultimately show ?thesis
    using n atoi_digits(1) [of "dig (n div 100 div 10)" _ "int n"] by (simp add: dec4_def dec2_def del: digits_val.simps)
qed

section \<open>Lemmas on freeing\<close>

text \<open>The operations of an application on one result.\<close>

datatype pg_op = GetRow | NextRow | EachRow "scm \<Rightarrow> scm res" | MapRows "(scm \<Rightarrow> scm res) option" | ClearRes

fun run_op :: "penv \<Rightarrow> pg_op \<Rightarrow> pg_res \<Rightarrow> pg_res" where
  "run_op E GetRow r = fst (pg_get_row E r)"
| "run_op E NextRow r = fst (pg_next_row E r)"
| "run_op E (EachRow f) r = fst (pg_each_row E f r)"
| "run_op E (MapRows f) r = fst (pg_map_rows E f r)"
| "run_op E ClearRes r = pg_clear r"

definition live :: "pg_res \<Rightarrow> nat" where
  "live r = freed r + (if res r = None then 0 else 1)"

lemma live_clear [simp]: "live (clear_res r) = live r"
  by (simp add: live_def clear_res_def)

lemma live_cursor [simp]: "live (r\<lparr>cursor := k\<rparr>) = live r"
  by (simp add: live_def)

lemma live_each: "live (fst (each_loop E f r)) = live r"
proof (induction E f r rule: each_loop.induct)
  case (1 E f r)
  then show ?case
    by (subst each_loop.simps) (auto simp: split_beta Let_def split: sum.splits)
qed

lemma live_map: "live (fst (map_loop E f r bag)) = live r"
proof (induction E f r bag rule: map_loop.induct)
  case (1 E f r bag)
  then show ?case by (subst map_loop.simps) (auto split: sum.splits)
qed

lemma live_run_op: "live (run_op E p r) = live r"
  by (cases p) (auto simp: pg_get_row_def pg_next_row_def pg_each_row_def pg_map_rows_def pg_clear_def live_each live_map
      split: sum.splits)

text \<open>However often it is closed, a connection that was made is finished exactly once when it is collected.\<close>

lemma closed_finished: "\<not> conn_open c \<Longrightarrow> (pg_close ^^ n) c = c"
  by (induction n) (simp_all add: pg_close_def)

lemma connection_finished_once:
  assumes "pg_open_primitive connect info = Inr c"
  shows "finished (free_pg_conn ((pg_close ^^ n) c)) = 1"
proof -
  obtain b where c: "c = \<lparr>conn_open = b, finished = (if b then 0 else 1)\<rparr>"
    using assms by (auto simp: pg_open_primitive_def bindR_eq_Inr)
  show ?thesis
  proof (cases "b \<and> n \<noteq> 0")
    case True
    then obtain m where n: "n = Suc m" by (cases n) auto
    have "(pg_close ^^ n) c = pg_close c"
      unfolding n funpow_Suc_right comp_def by (rule closed_finished) (simp add: pg_close_def)
    then show ?thesis using c True by (simp add: pg_close_def free_pg_conn_def)
  next
    case False
    then show ?thesis using c closed_finished [of c n] by (auto simp: free_pg_conn_def)
  qed
qed

section \<open>Properties\<close>

text \<open>
  C33: The three ways to read a result agree: \<open>pg-next-row\<close> until it returns false, \<open>pg-map-rows\<close> and
  \<open>pg-each-row\<close> all deliver the rows from the cursor on, each once and in order, and leave the
  result at its end and freed.
\<close>

theorem row_readers_agree:
  assumes "decodable E r" "\<And>v. \<exists>w. f v = Inr w"
  shows "next_all E r = (at_end r, Inr (map (row_at E r) [cursor r..<tuples r])) \<and>
    pg_map_rows E None r = (at_end r, Inr (scm_of_list (map (row_at E r) [cursor r..<tuples r]))) \<and>
    pg_each_row E f r = (at_end r, map (row_at E r) [cursor r..<tuples r], Inr SUnspec)"
  using next_all_rows [OF assms(1)] map_loop_rows [OF assms(1), of "[]"] each_loop_rows [OF assms]
  by (simp add: pg_map_rows_def pg_each_row_def)

definition demo_penv :: penv where
  "demo_penv =
     \<lparr>p_pq = \<lparr>PQexec = (\<lambda>_ _. Some 0), PQnfields = (\<lambda>_. 1), PQntuples = (\<lambda>_. 2), PQcmdTuples = (\<lambda>_. []),
         PQresultStatus = (\<lambda>_. 2), PQresultErrorMessage = (\<lambda>_. []), PQfname = (\<lambda>_ _. ''name''), PQftype = (\<lambda>_ _. 25),
         PQgetisnull = (\<lambda>_ _ _. False), PQgetvalue = (\<lambda>_ k _. if k = 0 then ''ann'' else ''bob''),
         PQescapeLiteral = (\<lambda>_ s. Some s)\<rparr>,
      p_clib = utc_clib, p_atof = (\<lambda>_. Fin 0), p_num = (\<lambda>_. []), p_smob = (\<lambda>_. SUnspec), p_time = (\<lambda>_. None)\<rparr>"

definition demo_res :: pg_res where
  "demo_res = \<lparr>res = Some 0, cursor = 0, nfields = 1, tuples = 2, cmd_tuples = 0, status = 2, ftypes = [25], fnames = [''name''], freed = 0\<rparr>"

lemma demo_rows:
  "build_row demo_penv (demo_res\<lparr>cursor := k\<rparr>) =
     Inr (scm_of_alist [(''name'', SStr (if k = 0 then ''ann'' else ''bob''))])"
  by (simp add: build_row_def demo_penv_def demo_res_def numeral_nat scm_to_int_def pg_decode_def acons_def)

theorem row_readers_agree_witness:
  "pg_map_rows demo_penv None demo_res =
     (at_end demo_res, Inr (scm_of_list [scm_of_alist [(''name'', SStr ''ann'')], scm_of_alist [(''name'', SStr ''bob'')]]))"
proof -
  have "decodable demo_penv demo_res" by (simp add: decodable_def demo_rows)
  moreover have "map (row_at demo_penv demo_res) [cursor demo_res..<tuples demo_res] =
      [scm_of_alist [(''name'', SStr ''ann'')], scm_of_alist [(''name'', SStr ''bob'')]]"
    unfolding row_at_def demo_rows by (simp add: demo_res_def upt_rec)
  ultimately show ?thesis
    using row_readers_agree [of demo_penv demo_res "\<lambda>v. Inr v"] by simp
qed

text \<open>
  C34: Whatever an application does with a result, libpq's memory behind it is freed exactly once when
  the object is collected.
\<close>

theorem result_freed_once:
  assumes "pg_exec E c query = Inr r" "res r = Some p"
  shows "freed (free_pg_res (fold (run_op E) ops r)) = 1"
proof -
  have "live (fold (run_op E) ops s) = live s" for s
    by (induction ops arbitrary: s) (auto simp: live_run_op)
  moreover have "live r = 1" using assms by (auto simp: pg_exec_def bindR_eq_Inr Let_def live_def)
  ultimately have "live (fold (run_op E) ops r) = 1" by simp
  then show ?thesis by (auto simp: live_def free_pg_res_def split: if_splits)
qed

theorem result_freed_once_witness:
  "freed (free_pg_res (fold (run_op demo_penv) [NextRow, MapRows None, ClearRes, NextRow] demo_res)) = 1"
proof -
  have "pg_exec demo_penv \<lparr>conn_open = True, finished = 0\<rparr> (SStr ''q'') = Inr demo_res"
    by (simp add: pg_exec_def demo_penv_def demo_res_def atoi_def strtol10_def)
  then show ?thesis by (rule result_freed_once [of _ _ _ _ 0]) (simp add: demo_res_def)
qed

text \<open>
  The text of a time stamp column is taken apart into its fields: the stamp is the local time of
  year, month, day, hour, minute and the number after the last colon.
\<close>

theorem timestamp_text_decoded:
  assumes "ok_fields y mo d h mi s" "p_atof E (dec2 s @ tail) = Fin sec"
  shows "decode_timestamp E (dec4 y @ ''-'' @ dec2 mo @ ''-'' @ dec2 d @ '' '' @ dec2 h @ '':'' @ dec2 mi @ '':'' @ dec2 s @ tail) =
    Inr (local_time_intern (p_clib E) (int y) (int mo) (int d) (int h) (int mi) sec)"
proof -
  let ?h5 = "dec2 s @ tail"
  let ?h4 = "dec2 mi @ '':'' @ ?h5"
  let ?h3 = "dec2 h @ '':'' @ ?h4"
  let ?h2 = "dec2 d @ '' '' @ ?h3"
  let ?h1 = "dec2 mo @ ''-'' @ ?h2"
  let ?s = "dec4 y @ ''-'' @ ?h1"
  note f = assms(1) [unfolded ok_fields_def]
  have y: "y div 100 < 100" "y mod 100 < 100" using f by linarith+
  have a: "after (CHR ''-'') ?s = Inr ?h1" "after (CHR ''-'') ?h1 = Inr ?h2" "after (CHR '' '') ?h2 = Inr ?h3"
      "after (CHR '':'') ?h3 = Inr ?h4" "after (CHR '':'') ?h4 = Inr ?h5"
    using f y by (simp_all add: dec4_def after_dec2 after_hit isdigit_def code_def)
  have n: "atoi ?s = int y" "atoi ?h1 = int mo" "atoi ?h2 = int d" "atoi ?h3 = int h" "atoi ?h4 = int mi"
    using f by (simp_all add: atoi_dec2_stop atoi_dec4_stop isdigit_def code_def)
  have "index_of (CHR '':'') ?h2 \<noteq> None" by (auto simp: index_of_None)
  then show ?thesis using a n assms(2) by (auto simp: decode_timestamp_def on_finite_def)
qed

theorem timestamp_text_decoded_witness:
  "decode_timestamp demo_penv (dec4 2013 @ ''-'' @ dec2 5 @ ''-'' @ dec2 17 @ '' '' @ dec2 10 @ '':'' @ dec2 30 @ '':'' @ dec2 15 @ []) =
   Inr (local_time_intern utc_clib 2013 5 17 10 30 0)"
proof -
  have "ok_fields 2013 5 17 10 30 15" by code_simp
  then show ?thesis
    using timestamp_text_decoded [of 2013 5 17 10 30 15 demo_penv "[]" 0] by (simp add: demo_penv_def)
qed

text \<open>
  An integer column is decoded exactly when the value fits 32 bits, though the column type 20 has
  64; a time stamp without two dashes, \<open>infinity\<close> for one, is a null pointer.
\<close>

theorem column_decoding_edges:
  "(pg_decode E (dec n) 20 = Inr (SInt n) \<longleftrightarrow> n \<in> {- (2 ^ 31) ..< 2 ^ 31}) \<and>
   pg_decode E ''infinity'' 1114 = Inl NullDeref"
proof -
  have "atoi (dec n) = n \<longleftrightarrow> n \<in> {- (2 ^ 31) ..< 2 ^ 31}"
    using atoi_dec [of n] atoi_range [of "dec n"] by auto
  then show ?thesis by (simp add: pg_decode_def decode_timestamp_def after_def)
qed

end
