(* ===== verification/Messaging.thy ===== *)
theory Messaging
  imports Json Butter
begin

text \<open>
  Publishing and subscribing between server processes (\<open>messaging.c\<close>). A process sends what it
  publishes to the relay, the process that managed to bind the relay port; the relay hands each
  message to its publisher socket and back to the sender as a reply. While a request of a
  process is unanswered, further sends fail; those messages are queued and sent again one by
  one when replies arrive.

  ZeroMQ is outside: the result of \<open>zmq_send\<close> on the request socket is the argument \<open>rc\<close>, whether binding
  succeeds is an argument of \<open>init_messaging\<close>, and the messages that arrive are arguments. What is sent
  is recorded in \<open>ms_sent\<close>, the calls of responders in \<open>ms_calls\<close>. Operations return the new state and a
  value or an exception; \<open>None\<close> means that the call blocks on \<open>relay_mutex\<close>, which another thread
  holds. A thread that locks the mutex twice gets an exception, as Guile documents it. Arrays have
  their size, and an index outside is \<open>BadAccess\<close>.
\<close>

section \<open>State\<close>

abbreviation MAX_KEY_LEN :: nat where "MAX_KEY_LEN \<equiv> 128"

abbreviation MAX_POLL_ITEMS :: nat where "MAX_POLL_ITEMS \<equiv> 256"

datatype sock = PubSock | RelaySock | ClientSock | SubSock nat

record sock_node =
  msg_sock :: sock
  nd_poll :: bool
  nd_responder :: scm
  nd_filter :: string

record messaging =
  ms_ctx :: bool
  publisher :: "sock option"
  relay :: "sock option"
  rclient :: "sock option"
  msg_queue :: "(scm \<times> scm) list"
  relay_owner :: "nat option"
  sock_nodes :: "sock_node list"
  responders :: "sock_node option list"
  poll_dirty :: bool
  poll_items :: nat
  ms_nsocks :: nat
  ms_sent :: "(sock \<times> string) list"
  ms_calls :: "(scm \<times> scm) list"

definition touch_msg :: scm where
  "touch_msg = SCons (SCons (SSym ''touch'') (SStr ''touch'')) SEol"

text \<open>The relay is bound only by the process that bound the publisher.\<close>

definition init_messaging :: "bool \<Rightarrow> bool \<Rightarrow> messaging" where
  "init_messaging bind_pub bind_relay =
     \<lparr>ms_ctx = True, publisher = (if bind_pub then Some PubSock else None),
      relay = (if bind_pub \<and> bind_relay then Some RelaySock else None), rclient = Some ClientSock,
      msg_queue = [], relay_owner = None, sock_nodes = [], responders = replicate MAX_POLL_ITEMS None,
      poll_dirty = True, poll_items = 0, ms_nsocks = 0, ms_sent = [], ms_calls = []\<rparr>"

type_synonym outcome = "(messaging \<times> scm res) option"

definition lock_relay :: "nat \<Rightarrow> messaging \<Rightarrow> outcome" where
  "lock_relay t m =
     (case relay_owner m of
        None \<Rightarrow> Some (m\<lparr>relay_owner := Some t\<rparr>, Inr SUnspec)
      | Some t' \<Rightarrow> if t' = t then Some (m, Inl misc_error) else None)"

text \<open>Sequencing: an exception ends the rest.\<close>

definition andthen :: "outcome \<Rightarrow> (messaging \<Rightarrow> scm \<Rightarrow> outcome) \<Rightarrow> outcome" where
  "andthen x f =
     (case x of None \<Rightarrow> None | Some (m, Inl e) \<Rightarrow> Some (m, Inl e) | Some (m, Inr v) \<Rightarrow> f m v)"

section \<open>Publishing\<close>

definition symbol_cstring :: "scm \<Rightarrow> string res" where
  "symbol_cstring v = (case v of SSym s \<Rightarrow> scm_to_cstring (SStr s) | _ \<Rightarrow> Inl wrong_type)"

text \<open>The encoded message: JSON, or the text of a value that has no encoding.\<close>

definition msg_payload :: "(json \<Rightarrow> string option) \<Rightarrow> (nat \<Rightarrow> string) \<Rightarrow> (real64 \<Rightarrow> string) \<Rightarrow> scm \<Rightarrow> string res" where
  "msg_payload dumps fmt num_s msg =
     bindR (json_encode dumps fmt msg) (\<lambda>enc.
       scm_to_cstring (if enc = SBool False then to_s num_s msg else enc))"

text \<open>\<open>sprintf\<close> into a buffer of \<open>strlen(payload) + MAX_KEY_LEN + 2\<close> bytes.\<close>

definition keyed_msg :: "string \<Rightarrow> string \<Rightarrow> string res" where
  "keyed_msg sname payload =
     (let s = sname @ '':'' @ payload
      in if length s + 1 \<le> length payload + MAX_KEY_LEN + 2 then Inr s else Inl BadAccess)"

definition queue_msg :: "nat \<Rightarrow> scm \<Rightarrow> scm \<Rightarrow> messaging \<Rightarrow> outcome" where
  "queue_msg t sigkey msg m =
     andthen (lock_relay t m) (\<lambda>m1 _.
       Some (m1\<lparr>msg_queue := (sigkey, msg) # msg_queue m1, relay_owner := None\<rparr>, Inr (SBool False)))"

definition msg_publish ::
    "(json \<Rightarrow> string option) \<Rightarrow> (nat \<Rightarrow> string) \<Rightarrow> (real64 \<Rightarrow> string) \<Rightarrow> nat \<Rightarrow> int \<Rightarrow> scm \<Rightarrow> scm option \<Rightarrow> messaging \<Rightarrow> outcome" where
  "msg_publish dumps fmt num_s t rc sigkey arg m =
     (let msg = (case arg of None \<Rightarrow> touch_msg | Some v \<Rightarrow> v) in
      case bindR (msg_payload dumps fmt num_s msg) (\<lambda>payload.
             bindR (symbol_cstring sigkey) (\<lambda>sname. keyed_msg sname payload)) of
        Inl e \<Rightarrow> Some (m, Inl e)
      | Inr s \<Rightarrow>
          if rc < 0 then queue_msg t sigkey msg m
          else Some (m\<lparr>ms_sent := ms_sent m @ [(ClientSock, s)]\<rparr>, Inr (SBool True)))"

section \<open>Subscribing\<close>

text \<open>\<open>snprintf\<close> keeps what fits; the filter is what \<open>zmq_setsockopt\<close> is given.\<close>

definition filter_key :: "string \<Rightarrow> string" where
  "filter_key sname = take (MAX_KEY_LEN - 1) (sname @ '':'')"

definition msg_subscribe :: "scm \<Rightarrow> scm \<Rightarrow> messaging \<Rightarrow> messaging \<times> scm res" where
  "msg_subscribe sigkey responder m =
     (let m1 = m\<lparr>ms_nsocks := Suc (ms_nsocks m)\<rparr> in
      case symbol_cstring sigkey of
        Inl e \<Rightarrow> (m1, Inl e)
      | Inr sname \<Rightarrow>
          (m1\<lparr>sock_nodes := \<lparr>msg_sock = SubSock (ms_nsocks m), nd_poll = True, nd_responder = responder,
                             nd_filter = filter_key sname\<rparr> # sock_nodes m1,
              poll_dirty := True\<rparr>, Inr SUnspec))"

section \<open>Messages that arrive\<close>

definition relay_to_publisher :: "string \<Rightarrow> messaging \<Rightarrow> messaging" where
  "relay_to_publisher msg m = m\<lparr>ms_sent := ms_sent m @ [(PubSock, msg), (RelaySock, msg)]\<rparr>"

definition recv_relay_reply ::
    "(json \<Rightarrow> string option) \<Rightarrow> (nat \<Rightarrow> string) \<Rightarrow> (real64 \<Rightarrow> string) \<Rightarrow> nat \<Rightarrow> int \<Rightarrow> messaging \<Rightarrow> outcome" where
  "recv_relay_reply dumps fmt num_s t rc m =
     (case msg_queue m of
        [] \<Rightarrow> Some (m, Inr SUnspec)
      | (k, v) # rest \<Rightarrow>
          andthen (lock_relay t m) (\<lambda>m1 _.
          andthen (msg_publish dumps fmt num_s t rc k (Some v) (m1\<lparr>msg_queue := rest\<rparr>)) (\<lambda>m2 _.
            Some (m2\<lparr>relay_owner := None\<rparr>, Inr SUnspec))))"

text \<open>
  The data of a message have no NUL at their end, so that \<open>index\<close> can run past them. Where it finds
  a NUL and no colon, all the data count.
\<close>

definition msg_body :: "string \<Rightarrow> string res" where
  "msg_body msg =
     bindR (bindex (CHR '':'') msg 0) (\<lambda>r. Inr (case r of None \<Rightarrow> msg | Some i \<Rightarrow> drop (Suc i) msg))"

definition recv_subscribed_msg :: "(string \<Rightarrow> json option) \<Rightarrow> string \<Rightarrow> sock_node option \<Rightarrow> messaging \<Rightarrow> messaging \<times> scm res" where
  "recv_subscribed_msg loads msg nd m =
     (case bindR (msg_body msg) (\<lambda>body. json_decode loads (SStr body)) of
        Inl e \<Rightarrow> (m, Inl e)
      | Inr v \<Rightarrow>
          (case nd of
             None \<Rightarrow> (m, Inl NullDeref)
           | Some n \<Rightarrow> (m\<lparr>ms_calls := ms_calls m @ [(nd_responder n, v)]\<rparr>, Inr SUnspec)))"

section \<open>The poll set\<close>

record pollitem =
  pi_socket :: sock
  pi_fd :: nat
  pi_revents :: bool

text \<open>One entry of the poll set and of \<open>responders\<close>, at \<open>start\<close> and at \<open>poll_items\<close>.\<close>

definition add_poll :: "sock \<Rightarrow> sock_node option \<Rightarrow> nat \<times> pollitem list \<times> messaging \<Rightarrow> (nat \<times> pollitem list \<times> messaging) res" where
  "add_poll s nd = (\<lambda>(start, polls, m).
     if start < length polls \<and> poll_items m < length (responders m)
     then Inr (Suc start, polls[start := (polls ! start)\<lparr>pi_socket := s, pi_fd := poll_items m\<rparr>],
               m\<lparr>responders := (responders m)[poll_items m := nd], poll_items := Suc (poll_items m)\<rparr>)
     else Inl BadAccess)"

fun add_nodes :: "sock_node list \<Rightarrow> nat \<times> pollitem list \<times> messaging \<Rightarrow> (nat \<times> pollitem list \<times> messaging) res" where
  "add_nodes [] x = Inr x"
| "add_nodes (n # ns) x =
     bindR (if nd_poll n then add_poll (msg_sock n) (Some n) x else Inr x) (add_nodes ns)"

definition msg_poll_collect :: "nat \<Rightarrow> pollitem list \<Rightarrow> messaging \<Rightarrow> (nat \<times> pollitem list \<times> messaging) res" where
  "msg_poll_collect start polls m =
     (if \<not> poll_dirty m then Inr (start + poll_items m, polls, m)
      else
        bindR (case relay m of None \<Rightarrow> Inr (start, polls, m\<lparr>poll_items := 0\<rparr>)
               | Some s \<Rightarrow> add_poll s None (start, polls, m\<lparr>poll_items := 0\<rparr>)) (\<lambda>x1.
        bindR (case rclient m of None \<Rightarrow> Inr x1 | Some s \<Rightarrow> add_poll s None x1) (\<lambda>x2.
        bindR (add_nodes (sock_nodes m) x2) (\<lambda>(start', polls', m').
          Inr (start', polls', m'\<lparr>poll_dirty := False\<rparr>)))))"

text \<open>
  \<open>recv i\<close> is the message that \<open>zmq_msg_recv\<close> returns for entry \<open>i\<close>, or nothing when it fails, and
  \<open>rc i\<close> the result of sending again.
\<close>

definition process_item ::
    "(json \<Rightarrow> string option) \<Rightarrow> (string \<Rightarrow> json option) \<Rightarrow> (nat \<Rightarrow> string) \<Rightarrow> (real64 \<Rightarrow> string) \<Rightarrow> nat \<Rightarrow>
     (nat \<Rightarrow> string option) \<Rightarrow> (nat \<Rightarrow> int) \<Rightarrow> nat \<Rightarrow> pollitem list \<Rightarrow> nat \<Rightarrow> messaging \<Rightarrow> outcome" where
  "process_item dumps loads fmt num_s t recv rc start polls i m =
     (if \<not> i < length polls then Some (m, Inl BadAccess)
      else if \<not> pi_revents (polls ! i) then Some (m, Inr SUnspec)
      else
        case recv i of
          None \<Rightarrow> Some (m, Inr SUnspec)
        | Some msg \<Rightarrow>
            let s = Some (pi_socket (polls ! i)) in
            if s = relay m then Some (relay_to_publisher msg m, Inr SUnspec)
            else if s = rclient m then recv_relay_reply dumps fmt num_s t (rc i) m
            else if \<not> i - start < length (responders m) then Some (m, Inl BadAccess)
            else Some (recv_subscribed_msg loads msg (responders m ! (i - start)) m))"

fun process_loop ::
    "(json \<Rightarrow> string option) \<Rightarrow> (string \<Rightarrow> json option) \<Rightarrow> (nat \<Rightarrow> string) \<Rightarrow> (real64 \<Rightarrow> string) \<Rightarrow> nat \<Rightarrow>
     (nat \<Rightarrow> string option) \<Rightarrow> (nat \<Rightarrow> int) \<Rightarrow> nat \<Rightarrow> pollitem list \<Rightarrow> nat list \<Rightarrow> messaging \<Rightarrow> outcome" where
  "process_loop dumps loads fmt num_s t recv rc start polls [] m = Some (m, Inr SUnspec)"
| "process_loop dumps loads fmt num_s t recv rc start polls (i # is) m =
     andthen (process_item dumps loads fmt num_s t recv rc start polls i m)
       (\<lambda>m1 _. process_loop dumps loads fmt num_s t recv rc start polls is m1)"

definition msg_process ::
    "(json \<Rightarrow> string option) \<Rightarrow> (string \<Rightarrow> json option) \<Rightarrow> (nat \<Rightarrow> string) \<Rightarrow> (real64 \<Rightarrow> string) \<Rightarrow> nat \<Rightarrow>
     (nat \<Rightarrow> string option) \<Rightarrow> (nat \<Rightarrow> int) \<Rightarrow> nat \<Rightarrow> nat \<Rightarrow> pollitem list \<Rightarrow> messaging \<Rightarrow> outcome" where
  "msg_process dumps loads fmt num_s t recv rc start finish polls m =
     process_loop dumps loads fmt num_s t recv rc start polls [start..<finish] m"

section \<open>The end\<close>

definition shutdown_messaging :: "messaging \<Rightarrow> messaging" where
  "shutdown_messaging m =
     (if ms_ctx m then m\<lparr>publisher := None, relay := None, rclient := None, sock_nodes := [], ms_ctx := False\<rparr> else m)"

section \<open>The text of a message\<close>

lemma msg_body_keyed: "CHR '':'' \<notin> set k \<Longrightarrow> NUL \<notin> set k \<Longrightarrow> msg_body (k @ '':'' @ body) = Inr body"
  using bindex_line [of "CHR '':''" k "[]" body] by (simp add: msg_body_def)

lemma prefix_keyed:
  assumes "CHR '':'' \<notin> set k" "CHR '':'' \<notin> set k'"
  shows "prefix (k' @ '':'') (k @ '':'' @ body) \<longleftrightarrow> k' = k"
proof
  assume "prefix (k' @ '':'') (k @ '':'' @ body)"
  then obtain zs where "k @ '':'' @ body = k' @ '':'' @ zs" by (auto simp: prefix_def)
  then have "takeWhile (\<lambda>c. c \<noteq> CHR '':'') (k @ '':'' @ body) = takeWhile (\<lambda>c. c \<noteq> CHR '':'') (k' @ '':'' @ zs)" by simp
  moreover have "takeWhile (\<lambda>c. c \<noteq> CHR '':'') (x @ '':'' @ y) = x" if "CHR '':'' \<notin> set x" for x y
    using that by (subst takeWhile_append2) auto
  ultimately show "k' = k" using assms by metis
qed (simp add: prefix_def)

lemma filter_key_whole: "length k < MAX_KEY_LEN - 1 \<Longrightarrow> filter_key k = k @ '':''"
  by (simp add: filter_key_def)

lemma payload_of_json:
  assumes "valid_json j" "dumps (mirror j) = Some s" "NUL \<notin> set s"
  shows "msg_payload dumps fmt num_s (parse j) = Inr s"
  using assms build_parse [of j fmt] by (simp add: msg_payload_def json_encode_def)

section \<open>The poll set\<close>

text \<open>What is to be polled: the relay, the request socket and the subscriptions.\<close>

definition poll_list :: "messaging \<Rightarrow> (sock \<times> sock_node option) list" where
  "poll_list m =
     (case relay m of None \<Rightarrow> [] | Some s \<Rightarrow> [(s, None)]) @
     (case rclient m of None \<Rightarrow> [] | Some s \<Rightarrow> [(s, None)]) @
     map (\<lambda>n. (msg_sock n, Some n)) (filter nd_poll (sock_nodes m))"

fun add_list :: "(sock \<times> sock_node option) list \<Rightarrow> nat \<times> pollitem list \<times> messaging \<Rightarrow> (nat \<times> pollitem list \<times> messaging) res" where
  "add_list [] x = Inr x"
| "add_list ((s, nd) # l) x = bindR (add_poll s nd x) (add_list l)"

lemma add_list_append: "add_list (l @ l') x = bindR (add_list l x) (add_list l')"
  by (induction l arbitrary: x) (auto simp: bindR_assoc intro!: bindR_cong)

lemma add_nodes_list: "add_nodes ns x = add_list (map (\<lambda>n. (msg_sock n, Some n)) (filter nd_poll ns)) x"
  by (induction ns arbitrary: x) (auto intro!: bindR_cong)

lemma collect_as_list:
  "poll_dirty m \<Longrightarrow> msg_poll_collect start polls m =
     bindR (add_list (poll_list m) (start, polls, m\<lparr>poll_items := 0\<rparr>)) (\<lambda>(start', polls', m').
       Inr (start', polls', m'\<lparr>poll_dirty := False\<rparr>))"
  by (simp add: msg_poll_collect_def poll_list_def add_list_append add_nodes_list bindR_assoc split: option.splits)

definition entries_at :: "(sock \<times> sock_node option) list \<Rightarrow> nat \<Rightarrow> nat \<Rightarrow> pollitem list \<Rightarrow> messaging \<Rightarrow> bool" where
  "entries_at l start first polls m \<longleftrightarrow>
     (\<forall>k < length l. pi_socket (polls ! (start + k)) = fst (l ! k) \<and> responders m ! (first + k) = snd (l ! k))"

lemma add_list_ok:
  "\<lbrakk>start + length l \<le> length polls; poll_items m + length l \<le> length (responders m)\<rbrakk> \<Longrightarrow>
   \<exists>polls' rs. add_list l (start, polls, m) =
       Inr (start + length l, polls', m\<lparr>responders := rs, poll_items := poll_items m + length l\<rparr>) \<and>
     length polls' = length polls \<and> length rs = length (responders m) \<and>
     entries_at l start (poll_items m) polls' (m\<lparr>responders := rs\<rparr>) \<and>
     (\<forall>i. i < start \<longrightarrow> polls' ! i = polls ! i) \<and> (\<forall>i < poll_items m. rs ! i = responders m ! i)"
proof (induction l arbitrary: start polls m)
  case Nil
  then show ?case by (intro exI [of _ polls] exI [of _ "responders m"]) (simp add: entries_at_def)
next
  case (Cons x l)
  obtain s nd where x: "x = (s, nd)" by (cases x)
  let ?p = "polls[start := (polls ! start)\<lparr>pi_socket := s, pi_fd := poll_items m\<rparr>]"
  let ?m = "m\<lparr>responders := (responders m)[poll_items m := nd], poll_items := Suc (poll_items m)\<rparr>"
  have a: "add_poll s nd (start, polls, m) = Inr (Suc start, ?p, ?m)" using Cons.prems by (simp add: add_poll_def)
  obtain polls' rs where p: "add_list l (Suc start, ?p, ?m) =
      Inr (Suc start + length l, polls', ?m\<lparr>responders := rs, poll_items := Suc (poll_items m) + length l\<rparr>)"
    "length polls' = length polls" "length rs = length (responders m)"
    "entries_at l (Suc start) (Suc (poll_items m)) polls' (?m\<lparr>responders := rs\<rparr>)"
    "\<forall>i. i < Suc start \<longrightarrow> polls' ! i = ?p ! i"
    "\<forall>i < Suc (poll_items m). rs ! i = (responders m)[poll_items m := nd] ! i"
    using Cons.IH [of "Suc start" ?p ?m] Cons.prems by fastforce
  have "pi_socket (polls' ! (start + k)) = fst ((x # l) ! k) \<and> rs ! (poll_items m + k) = snd ((x # l) ! k)"
    if "k < Suc (length l)" for k
  proof (cases k)
    case 0
    then show ?thesis using p(5,6) x Cons.prems by simp
  next
    case (Suc j)
    then show ?thesis using p(4) that by (simp add: entries_at_def)
  qed
  then have e: "entries_at (x # l) start (poll_items m) polls' (m\<lparr>responders := rs\<rparr>)" by (simp add: entries_at_def)
  have "\<forall>i < poll_items m. rs ! i = responders m ! i" using p(6) by simp
  moreover have "\<forall>i. i < start \<longrightarrow> polls' ! i = polls ! i" using p(5) by simp
  ultimately show ?case
    using a p(1-3) e x by (intro exI [of _ polls'] exI [of _ rs]) simp
qed

lemma add_list_over:
  "length polls < start + length l \<or> length (responders m) < poll_items m + length l \<Longrightarrow>
   start \<le> length polls \<Longrightarrow> poll_items m \<le> length (responders m) \<Longrightarrow> add_list l (start, polls, m) = Inl BadAccess"
proof (induction l arbitrary: start polls m)
  case (Cons x l)
  obtain s nd where "x = (s, nd)" by (cases x)
  then show ?case using Cons by (auto simp: add_poll_def)
qed auto

lemma poll_collect_ok:
  assumes "poll_dirty m" "start + length (poll_list m) \<le> length polls" "length (poll_list m) \<le> length (responders m)"
  obtains polls' rs where "msg_poll_collect start polls m =
      Inr (start + length (poll_list m), polls',
        m\<lparr>responders := rs, poll_items := length (poll_list m), poll_dirty := False\<rparr>)"
    "length polls' = length polls" "length rs = length (responders m)"
    "entries_at (poll_list m) start 0 polls' (m\<lparr>responders := rs\<rparr>)"
proof -
  obtain polls' rs where p: "add_list (poll_list m) (start, polls, m\<lparr>poll_items := 0\<rparr>) =
      Inr (start + length (poll_list m), polls', m\<lparr>poll_items := 0, responders := rs, poll_items := 0 + length (poll_list m)\<rparr>)"
    "length polls' = length polls" "length rs = length (responders m)"
    "entries_at (poll_list m) start 0 polls' (m\<lparr>poll_items := 0, responders := rs\<rparr>)"
    using add_list_ok [of start "poll_list m" polls "m\<lparr>poll_items := 0\<rparr>"] assms(2,3) by auto
  show thesis
    by (rule that [of polls' rs]) (use p collect_as_list [OF assms(1)] in \<open>simp_all add: entries_at_def\<close>)
qed

text \<open>Which sockets there are: an invariant of the operations.\<close>

definition sockets_ok :: "messaging \<Rightarrow> bool" where
  "sockets_ok m \<longleftrightarrow> (relay m = None \<or> relay m = Some RelaySock) \<and> (rclient m = None \<or> rclient m = Some ClientSock) \<and>
     (\<forall>n \<in> set (sock_nodes m). \<exists>k. msg_sock n = SubSock k)"

lemma sockets_ok_init: "sockets_ok (init_messaging p r)"
  by (simp add: sockets_ok_def init_messaging_def)

lemma sockets_ok_subscribe: "sockets_ok m \<Longrightarrow> sockets_ok (fst (msg_subscribe k r m))"
  by (auto simp: sockets_ok_def msg_subscribe_def Let_def split: sum.splits)

text \<open>What becomes of a message on an entry of the poll set.\<close>

definition dispatch where
  "dispatch dumps loads fmt num_s t rc msg entry m =
     (case entry of
        (s, Some n) \<Rightarrow> Some (recv_subscribed_msg loads msg (Some n) m)
      | (s, None) \<Rightarrow>
          if s = RelaySock then Some (relay_to_publisher msg m, Inr SUnspec)
          else recv_relay_reply dumps fmt num_s t rc m)"

lemma poll_list_entry:
  assumes "sockets_ok m" "e \<in> set (poll_list m)"
  shows "e = (RelaySock, None) \<and> relay m = Some RelaySock \<or> e = (ClientSock, None) \<and> rclient m = Some ClientSock \<or>
    (\<exists>n k. e = (SubSock k, Some n) \<and> n \<in> set (sock_nodes m) \<and> msg_sock n = SubSock k)"
  using assms by (fastforce simp: poll_list_def sockets_ok_def split: option.splits)

section \<open>Sending again\<close>

fun fail_all where
  "fail_all dumps fmt num_s t [] m = Some (m, Inr SUnspec)"
| "fail_all dumps fmt num_s t ((k, v) # xs) m =
     andthen (msg_publish dumps fmt num_s t (-1) k (Some v) m) (\<lambda>m1 _. fail_all dumps fmt num_s t xs m1)"

fun replies where
  "replies dumps fmt num_s t 0 m = Some (m, Inr SUnspec)"
| "replies dumps fmt num_s t (Suc n) m =
     andthen (recv_relay_reply dumps fmt num_s t 1 m) (\<lambda>m1 _. replies dumps fmt num_s t n m1)"

definition wire :: "(json \<Rightarrow> string option) \<Rightarrow> (nat \<Rightarrow> string) \<Rightarrow> (real64 \<Rightarrow> string) \<Rightarrow> scm \<times> scm \<Rightarrow> string res" where
  "wire dumps fmt num_s x =
     bindR (msg_payload dumps fmt num_s (snd x)) (\<lambda>p. bindR (symbol_cstring (fst x)) (\<lambda>k. keyed_msg k p))"

lemma publish_wire:
  "wire dumps fmt num_s (k, v) = Inr s \<Longrightarrow> msg_publish dumps fmt num_s t rc k (Some v) m =
     (if rc < 0 then queue_msg t k v m else Some (m\<lparr>ms_sent := ms_sent m @ [(ClientSock, s)]\<rparr>, Inr (SBool True)))"
  by (simp add: msg_publish_def wire_def)

lemma fail_all_queues:
  "\<lbrakk>\<forall>x \<in> set xs. \<exists>s. wire dumps fmt num_s x = Inr s; relay_owner m = None\<rbrakk> \<Longrightarrow>
   fail_all dumps fmt num_s t xs m = Some (m\<lparr>msg_queue := rev xs @ msg_queue m\<rparr>, Inr SUnspec)"
proof (induction xs arbitrary: m)
  case (Cons x xs)
  obtain k v where x: "x = (k, v)" by (cases x)
  then obtain s where "wire dumps fmt num_s (k, v) = Inr s" using Cons.prems(1) by auto
  then have "msg_publish dumps fmt num_s t (-1) k (Some v) m =
      Some (m\<lparr>msg_queue := (k, v) # msg_queue m, relay_owner := None\<rparr>, Inr (SBool False))"
    using Cons.prems(2) by (simp add: publish_wire queue_msg_def lock_relay_def andthen_def)
  moreover have "m\<lparr>msg_queue := q, relay_owner := None\<rparr> = m\<lparr>msg_queue := q\<rparr>" for q
    using Cons.prems(2) by simp
  ultimately show ?case using Cons.IH [of "m\<lparr>msg_queue := (k, v) # msg_queue m\<rparr>"] Cons.prems x by (simp add: andthen_def)
qed (simp add: fun_upd_def)

lemma replies_send:
  "\<lbrakk>list_all2 (\<lambda>x s. wire dumps fmt num_s x = Inr s) (msg_queue m) ss; relay_owner m = None\<rbrakk> \<Longrightarrow>
   replies dumps fmt num_s t (length ss) m =
     Some (m\<lparr>msg_queue := [], ms_sent := ms_sent m @ map (Pair ClientSock) ss\<rparr>, Inr SUnspec)"
proof (induction ss arbitrary: m)
  case (Cons s ss)
  then obtain k v q where q: "msg_queue m = (k, v) # q" "wire dumps fmt num_s (k, v) = Inr s"
    "list_all2 (\<lambda>x s. wire dumps fmt num_s x = Inr s) q ss" by (auto simp: list_all2_Cons2)
  let ?m = "m\<lparr>msg_queue := q, ms_sent := ms_sent m @ [(ClientSock, s)]\<rparr>"
  have "recv_relay_reply dumps fmt num_s t 1 m = Some (?m, Inr SUnspec)"
    using q(1,2) Cons.prems(2) by (simp add: recv_relay_reply_def lock_relay_def andthen_def publish_wire)
  then show ?case using Cons.IH [of ?m] q(3) Cons.prems(2) by (simp add: andthen_def)
qed simp

section \<open>Properties\<close>



text \<open>
  C29: The poll set and the table of responders stay in step. Collecting succeeds exactly when the
  sockets fit both arrays; then every socket has its entry, in order, and a message that arrives
  on an entry is handed to the relay, to the queue, or to the responder of the very
  subscription whose socket it came from.
\<close>

theorem poll_set_dispatches:
  assumes "sockets_ok m" "poll_dirty m" "start \<le> length polls"
  shows "((\<exists>x. msg_poll_collect start polls m = Inr x) \<longleftrightarrow>
      start + length (poll_list m) \<le> length polls \<and> length (poll_list m) \<le> length (responders m)) \<and>
    (\<forall>finish polls' m'. msg_poll_collect start polls m = Inr (finish, polls', m') \<longrightarrow>
      map pi_socket (take (finish - start) (drop start polls')) = map fst (poll_list m) \<and> start \<le> finish \<and>
      (\<forall>i \<in> {start..<finish}. \<forall>recv msg. pi_revents (polls' ! i) \<longrightarrow> recv i = Some msg \<longrightarrow>
         process_item dumps loads fmt num_s t recv rc start polls' i m' =
           dispatch dumps loads fmt num_s t (rc i) msg (poll_list m ! (i - start)) m'))"
proof (cases "start + length (poll_list m) \<le> length polls \<and> length (poll_list m) \<le> length (responders m)")
  case False
  then have "add_list (poll_list m) (start, polls, m\<lparr>poll_items := 0\<rparr>) = Inl BadAccess"
    using assms(3) by (intro add_list_over) auto
  then have "msg_poll_collect start polls m = Inl BadAccess" using collect_as_list [OF assms(2)] by simp
  then show ?thesis using False by simp
next
  case True
  let ?n = "length (poll_list m)"
  obtain polls' rs where c: "msg_poll_collect start polls m =
      Inr (start + ?n, polls', m\<lparr>responders := rs, poll_items := ?n, poll_dirty := False\<rparr>)"
    and len: "length polls' = length polls" "length rs = length (responders m)"
    and e: "entries_at (poll_list m) start 0 polls' (m\<lparr>responders := rs\<rparr>)"
    using poll_collect_ok [OF assms(2)] True by metis
  let ?m = "m\<lparr>responders := rs, poll_items := ?n, poll_dirty := False\<rparr>"
  have socks: "map pi_socket (take ?n (drop start polls')) = map fst (poll_list m)"
    by (rule nth_equalityI) (use True len(1) e in \<open>auto simp: entries_at_def\<close>)
  have "process_item dumps loads fmt num_s t recv rc start polls' i ?m =
      dispatch dumps loads fmt num_s t (rc i) msg (poll_list m ! (i - start)) ?m"
    if i: "i \<in> {start..<start + ?n}" "pi_revents (polls' ! i)" "recv i = Some msg" for i recv msg
  proof -
    have k: "i - start < ?n" "i < length polls'" "i - start < length rs" using i(1) True len by auto
    have s: "pi_socket (polls' ! i) = fst (poll_list m ! (i - start))" "rs ! (i - start) = snd (poll_list m ! (i - start))"
      using e k(1) i(1) by (auto simp: entries_at_def dest: spec [of _ "i - start"])
    have ok: "relay m = None \<or> relay m = Some RelaySock" "rclient m = None \<or> rclient m = Some ClientSock"
      using assms(1) by (simp_all add: sockets_ok_def)
    show ?thesis
      using poll_list_entry [OF assms(1) nth_mem [OF k(1)]]
    proof (elim disjE exE conjE)
      fix n j assume "poll_list m ! (i - start) = (SubSock j, Some n)"
      then show ?thesis using s k(2,3) i(2,3) ok by (auto simp: process_item_def dispatch_def Let_def)
    qed (use s k(2) i(2,3) ok in \<open>auto simp: process_item_def dispatch_def Let_def\<close>)
  qed
  then show ?thesis using True c socks by auto
qed

theorem poll_set_dispatches_witness:
  "\<exists>x. msg_poll_collect 2 (replicate 256 \<lparr>pi_socket = PubSock, pi_fd = 0, pi_revents = False\<rparr>)
     (fst (msg_subscribe (SSym ''k'') (SProc 1) (init_messaging True True))) = Inr x"
proof -
  let ?m = "fst (msg_subscribe (SSym ''k'') (SProc 1) (init_messaging True True))"
  let ?p = "replicate 256 \<lparr>pi_socket = PubSock, pi_fd = 0, pi_revents = False\<rparr>"
  have m: "sockets_ok ?m" "poll_dirty ?m" "2 \<le> length ?p"
    by (rule sockets_ok_subscribe [OF sockets_ok_init]) (simp_all add: msg_subscribe_def symbol_cstring_def)
  have "length (poll_list ?m) = 3" "length (responders ?m) = 256"
    by (simp_all add: msg_subscribe_def symbol_cstring_def poll_list_def init_messaging_def)
  then show ?thesis using poll_set_dispatches [OF m] by simp
qed

text \<open>
  Messages that could not be sent are sent again, each once, and in reverse: when a number of
  publications fail and as many replies arrive later, the request socket gets every one of
  them, the newest first, and nothing is left in the queue.
\<close>

theorem republished_newest_first:
  assumes "list_all2 (\<lambda>x s. wire dumps fmt num_s x = Inr s) xs ss" "relay_owner m = None" "msg_queue m = []"
  shows "\<exists>m1 m2. fail_all dumps fmt num_s t xs m = Some (m1, Inr SUnspec) \<and> ms_sent m1 = ms_sent m \<and>
    replies dumps fmt num_s t' (length xs) m1 = Some (m2, Inr SUnspec) \<and>
    ms_sent m2 = ms_sent m @ map (Pair ClientSock) (rev ss) \<and> msg_queue m2 = [] \<and> relay_owner m2 = None"
proof -
  let ?m1 = "m\<lparr>msg_queue := rev xs\<rparr>"
  have "\<forall>x \<in> set xs. \<exists>s. wire dumps fmt num_s x = Inr s"
    using assms(1) by (induction rule: list_all2_induct) auto
  from fail_all_queues [OF this assms(2), of t] have f: "fail_all dumps fmt num_s t xs m = Some (?m1, Inr SUnspec)"
    using assms(3) by simp
  have "list_all2 (\<lambda>x s. wire dumps fmt num_s x = Inr s) (msg_queue ?m1) (rev ss)" using assms(1) by simp
  from replies_send [OF this, of t'] assms(2)
  have "replies dumps fmt num_s t' (length (rev ss)) ?m1 =
      Some (?m1\<lparr>msg_queue := [], ms_sent := ms_sent m @ map (Pair ClientSock) (rev ss)\<rparr>, Inr SUnspec)" by simp
  then show ?thesis
    using f assms(2) list_all2_lengthD [OF assms(1)]
    by (intro exI [of _ ?m1] exI [of _ "?m1\<lparr>msg_queue := [], ms_sent := ms_sent m @ map (Pair ClientSock) (rev ss)\<rparr>"]) simp
qed

theorem republished_newest_first_witness:
  "\<exists>m1 m2. fail_all (\<lambda>j. Some ''x'') (\<lambda>_. []) (\<lambda>_. []) 0 [(SSym ''a'', SInt 1), (SSym ''b'', SInt 2)] (init_messaging True True) =
       Some (m1, Inr SUnspec) \<and>
     replies (\<lambda>j. Some ''x'') (\<lambda>_. []) (\<lambda>_. []) 0 2 m1 = Some (m2, Inr SUnspec) \<and>
     ms_sent m2 = [(ClientSock, ''b:x''), (ClientSock, ''a:x'')]"
proof -
  let ?m = "init_messaging True True"
  have w: "list_all2 (\<lambda>x s. wire (\<lambda>j. Some ''x'') (\<lambda>_. []) (\<lambda>_. []) x = Inr s)
      [(SSym ''a'', SInt 1), (SSym ''b'', SInt 2)] [''a:x'', ''b:x'']"
    by (simp add: wire_def msg_payload_def json_encode_def scm_to_int_def symbol_cstring_def keyed_msg_def)
  have m: "relay_owner ?m = None" "msg_queue ?m = []" "ms_sent ?m = []" by (simp_all add: init_messaging_def)
  have "length [(SSym ''a'', SInt 1), (SSym ''b'', SInt 2)] = 2"
    "map (Pair ClientSock) (rev [''a:x'', ''b:x'']) = [(ClientSock, ''b:x''), (ClientSock, ''a:x'')]" by simp_all
  then show ?thesis using republished_newest_first [OF w m(1,2), of 0 0] m(3) by (metis append_Nil)
qed

text \<open>
  Sending again that fails wedges messaging. When a reply arrives and the queued message cannot be sent,
  \<open>msg_publish\<close> wants the mutex that \<open>recv_relay_reply\<close> holds: the exception leaves the mutex locked for
  good and the message lost, and from then on every failing publication of another thread blocks.
\<close>

theorem failed_republish_wedges:
  assumes "msg_queue m = (k, v) # rest" "relay_owner m = None" "wire dumps fmt num_s (k, v) = Inr s" "rc < 0"
  shows "\<exists>m'. recv_relay_reply dumps fmt num_s t rc m = Some (m', Inl misc_error) \<and> msg_queue m' = rest \<and>
    relay_owner m' = Some t \<and>
    (\<forall>t' rc' x s'. t' \<noteq> t \<longrightarrow> rc' < 0 \<longrightarrow> wire dumps fmt num_s x = Inr s' \<longrightarrow>
       msg_publish dumps fmt num_s t' rc' (fst x) (Some (snd x)) m' = None)"
proof -
  let ?m = "m\<lparr>relay_owner := Some t, msg_queue := rest\<rparr>"
  have "recv_relay_reply dumps fmt num_s t rc m = Some (?m, Inl misc_error)"
    using assms by (simp add: recv_relay_reply_def lock_relay_def andthen_def publish_wire queue_msg_def)
  moreover have "msg_publish dumps fmt num_s t' rc' (fst x) (Some (snd x)) ?m = None"
    if "t' \<noteq> t" "rc' < 0" "wire dumps fmt num_s x = Inr s'" for t' rc' x s'
    using that publish_wire [of dumps fmt num_s "fst x" "snd x" s']
    by (simp add: queue_msg_def lock_relay_def andthen_def)
  ultimately show ?thesis by (intro exI [of _ ?m]) auto
qed

theorem failed_republish_wedges_witness:
  "\<exists>m'. recv_relay_reply (\<lambda>j. Some ''x'') (\<lambda>_. []) (\<lambda>_. []) 0 (-1)
       ((init_messaging True True)\<lparr>msg_queue := [(SSym ''a'', SInt 1)]\<rparr>) = Some (m', Inl misc_error) \<and> msg_queue m' = []"
  using failed_republish_wedges [of "(init_messaging True True)\<lparr>msg_queue := [(SSym ''a'', SInt 1)]\<rparr>" "SSym ''a''" "SInt 1" "[]"
      "\<lambda>j. Some ''x''" "\<lambda>_. []" "\<lambda>_. []" "''a:x''" "-1" 0]
  by (auto simp: wire_def msg_payload_def json_encode_def scm_to_int_def symbol_cstring_def keyed_msg_def init_messaging_def)

text \<open>
  The buffer for a keyed message is large enough exactly for keys of up to 128 bytes: a longer
  symbol writes past its end, whatever the message.
\<close>

theorem long_key_overflows_iff:
  assumes "msg_payload dumps fmt num_s msg = Inr body" "NUL \<notin> set k"
  shows "(\<exists>m'. msg_publish dumps fmt num_s t rc (SSym k) (Some msg) m = Some (m', Inl BadAccess)) \<longleftrightarrow> MAX_KEY_LEN < length k"
proof -
  have w: "wire dumps fmt num_s (SSym k, msg) = keyed_msg k body" using assms by (simp add: wire_def symbol_cstring_def)
  show ?thesis
  proof (cases "MAX_KEY_LEN < length k")
    case True
    then show ?thesis using assms by (simp add: msg_publish_def symbol_cstring_def keyed_msg_def)
  next
    case False
    then have "wire dumps fmt num_s (SSym k, msg) = Inr (k @ '':'' @ body)" unfolding w by (simp add: keyed_msg_def)
    then show ?thesis
      using False by (auto simp: publish_wire queue_msg_def andthen_def lock_relay_def misc_error_def split: option.splits if_splits)
  qed
qed

theorem long_key_overflows_iff_witness:
  "\<exists>m'. msg_publish (\<lambda>j. Some ''x'') (\<lambda>_. []) (\<lambda>_. []) 0 1 (SSym (replicate 129 CHR ''k'')) (Some (SInt 1)) (init_messaging True True) =
     Some (m', Inl BadAccess)"
  using long_key_overflows_iff [of "\<lambda>j. Some ''x''" "\<lambda>_. []" "\<lambda>_. []" "SInt 1" "''x''" "replicate 129 CHR ''k''" 0 1 "init_messaging True True"]
  by (simp add: msg_payload_def json_encode_def scm_to_int_def)

end
