(* ===== verification/Smtp.thy ===== *)
theory Smtp
  imports Scm
begin

text \<open>
  Sending mail (\<open>smtp.c\<close>). libcurl is the parameter \<open>smtp_curl\<close>: whether a handle can be made, how many
  bytes it asks the read callback for at each call, and the error message of a transfer that
  fails. It calls the callback until that returns 0, as its documentation says of uploads.
\<close>

section \<open>The read callback\<close>

text \<open>\<open>src\<close> is the text, a C string, and \<open>pt\<close> the offset of the pointer into it; a \<open>size_t\<close> has 64 bits.\<close>

definition reader :: "nat \<Rightarrow> nat \<Rightarrow> string \<Rightarrow> nat \<Rightarrow> string \<times> nat" where
  "reader size1 nmemb src pt =
     (let limit = size1 * nmemb mod 2 ^ 64;
          len = min (length (drop pt src)) limit
      in (take len (drop pt src), pt + len))"

function upload :: "(nat \<Rightarrow> nat \<times> nat) \<Rightarrow> nat \<Rightarrow> string \<Rightarrow> nat \<Rightarrow> string list" where
  "upload ask k src pt =
     (let (chunk, pt') = reader (fst (ask k)) (snd (ask k)) src pt
      in if chunk = [] then [] else chunk # upload ask (Suc k) src pt')"
  by pat_completeness auto
termination
  by (relation "measure (\<lambda>(ask, k, src, pt). length src - pt)") (auto simp: reader_def Let_def)

declare upload.simps [simp del]

section \<open>Sending\<close>

record mail =
  ml_username :: string
  ml_password :: string
  ml_url :: string
  ml_use_ssl_all :: bool
  ml_verify_peer :: int
  ml_verify_host :: int
  ml_from :: string
  ml_rcpt :: "string list"
  ml_upload :: bool

record smtp_curl =
  sc_init :: bool
  sc_ask :: "mail \<Rightarrow> nat \<Rightarrow> nat \<times> nat"
  sc_error :: "mail \<Rightarrow> string list \<Rightarrow> string option"

text \<open>\<open>SCM_CAR\<close> and \<open>SCM_CDR\<close> are not checked, and only the empty list ends the loop.\<close>

fun collect_recipients :: "scm \<Rightarrow> string list res" where
  "collect_recipients SEol = Inr []"
| "collect_recipients (SCons a d) =
     bindR (scm_to_cstring a) (\<lambda>s. bindR (collect_recipients d) (\<lambda>rest. Inr (s # rest)))"
| "collect_recipients _ = Inl BadAccess"

text \<open>The value, the mail with the chunks that were uploaded, and the lines that were logged.\<close>

definition smtp_send ::
    "smtp_curl \<Rightarrow> scm \<Rightarrow> scm \<Rightarrow> scm \<Rightarrow> scm \<Rightarrow> scm \<Rightarrow> scm \<Rightarrow> (scm \<times> (mail \<times> string list) option \<times> string list) res" where
  "smtp_send curl url sender recipients username password payload =
     (if \<not> sc_init curl then Inr (SBool False, None, [''smtp_send: curl init failed'' @ [LF]])
      else
        bindR (scm_to_cstring username) (\<lambda>s_username.
        bindR (scm_to_cstring password) (\<lambda>s_password.
        bindR (scm_to_cstring url) (\<lambda>s_url.
        bindR (scm_to_cstring sender) (\<lambda>s_from.
        bindR (collect_recipients recipients) (\<lambda>s_recipients.
        bindR (scm_to_cstring payload) (\<lambda>src.
          let m = \<lparr>ml_username = s_username, ml_password = s_password, ml_url = s_url, ml_use_ssl_all = True,
                   ml_verify_peer = 1, ml_verify_host = 1, ml_from = s_from, ml_rcpt = s_recipients, ml_upload = True\<rparr>;
              chunks = upload (sc_ask curl m) 0 src 0
          in Inr (case sc_error curl m chunks of
                    Some why \<Rightarrow> (SBool False, Some (m, chunks), [''smtp_send: '' @ why @ [LF]])
                  | None \<Rightarrow> (SBool True, Some (m, chunks), [])))))))))"

section \<open>Lemmas\<close>

lemma collect_recipients_list:
  "\<forall>r \<in> set rs. NUL \<notin> set r \<Longrightarrow> collect_recipients (scm_of_list (map SStr rs)) = Inr rs"
  by (induction rs) auto

lemma collect_recipients_Inr:
  "collect_recipients v = Inr rs \<Longrightarrow> v = scm_of_list (map SStr rs) \<and> (\<forall>r \<in> set rs. NUL \<notin> set r)"
  by (induction v arbitrary: rs) (auto simp: bindR_eq_Inr scm_to_cstring_Inr)

lemma collect_recipients_iff:
  "collect_recipients v = Inr rs \<longleftrightarrow> v = scm_of_list (map SStr rs) \<and> (\<forall>r \<in> set rs. NUL \<notin> set r)"
  using collect_recipients_Inr collect_recipients_list by blast

lemma upload_whole:
  assumes "\<forall>k. 0 < fst (ask k) * snd (ask k) mod 2 ^ 64" "pt \<le> length src"
  shows "concat (upload ask k src pt) = drop pt src"
  using assms
proof (induction ask k src pt rule: upload.induct)
  case (1 ask k src pt)
  let ?n = "fst (ask k) * snd (ask k) mod 2 ^ 64" and ?c = "fst (reader (fst (ask k)) (snd (ask k)) src pt)"
  have c: "reader (fst (ask k)) (snd (ask k)) src pt = (take ?n (drop pt src), pt + min (length src - pt) ?n)"
    by (simp add: reader_def Let_def min_def)
  show ?case
  proof (cases "take ?n (drop pt src) = []")
    case True
    then have "drop pt src = []" using 1(2) by (metis less_numeral_extra(3) take_eq_Nil)
    then show ?thesis using c True by (subst upload.simps) simp
  next
    case False
    have "concat (upload ask (Suc k) src (pt + min (length src - pt) ?n)) = drop (pt + min (length src - pt) ?n) src"
      by (rule 1(1) [OF c [symmetric] refl False 1(2)]) (use 1(3) in simp)
    moreover have "take ?n (drop pt src) @ drop (pt + min (length src - pt) ?n) src = drop pt src"
      by (cases "length src - pt \<le> ?n") (simp_all add: min_def add.commute [of pt] flip: drop_drop)
    ultimately show ?thesis using c False by (subst upload.simps) simp
  qed
qed

lemma upload_chunks:
  assumes "k < length (upload ask j src pt)"
  shows "upload ask j src pt ! k \<noteq> [] \<and> length (upload ask j src pt ! k) \<le> fst (ask (j + k)) * snd (ask (j + k)) mod 2 ^ 64"
  using assms
proof (induction ask j src pt arbitrary: k rule: upload.induct)
  case (1 ask j src pt)
  obtain c pt' where c: "reader (fst (ask j)) (snd (ask j)) src pt = (c, pt')" by fastforce
  have e: "upload ask j src pt = (if c = [] then [] else c # upload ask (Suc j) src pt')"
    by (subst upload.simps) (simp add: c)
  then have ne: "c \<noteq> []" using 1(2) by auto
  show ?case
  proof (cases k)
    case 0
    then show ?thesis using e ne c by (auto simp: reader_def Let_def)
  next
    case (Suc i)
    then show ?thesis using 1(1) [OF c [symmetric] refl ne, of i] 1(2) e ne by simp
  qed
qed

section \<open>Properties\<close>

text \<open>
  A mail goes out as it was given: when libcurl can be set up and the arguments are strings, it is
  handed the sender, the recipients in their order and the account, the chunks that the callback
  delivers are never larger than asked for and are together the text, and the value says
  whether the transfer succeeded. Something else than a list of strings for the recipients is an
  exception or an access outside a pair.
\<close>

theorem mail_sent_as_given:
  assumes "sc_init curl" "\<forall>s \<in> set [url, sender, user, pass, body]. NUL \<notin> set s"
    and "\<forall>m k. 0 < fst (sc_ask curl m k) * snd (sc_ask curl m k) mod 2 ^ 64"
  shows "((\<exists>x. smtp_send curl (SStr url) (SStr sender) rcpt (SStr user) (SStr pass) (SStr body) = Inr x) \<longleftrightarrow>
      (\<exists>rs. rcpt = scm_of_list (map SStr rs) \<and> (\<forall>r \<in> set rs. NUL \<notin> set r))) \<and>
    (\<forall>rs. (\<forall>r \<in> set rs. NUL \<notin> set r) \<longrightarrow>
      (\<exists>m chunks lines.
         smtp_send curl (SStr url) (SStr sender) (scm_of_list (map SStr rs)) (SStr user) (SStr pass) (SStr body) =
           Inr (SBool (sc_error curl m chunks = None), Some (m, chunks), lines) \<and>
         ml_from m = sender \<and> ml_rcpt m = rs \<and> ml_url m = url \<and> ml_username m = user \<and> ml_password m = pass \<and>
         ml_use_ssl_all m \<and> concat chunks = body \<and>
         (\<forall>k < length chunks. length (chunks ! k) \<le> fst (sc_ask curl m k) * snd (sc_ask curl m k) mod 2 ^ 64)))"
proof -
  let ?m = "\<lambda>rs. \<lparr>ml_username = user, ml_password = pass, ml_url = url, ml_use_ssl_all = True,
    ml_verify_peer = 1, ml_verify_host = 1, ml_from = sender, ml_rcpt = rs, ml_upload = True\<rparr>"
  let ?l = "\<lambda>rs cs. case sc_error curl (?m rs) cs of None \<Rightarrow> [] | Some why \<Rightarrow> [''smtp_send: '' @ why @ [LF]]"
  let ?c = "\<lambda>rs. upload (sc_ask curl (?m rs)) 0 body 0"
  have r: "smtp_send curl (SStr url) (SStr sender) v (SStr user) (SStr pass) (SStr body) =
      bindR (collect_recipients v) (\<lambda>rs. Inr (SBool (sc_error curl (?m rs) (?c rs) = None), Some (?m rs, ?c rs),
        ?l rs (?c rs)))" for v
    using assms(1,2) by (auto simp: smtp_send_def bindR_def Let_def split: sum.splits option.splits)
  have w: "concat (?c rs) = body" for rs using upload_whole [of "sc_ask curl (?m rs)" 0 body 0] assms(3) by simp
  have "\<forall>k < length (?c rs). length (?c rs ! k) \<le> fst (sc_ask curl (?m rs) k) * snd (sc_ask curl (?m rs) k) mod 2 ^ 64" for rs
    using upload_chunks [of _ "sc_ask curl (?m rs)" 0 body 0] by simp
  then have "\<exists>m chunks lines.
         smtp_send curl (SStr url) (SStr sender) (scm_of_list (map SStr rs)) (SStr user) (SStr pass) (SStr body) =
           Inr (SBool (sc_error curl m chunks = None), Some (m, chunks), lines) \<and>
         ml_from m = sender \<and> ml_rcpt m = rs \<and> ml_url m = url \<and> ml_username m = user \<and> ml_password m = pass \<and>
         ml_use_ssl_all m \<and> concat chunks = body \<and>
         (\<forall>k < length chunks. length (chunks ! k) \<le> fst (sc_ask curl m k) * snd (sc_ask curl m k) mod 2 ^ 64)"
    if "\<forall>r \<in> set rs. NUL \<notin> set r" for rs
    using r [of "scm_of_list (map SStr rs)"] collect_recipients_list [OF that] w
    by (intro exI [of _ "?m rs"] exI [of _ "?c rs"] exI [of _ "?l rs (?c rs)"]) simp
  moreover have "(\<exists>x. smtp_send curl (SStr url) (SStr sender) rcpt (SStr user) (SStr pass) (SStr body) = Inr x) \<longleftrightarrow>
      (\<exists>rs. collect_recipients rcpt = Inr rs)"
    unfolding r by (auto simp: bindR_def split: sum.splits)
  ultimately show ?thesis by (simp add: collect_recipients_iff)
qed

theorem mail_sent_as_given_witness:
  "\<exists>m chunks lines.
     smtp_send \<lparr>sc_init = True, sc_ask = \<lambda>m k. (1, 2), sc_error = \<lambda>m cs. None\<rparr> (SStr ''smtp://h'') (SStr ''me'')
       (scm_of_list [SStr ''a'', SStr ''b'']) (SStr ''u'') (SStr ''p'') (SStr ''hello'') =
       Inr (SBool True, Some (m, chunks), lines) \<and> ml_rcpt m = [''a'', ''b''] \<and> concat chunks = ''hello''"
proof -
  let ?curl = "\<lparr>sc_init = True, sc_ask = \<lambda>m k. (1, 2), sc_error = \<lambda>m cs. None\<rparr>"
  have h: "sc_init ?curl" "\<forall>s \<in> set [''smtp://h'', ''me'', ''u'', ''p'', ''hello'']. NUL \<notin> set s"
    "\<forall>m k. 0 < fst (sc_ask ?curl m k) * snd (sc_ask ?curl m k) mod 2 ^ 64" "\<forall>r \<in> set [''a'', ''b'']. NUL \<notin> set r"
    by simp_all
  show ?thesis
    using conjunct2 [OF mail_sent_as_given [OF h(1-3), of SEol], THEN spec, THEN mp, OF h(4)] by auto
qed

end
