(* ===== verification/Spec2Isabelle.thy ===== *)
theory Spec2Isabelle
  imports Boot Wakeup Report Template Http Postgres Messaging Smtp
begin

text \<open>
  Verification of gusher, a web application server in C that embeds Guile Scheme
  (\<open>src/src/*.c\<close>). A main thread accepts connections and puts them in frames on a queue;
  dispatcher threads take frames, read an HTTP request, build an association list from it, call the
  Scheme procedure registered for the longest matching path, and send its reply. Scheme code can
  use the other modules: a document cache, templates, JSON, conversions, an HTTP client with an XML
  reader, time stamps, a PostgreSQL client, mail and the log. \<open>main\<close> polls the listening socket and the
  console and looks after the cache and a heartbeat file in between.

  \<^bold>\<open>Foundations.\<close> \<open>Prelude\<close> has results that carry a fault (\<open>BadAccess\<close>, \<open>NullDeref\<close>, a Scheme
  exception), byte buffers with checked access, C strings in buffers, and the libc routines the
  sources call. \<open>Scm\<close> has the Scheme values and the accessors of libguile. Text is bytes: the
  conversions between encodings are the identity. Undefined behaviour of C is a value, so that a
  theorem that an operation returns \<open>Inr\<close> includes that it stays inside its objects.

  \<^bold>\<open>The server\<close> (\<open>main.c\<close>).
  \<^item> \<open>Query\<close>: \<open>decode_hex\<close>, \<open>decode_query\<close>, \<open>parse_query\<close> and the query accessors, in place on a buffer.
    The parser computes a reference decoding; decoding inverts percent encoding; the buffer bound
    holds exactly when no escape is cut short.
  \<^item> \<open>Handlers\<close>: \<open>set_handler\<close> (with the merge sort of glibc, interface \<open>stable_keyed_sort\<close>), \<open>find_handler\<close>.
    The sorted table refines a registry that answers with the longest registered prefix.
  \<^item> \<open>Frames\<close>: the linked pool and queue of frames (\<open>get_frame\<close>, \<open>release_frame\<close>, \<open>enqueue_frame\<close>, the
    dequeue of \<open>dispatcher\<close>, \<open>clear_queues\<close>) on an explicit heap, a refinement of an abstract queue, pool
    and set of owned frames (interface \<open>frame_manager\<close>).
  \<^item> \<open>Request\<close>: \<open>mygetline\<close>, \<open>start_request\<close>, the header loop of \<open>process_request\<close>, over a stream that may
    be cut into reads anywhere. \<open>Response\<close>: sessions, stock pages, \<open>run_responder\<close>, \<open>send_headers\<close>, \<open>send_all\<close>.
    \<open>Post\<close> and \<open>Multipart\<close>: form bodies. \<open>Worker\<close>: the whole of \<open>process_request\<close> as a list of effects.
  \<^item> \<open>Server\<close>: main thread and dispatchers as interleaved steps (\<open>sstep\<close>), one dispatcher per processor at
    the start; the steps of a worker are its effects one by one, so that releasing a frame, sending and
    closing interleave. \<open>Isolation\<close>: in every reachable state frames are owned by one party, requests are
    taken in arrival order, the number of threads is bounded, and each connection receives only a
    prefix of its own reply as long as handlers do not raise; one that raises can send its error page
    to another client. \<open>Liveness\<close>: between two connections every schedule of the threads ends, by a
    lexicographic measure on the steps, and then every connection has its whole reply.
  \<^item> \<open>Wakeup\<close>: how dispatchers wait. The loop of \<open>dispatcher\<close> with its registration in \<open>qcondvars\<close>, the timed wait on
    a condition variable, spurious wake-ups and the signals of \<open>enqueue_frame\<close> refines the waiting threads of
    \<open>Server\<close> (interface \<open>stutter_simulation\<close>). No wake-up is lost while registrations do not overlap; when they do, a
    dispatcher can be dropped from the list, and the timeout still answers every request within a second. The
    loop comes to rest between two events.
  \<^item> \<open>Report\<close>: how exceptions are logged; the stack in a report is that of the last thread that raised.
  \<^item> \<open>Mainloop\<close>: options, loading of files, console, heartbeat, the poll loop, the mode without threads and
    the shutdown, as functions of what happens outside. \<open>pstep\<close> interleaves rounds of the loop with
    dispatchers, handlers and signals; a round is a sequence of steps of \<open>Server\<close>, so that the
    results on the server hold of the whole program.
  \<^item> \<open>Boot\<close>: \<open>init_env\<close> with the \<open>init_\<close> and \<open>shutdown_\<close> functions of all modules, the table of Scheme procedures with
    their arities, the boot file, and \<open>main\<close> from the command line to its exit status. The environment is exactly the table; a
    call reaches its C function with the right parameters, with one exception.

  \<^bold>\<open>The modules.\<close>
  \<^item> \<open>Cache\<close> (\<open>cache.c\<close>): the graph of documents. Edges lead from older to newer nodes, so that \<open>invalidate\<close>,
    a recursion over the graph, ends and marks exactly what is made from a document. A cache that the
    operations reach is coherent: what is marked clean holds the value it would have without a cache,
    and a script that fetches documents gets those values (interface \<open>document_reader\<close>, between
    fetching and recipes). Recipes are programs of fetches that keep to their ingredients. The nesting bound
    \<open>call_depth\<close> is the number of documents, which is enough because a recipe only fetches older
    documents. \<open>police_cache\<close> restores coherence after files changed.
  \<^item> \<open>Template\<close> (\<open>template.c\<close>): filling slots is the reference substitution on well-formed templates.
  \<^item> \<open>Json\<close> (\<open>json.c\<close>): values survive the round trip up to the order of members. jansson's printer and
    parser are parameters.
  \<^item> \<open>Butter\<close> (\<open>butter.c\<close>): conversions and joining of nested lists.
  \<^item> \<open>Http\<close> (\<open>http.c\<close>): callbacks of libcurl, reassembly of the body, header fields, form data, the walk
    over an XML tree of libxml2, requests on a handle whose options stay set.
  \<^item> \<open>Gtime\<close> (\<open>gtime.c\<close>): time stamps with microseconds over a parametric rounding of doubles and a
    parametric calendar; ISO 8601 decoding with the regular expression spelled out.
  \<^item> \<open>Postgres\<close> (\<open>postgres.c\<close>): columns, rows, the cursor and the freeing of results; libpq is a parameter.
  \<^item> \<open>Log\<close> (\<open>log.c\<close>): file handles that can be closed, a path that can be freed. The calls refine a log
    with a current destination (interface \<open>journal\<close> to the main loop), unless a path does not convert.
  \<^item> \<open>Smtp\<close> (\<open>smtp.c\<close>): the read callback and the request; libcurl is a parameter.
  \<^item> \<open>Messaging\<close> (\<open>messaging.c\<close>, which the build leaves out): publishing through the relay, subscriptions, sending
    again, and the poll set, whose entries stay in step with the table of responders. The results of ZeroMQ
    calls are arguments.

  \<^bold>\<open>Loops.\<close> Loops over data are recursive functions with a termination proof. A loop that may not end
  (reading a body, invalidating a cyclic graph) is a partial function whose value \<open>None\<close> means that it
  does not return; the theorems state when it does.

  \<^bold>\<open>Not modelled.\<close> Readline's editing, the text of backtraces and of exceptions as Guile prints them, and what \<open>boot.scm\<close> and the
  other Scheme files do, which are parameters. Garbage collection is modelled by the callbacks that free
  memory (\<open>free_node\<close>, \<open>free_pg_conn\<close>, \<open>free_pg_res\<close>, \<open>free_chandle\<close>), by what \<open>mark_node\<close> keeps, and by the protection of the list of condition
  variables; \<open>mark_pg_conn\<close> and \<open>mark_pg_res\<close> are not. \<open>ds\<close> of \<open>json.c\<close> prints for debugging and is never called. A critical section of \<open>qmutex\<close> or \<open>pmutex\<close> is one step. The
  mutex of \<open>log_msg\<close> makes a message one step. Overflow of the \<open>int\<close> arithmetic on the fields of a date is ignored.
\<close>

end
